(* ===== verification/Prelude.thy ===== *)
theory Prelude
  imports Main "HOL-Library.Word"
begin

text \<open>
  Shared vocabulary of the development.

  \<^item> Machine integers: \<open>uchar\<close>, \<open>ushort\<close> and \<open>uint\<close> of \<open>types.h\<close> as words of 8, 16
    and 32 bits; an \<open>int\<close> of the C code that may be negative is either a \<open>32 word\<close>
    read by \<open>sint\<close> (where wrap-around matters) or an \<open>int\<close>.
  \<^item> Kernel code as state transformers: a kernel routine is a function from a state to
    an outcome. \<open>Ok a s\<close> is a normal return, \<open>Panic msg\<close> is a call of \<open>panic\<close> in
    \<open>console.c\<close> (which never returns), and \<open>Blocked s\<close> is a thread that waits in state
    \<open>s\<close> for another thread: it spins on a lock held elsewhere, or it is asleep and
    nothing wakes it up.
  \<^item> Table scans: the kernel's fixed-size tables are lists, and its
    \<open>for(p = tab; p < &tab[N]; p++)\<close> searches are \<open>find_index\<close>.
\<close>

unbundle bit_operations_syntax

type_synonym uchar = "8 word"
type_synonym ushort = "16 word"
type_synonym uint = "32 word"

section \<open>Outcomes of kernel code\<close>

datatype ('s, 'a) kres = Ok 'a 's | Panic string | Blocked 's

type_synonym ('s, 'a) kern = "'s \<Rightarrow> ('s, 'a) kres"

named_theorems kern_simps \<open>unfolding the state-transformer combinators\<close>

definition kret :: "'a \<Rightarrow> ('s, 'a) kern" where
  "kret a = (\<lambda>s. Ok a s)"

definition kbind :: "('s, 'a) kern \<Rightarrow> ('a \<Rightarrow> ('s, 'b) kern) \<Rightarrow> ('s, 'b) kern" where
  "kbind m f = (\<lambda>s. case m s of Ok a s' \<Rightarrow> f a s' | Panic e \<Rightarrow> Panic e | Blocked s' \<Rightarrow> Blocked s')"

definition kpanic :: "string \<Rightarrow> ('s, 'a) kern" where
  "kpanic e = (\<lambda>s. Panic e)"

definition kget :: "('s \<Rightarrow> 'a) \<Rightarrow> ('s, 'a) kern" where
  "kget f = (\<lambda>s. Ok (f s) s)"

definition kmod :: "('s \<Rightarrow> 's) \<Rightarrow> ('s, unit) kern" where
  "kmod f = (\<lambda>s. Ok () (f s))"

text \<open>\<open>kassert c e\<close> is the C idiom \<open>if(!c) panic(e);\<close>.\<close>

definition kassert :: "('s \<Rightarrow> bool) \<Rightarrow> string \<Rightarrow> ('s, unit) kern" where
  "kassert c e = (\<lambda>s. if c s then Ok () s else Panic e)"

text \<open>\<open>kif c m\<close> is the C idiom \<open>if(c) m;\<close> with the condition read from the state.\<close>

definition kif :: "('s \<Rightarrow> bool) \<Rightarrow> ('s, unit) kern \<Rightarrow> ('s, unit) kern" where
  "kif c m = (\<lambda>s. if c s then m s else Ok () s)"

text \<open>\<open>kcond c m n\<close> is the C statement \<open>if(c) m; else n;\<close>.\<close>

definition kcond :: "('s \<Rightarrow> bool) \<Rightarrow> ('s, 'a) kern \<Rightarrow> ('s, 'a) kern \<Rightarrow> ('s, 'a) kern" where
  "kcond c m n = (\<lambda>s. if c s then m s else n s)"

text \<open>A block of statements, run in order; \<open>kseq ms r\<close> runs the block and then \<open>r\<close>.\<close>

primrec kseq :: "('s, unit) kern list \<Rightarrow> ('s, 'a) kern \<Rightarrow> ('s, 'a) kern" where
  "kseq [] r = r"
| "kseq (m # ms) r = kbind m (\<lambda>_. kseq ms r)"

text \<open>A counted loop: the body once per element, in order.\<close>

primrec kfor :: "'i list \<Rightarrow> ('i \<Rightarrow> ('s, unit) kern) \<Rightarrow> ('s, unit) kern" where
  "kfor [] body = kret ()"
| "kfor (i # is) body = kbind (body i) (\<lambda>_. kfor is body)"

text \<open>
  A \<open>while\<close> or \<open>for\<close> loop with early exits. The body gets the loop variables and says
  whether the loop goes on with new values (\<open>Inl\<close>) or is left with a result (\<open>Inr\<close>). The
  first argument bounds the number of rounds; a loop that would run longer never returns,
  which is the outcome \<open>Blocked\<close>. Each use comes with a lemma that its bound is enough.
\<close>

primrec kloop :: "nat \<Rightarrow> ('i \<Rightarrow> ('s, 'i + 'a) kern) \<Rightarrow> 'i \<Rightarrow> ('s, 'a) kern" where
  "kloop 0 body i = (\<lambda>s. Blocked s)"
| "kloop (Suc n) body i = kbind (body i) (\<lambda>r. case r of Inl j \<Rightarrow> kloop n body j | Inr a \<Rightarrow> kret a)"

lemma kret_apply [simp, kern_simps]: "kret a s = Ok a s"
  by (simp add: kret_def)

lemma kget_apply [simp, kern_simps]: "kget f s = Ok (f s) s"
  by (simp add: kget_def)

lemma kmod_apply [simp, kern_simps]: "kmod f s = Ok () (f s)"
  by (simp add: kmod_def)

lemma kpanic_apply [simp, kern_simps]: "kpanic e s = Panic e"
  by (simp add: kpanic_def)

lemma kassert_apply [simp, kern_simps]: "kassert c e s = (if c s then Ok () s else Panic e)"
  by (simp add: kassert_def)

lemma kif_apply [simp, kern_simps]: "kif c m s = (if c s then m s else Ok () s)"
  by (simp add: kif_def)

lemma kcond_apply [simp, kern_simps]: "kcond c m n s = (if c s then m s else n s)"
  by (simp add: kcond_def)

lemma kbind_apply [kern_simps]:
  "kbind m f s = (case m s of Ok a s' \<Rightarrow> f a s' | Panic e \<Rightarrow> Panic e | Blocked s' \<Rightarrow> Blocked s')"
  by (simp add: kbind_def)

lemma kbind_Ok [simp]: "m s = Ok a s' \<Longrightarrow> kbind m f s = f a s'"
  by (simp add: kbind_def)

lemma kbind_Panic [simp]: "m s = Panic e \<Longrightarrow> kbind m f s = Panic e"
  by (simp add: kbind_def)

lemma kbind_Blocked [simp]: "m s = Blocked s' \<Longrightarrow> kbind m f s = Blocked s'"
  by (simp add: kbind_def)

lemma kbind_eq_Ok_iff:
  "kbind m f s = Ok b t \<longleftrightarrow> (\<exists>a u. m s = Ok a u \<and> f a u = Ok b t)"
  by (auto simp: kbind_def split: kres.splits)

lemma kbind_assoc: "kbind (kbind m f) g = kbind m (\<lambda>a. kbind (f a) g)"
  by (rule ext) (simp add: kbind_def split: kres.splits)

lemma kbind_kret [simp]: "kbind (kret a) f = f a"
  by (rule ext) simp

lemma kseq_append: "kseq (ms @ ns) r = kseq ms (kseq ns r)"
  by (induction ms) simp_all

lemma kfor_append: "kfor (xs @ ys) b = kbind (kfor xs b) (\<lambda>_. kfor ys b)"
  by (induction xs) (simp_all add: kbind_assoc kbind_kret)

text \<open>The invariant rule for a counted loop.\<close>

lemma kfor_inv:
  assumes "kfor is b s = Ok () t" and "I s"
    and "\<And>i u v. i \<in> set is \<Longrightarrow> I u \<Longrightarrow> b i u = Ok () v \<Longrightarrow> I v"
  shows "I t"
  using assms
proof (induction "is" arbitrary: s)
  case Nil
  then show ?case by simp
next
  case (Cons i "is")
  from Cons.prems(1) obtain u where u: "b i s = Ok () u" "kfor is b u = Ok () t"
    by (auto simp: kbind_eq_Ok_iff)
  have Iu: "I u" by (rule Cons.prems(3) [OF _ Cons.prems(2) u(1)]) simp
  show ?case
  proof (rule Cons.IH [OF u(2) Iu])
    show "I v" if "j \<in> set is" "I w" "b j w = Ok () v" for j w v
      by (rule Cons.prems(3) [OF _ that(2,3)]) (simp add: that(1))
  qed
qed

text \<open>
  Frame reasoning: \<open>keeps f m\<close> says that \<open>m\<close> never changes the part \<open>f\<close> of the state,
  whatever its outcome.
\<close>

definition keeps :: "('s \<Rightarrow> 'b) \<Rightarrow> ('s, 'a) kern \<Rightarrow> bool" where
  "keeps f m \<longleftrightarrow> (\<forall>s. case m s of Ok a t \<Rightarrow> f t = f s | Panic e \<Rightarrow> True | Blocked t \<Rightarrow> f t = f s)"

lemma keepsD: "keeps f m \<Longrightarrow> m s = Ok a t \<Longrightarrow> f t = f s"
  unfolding keeps_def by (drule spec [of _ s]) simp

lemma keeps_kret [intro, simp]: "keeps f (kret a)"
  by (simp add: keeps_def)

lemma keeps_kget [intro, simp]: "keeps f (kget g)"
  by (simp add: keeps_def)

lemma keeps_kpanic [intro, simp]: "keeps f (kpanic e)"
  by (simp add: keeps_def)

lemma keeps_kassert [intro, simp]: "keeps f (kassert c e)"
  by (simp add: keeps_def)

lemma keeps_kmod [intro]: "(\<And>s. f (g s) = f s) \<Longrightarrow> keeps f (kmod g)"
  by (simp add: keeps_def)

lemma keeps_kif [intro]: "keeps f m \<Longrightarrow> keeps f (kif c m)"
  by (simp add: keeps_def)

lemma keeps_kcond [intro]: "keeps f m \<Longrightarrow> keeps f n \<Longrightarrow> keeps f (kcond c m n)"
  by (simp add: keeps_def)

lemma keeps_kbind [intro]: "keeps f m \<Longrightarrow> (\<And>a. keeps f (g a)) \<Longrightarrow> keeps f (kbind m g)"
proof -
  assume m: "keeps f m" and g: "\<And>a. keeps f (g a)"
  show ?thesis
    unfolding keeps_def
  proof
    fix s
    from m have ms: "case m s of Ok a t \<Rightarrow> f t = f s | Panic e \<Rightarrow> True | Blocked t \<Rightarrow> f t = f s"
      by (simp add: keeps_def)
    show "case kbind m g s of Ok a t \<Rightarrow> f t = f s | Panic e \<Rightarrow> True | Blocked t \<Rightarrow> f t = f s"
    proof (cases "m s")
      case (Ok a u)
      from g [of a] have "case g a u of Ok b t \<Rightarrow> f t = f u | Panic e \<Rightarrow> True | Blocked t \<Rightarrow> f t = f u"
        by (simp add: keeps_def)
      with Ok ms show ?thesis by (simp split: kres.splits)
    qed (use ms in simp_all)
  qed
qed

lemma keeps_kseq [intro]: "(\<And>m. m \<in> set ms \<Longrightarrow> keeps f m) \<Longrightarrow> keeps f r \<Longrightarrow> keeps f (kseq ms r)"
  by (induction ms) auto

lemma keeps_kfor [intro]: "(\<And>i. i \<in> set is \<Longrightarrow> keeps f (b i)) \<Longrightarrow> keeps f (kfor is b)"
  by (induction "is") auto

section \<open>Scans of the kernel's tables\<close>

text \<open>\<open>find_index P xs\<close>: the first index whose entry satisfies \<open>P\<close>, as a table scan finds it.\<close>

fun find_index :: "('a \<Rightarrow> bool) \<Rightarrow> 'a list \<Rightarrow> nat option" where
  "find_index P [] = None"
| "find_index P (x # xs) = (if P x then Some 0 else map_option Suc (find_index P xs))"

lemma find_index_None_iff: "find_index P xs = None \<longleftrightarrow> (\<forall>x \<in> set xs. \<not> P x)"
  by (induction xs) auto

lemma find_index_SomeD:
  "find_index P xs = Some i \<Longrightarrow> i < length xs \<and> P (xs ! i) \<and> (\<forall>j < i. \<not> P (xs ! j))"
proof (induction xs arbitrary: i)
  case Nil
  then show ?case by simp
next
  case (Cons x xs)
  show ?case
  proof (cases "P x")
    case True
    with Cons.prems show ?thesis by simp
  next
    case False
    with Cons.prems obtain k where k: "find_index P xs = Some k" "i = Suc k" by auto
    with Cons.IH have "k < length xs \<and> P (xs ! k) \<and> (\<forall>j < k. \<not> P (xs ! j))" by simp
    with False k(2) show ?thesis by (auto simp: nth_Cons split: nat.splits)
  qed
qed

lemma find_index_SomeI:
  "i < length xs \<Longrightarrow> P (xs ! i) \<Longrightarrow> (\<And>j. j < i \<Longrightarrow> \<not> P (xs ! j)) \<Longrightarrow> find_index P xs = Some i"
proof (induction xs arbitrary: i)
  case Nil
  then show ?case by simp
next
  case (Cons x xs)
  show ?case
  proof (cases i)
    case 0
    with Cons.prems show ?thesis by simp
  next
    case (Suc k)
    from Cons.prems(3) [of 0] Suc have "\<not> P x" by simp
    moreover have "find_index P xs = Some k"
    proof (rule Cons.IH)
      show "k < length xs" "P (xs ! k)" using Cons.prems(1,2) Suc by auto
      show "\<not> P (xs ! j)" if "j < k" for j using Cons.prems(3) [of "Suc j"] Suc that by simp
    qed
    ultimately show ?thesis using Suc by simp
  qed
qed

lemma find_index_lt [dest]: "find_index P xs = Some i \<Longrightarrow> i < length xs"
  by (auto dest: find_index_SomeD)

section \<open>Lists and words\<close>

lemma list_all_update: "list_all P xs \<Longrightarrow> P v \<Longrightarrow> list_all P (xs[i := v])"
  using set_update_subset_insert [of xs i v] by (auto simp: list_all_iff)

lemma unat_plus_lt:
  fixes a b :: uint
  assumes "unat a + unat b < 2 ^ 32"
  shows "unat (a + b) = unat a + unat b"
  using assms by (simp add: unat_word_ariths)

lemma unat_word_of_nat [simp]: "n < 2 ^ 32 \<Longrightarrow> unat (word_of_nat n :: uint) = n"
  by (simp add: unat_of_nat take_bit_nat_eq_self)

end
