(* ===== verification/Cmem.thy ===== *)
theory Cmem
  imports Prelude
begin

text \<open>
  Byte-addressed memory and the routines of \<open>string.c\<close> and \<open>ulib.c\<close> that work on it.

  Memory is a function from 32-bit addresses to bytes; pointers are 32-bit words and
  pointer arithmetic wraps. A word access is little endian (\<open>load32\<close>, \<open>store32\<close>), as
  the x86 does it. The copy and fill loops of the sources are recursive functions that
  make one memory access per iteration; the lemmas relate each to a one-step reference
  (\<open>fill\<close>, \<open>blit\<close>): the word-at-a-time \<open>memset\<close> equals the byte fill, and \<open>memmove\<close>
  copies overlapping ranges correctly in both directions.
\<close>

type_synonym mem = "uint \<Rightarrow> uchar"

section \<open>Word accesses\<close>

definition store32 :: "mem \<Rightarrow> uint \<Rightarrow> uint \<Rightarrow> mem" where
  "store32 m a v =
     m(a := ucast v, a + 1 := ucast (drop_bit 8 v),
       a + 2 := ucast (drop_bit 16 v), a + 3 := ucast (drop_bit 24 v))"

definition load32 :: "mem \<Rightarrow> uint \<Rightarrow> uint" where
  "load32 m a =
     ucast (m a) OR push_bit 8 (ucast (m (a + 1)))
       OR push_bit 16 (ucast (m (a + 2))) OR push_bit 24 (ucast (m (a + 3)))"

section \<open>The string instructions of \<open>x86.h\<close>\<close>

text \<open>\<open>rep stosb\<close> and \<open>rep stosl\<close>: store the low byte, or the word, \<open>cnt\<close> times.\<close>

fun stosb :: "mem \<Rightarrow> uint \<Rightarrow> uint \<Rightarrow> nat \<Rightarrow> mem" where
  "stosb m addr data 0 = m"
| "stosb m addr data (Suc cnt) = stosb (m(addr := ucast data)) (addr + 1) data cnt"

fun stosl :: "mem \<Rightarrow> uint \<Rightarrow> uint \<Rightarrow> nat \<Rightarrow> mem" where
  "stosl m addr data 0 = m"
| "stosl m addr data (Suc cnt) = stosl (store32 m addr data) (addr + 4) data cnt"

section \<open>\<open>string.c\<close>\<close>

definition memset :: "mem \<Rightarrow> uint \<Rightarrow> uint \<Rightarrow> uint \<Rightarrow> mem" where
  "memset m dst c n =
     (if dst mod 4 = 0 \<and> n mod 4 = 0 then
        (let c = c AND 0xFF in
         stosl m dst (push_bit 24 c OR push_bit 16 c OR push_bit 8 c OR c) (unat (n div 4)))
      else stosb m dst c (unat n))"

fun memcmp_loop :: "mem \<Rightarrow> uint \<Rightarrow> uint \<Rightarrow> nat \<Rightarrow> int" where
  "memcmp_loop m s1 s2 0 = 0"
| "memcmp_loop m s1 s2 (Suc n) =
     (if m s1 \<noteq> m s2 then uint (m s1) - uint (m s2)
      else memcmp_loop m (s1 + 1) (s2 + 1) n)"

definition memcmp :: "mem \<Rightarrow> uint \<Rightarrow> uint \<Rightarrow> uint \<Rightarrow> int" where
  "memcmp m v1 v2 n = memcmp_loop m v1 v2 (unat n)"

fun copy_down :: "mem \<Rightarrow> uint \<Rightarrow> uint \<Rightarrow> nat \<Rightarrow> mem" where
  "copy_down m d s 0 = m"
| "copy_down m d s (Suc n) = copy_down (m(d - 1 := m (s - 1))) (d - 1) (s - 1) n"

fun copy_up :: "mem \<Rightarrow> uint \<Rightarrow> uint \<Rightarrow> nat \<Rightarrow> mem" where
  "copy_up m d s 0 = m"
| "copy_up m d s (Suc n) = copy_up (m(d := m s)) (d + 1) (s + 1) n"

definition memmove :: "mem \<Rightarrow> uint \<Rightarrow> uint \<Rightarrow> uint \<Rightarrow> mem" where
  "memmove m dst src n =
     (if src < dst \<and> src + n > dst
      then copy_down m (dst + n) (src + n) (unat n)
      else copy_up m dst src (unat n))"

definition memcpy :: "mem \<Rightarrow> uint \<Rightarrow> uint \<Rightarrow> uint \<Rightarrow> mem" where
  "memcpy m dst src n = memmove m dst src n"

fun strncmp :: "mem \<Rightarrow> uint \<Rightarrow> uint \<Rightarrow> nat \<Rightarrow> int" where
  "strncmp m p q 0 = 0"
| "strncmp m p q (Suc n) =
     (if m p \<noteq> 0 \<and> m p = m q then strncmp m (p + 1) (q + 1) n
      else uint (m p) - uint (m q))"

fun strncpy_loop :: "mem \<Rightarrow> uint \<Rightarrow> uint \<Rightarrow> nat \<Rightarrow> mem" where
  "strncpy_loop m s t 0 = m"
| "strncpy_loop m s t (Suc n) =
     (if m t \<noteq> 0 then strncpy_loop (m(s := m t)) (s + 1) (t + 1) n
      else stosb (m(s := m t)) (s + 1) 0 n)"

definition strncpy :: "mem \<Rightarrow> uint \<Rightarrow> uint \<Rightarrow> int \<Rightarrow> mem" where
  "strncpy m s t n = strncpy_loop m s t (nat n)"

fun safestrcpy_loop :: "mem \<Rightarrow> uint \<Rightarrow> uint \<Rightarrow> nat \<Rightarrow> mem" where
  "safestrcpy_loop m s t 0 = m(s := 0)"
| "safestrcpy_loop m s t (Suc n) =
     (if m t \<noteq> 0 then safestrcpy_loop (m(s := m t)) (s + 1) (t + 1) n
      else m(s := m t, s + 1 := 0))"

definition safestrcpy :: "mem \<Rightarrow> uint \<Rightarrow> uint \<Rightarrow> int \<Rightarrow> mem" where
  "safestrcpy m s t n = (if n \<le> 0 then m else safestrcpy_loop m s t (nat (n - 1)))"

text \<open>\<open>strlen\<close> reads until a NUL; \<open>None\<close> is a scan that never ends.\<close>

partial_function (option) strlen_from :: "mem \<Rightarrow> uint \<Rightarrow> nat \<Rightarrow> nat option" where
  "strlen_from m s n = (if m (s + word_of_nat n) = 0 then Some n else strlen_from m s (Suc n))"

definition strlen :: "mem \<Rightarrow> uint \<Rightarrow> nat option" where
  "strlen m s = strlen_from m s 0"

section \<open>References and lemmas: filling\<close>

definition fill :: "mem \<Rightarrow> uint \<Rightarrow> uchar \<Rightarrow> nat \<Rightarrow> mem" where
  "fill m d c n = (\<lambda>a. if unat (a - d) < n then c else m a)"

definition blit :: "mem \<Rightarrow> uint \<Rightarrow> uint \<Rightarrow> nat \<Rightarrow> mem" where
  "blit m d s n = (\<lambda>a. if unat (a - d) < n then m (s + (a - d)) else m a)"

lemma unat_minus_Suc:
  fixes a d :: uint
  assumes "a \<noteq> d"
  shows "unat (a - d) = Suc (unat (a - (d + 1)))"
proof -
  have "a - d \<noteq> 0" using assms by simp
  then have "unat (a - d - 1) = unat (a - d) - 1"
    by (simp add: unat_minus_one)
  moreover have "unat (a - d) \<noteq> 0" using \<open>a - d \<noteq> 0\<close> by (simp add: unat_eq_zero)
  ultimately show ?thesis by (simp add: algebra_simps)
qed

lemma unat_minus_one_uint [simp]: "unat (- 1 :: uint) = 4294967295"
  by (simp add: unsigned_minus_1_eq_mask mask_eq_exp_minus_1)

lemma unat_minus_self_Suc [simp]: "unat (d - (d + 1) :: uint) = 2 ^ 32 - 1"
proof -
  have "d - (d + 1) = (- 1 :: uint)" by simp
  then show ?thesis by (simp add: unsigned_minus_1_eq_mask mask_eq_exp_minus_1)
qed

lemma stosb_fill: "n \<le> 2 ^ 32 \<Longrightarrow> stosb m d c n = fill m d (ucast c) n"
proof (induction n arbitrary: m d)
  case 0
  then show ?case by (simp add: fill_def)
next
  case (Suc n)
  then have IH: "stosb (m(d := ucast c)) (d + 1) c n = fill (m(d := ucast c)) (d + 1) (ucast c) n"
    by simp
  show ?case
  proof
    fix a
    show "stosb m d c (Suc n) a = fill m d (ucast c) (Suc n) a"
      by (cases "a = d") (use Suc.prems in \<open>auto simp: IH fill_def unat_minus_Suc\<close>)
  qed
qed

lemma unat_sub_of_nat:
  fixes x :: uint
  assumes "k < 2 ^ 32"
  shows "unat (x - word_of_nat k) = (if k \<le> unat x then unat x - k else unat x + 2 ^ 32 - k)"
  using assms by (simp add: unat_sub_if' word_le_nat_alt)

lemma fill_fill:
  assumes "k + n \<le> 2 ^ 32"
  shows "fill (fill m d c k) (d + word_of_nat k) c n = fill m d c (k + n)"
proof
  fix a
  have eq: "a - (d + word_of_nat k) = (a - d) - word_of_nat k" by simp
  show "fill (fill m d c k) (d + word_of_nat k) c n a = fill m d c (k + n) a"
  proof (cases "k = 2 ^ 32")
    case True
    with assms show ?thesis by (simp add: fill_def)
  next
    case False
    with assms have "k < 2 ^ 32" by simp
    then show ?thesis
      using assms unsigned_less [of "a - d", where 'a = nat] by (auto simp: fill_def eq unat_sub_of_nat)
  qed
qed

text \<open>The word \<open>memset\<close> builds out of its byte argument.\<close>

definition rep4 :: "uint \<Rightarrow> uint" where
  "rep4 c = push_bit 24 (c AND 0xFF) OR push_bit 16 (c AND 0xFF) OR push_bit 8 (c AND 0xFF) OR (c AND 0xFF)"

lemma rep4_bytes:
  "ucast (rep4 c) = (ucast c :: uchar)" "ucast (drop_bit 8 (rep4 c)) = (ucast c :: uchar)"
  "ucast (drop_bit 16 (rep4 c)) = (ucast c :: uchar)" "ucast (drop_bit 24 (rep4 c)) = (ucast c :: uchar)"
proof -
  have ff: "(0xFF :: uint) = mask 8" by (simp add: mask_eq_exp_minus_1)
  show "ucast (rep4 c) = (ucast c :: uchar)" "ucast (drop_bit 8 (rep4 c)) = (ucast c :: uchar)"
    "ucast (drop_bit 16 (rep4 c)) = (ucast c :: uchar)" "ucast (drop_bit 24 (rep4 c)) = (ucast c :: uchar)"
    unfolding rep4_def ff by (rule bit_word_eqI, auto simp: bit_simps)+
qed

lemma store32_rep4: "store32 m a (rep4 c) = fill m a (ucast c) 4"
proof
  fix b
  have "unat (b - a) < 4 \<longleftrightarrow> b - a = 0 \<or> b - a = 1 \<or> b - a = 2 \<or> b - a = 3"
    by unat_arith
  also have "\<dots> \<longleftrightarrow> b = a \<or> b = a + 1 \<or> b = a + 2 \<or> b = a + 3"
    by (auto simp: algebra_simps)
  finally show "store32 m a (rep4 c) b = fill m a (ucast c) 4 b"
    by (auto simp: store32_def fill_def rep4_bytes)
qed

lemma stosl_fill: "4 * n \<le> 2 ^ 32 \<Longrightarrow> stosl m d (rep4 c) n = fill m d (ucast c) (4 * n)"
proof (induction n arbitrary: m d)
  case 0
  then show ?case by (simp add: fill_def)
next
  case (Suc n)
  then have "stosl m d (rep4 c) (Suc n) = fill (fill m d (ucast c) 4) (d + word_of_nat 4) (ucast c) (4 * n)"
    by (simp add: store32_rep4)
  also have "\<dots> = fill m d (ucast c) (4 + 4 * n)"
    using Suc.prems by (intro fill_fill) simp
  finally show ?case by simp
qed

lemma memset_fill: "memset m d c n = fill m d (ucast c) (unat n)"
proof (cases "d mod 4 = 0 \<and> n mod 4 = 0")
  case True
  then have "unat (n mod 4) = 0" by simp
  then have "unat n mod 4 = 0" by (simp add: unat_mod)
  then have "4 * unat (n div 4) = unat n"
    using mult_div_mod_eq [of 4 "unat n"] by (simp add: unat_div)
  moreover have "unat n \<le> 2 ^ 32" using unsigned_less [of n, where 'a = nat] by simp
  ultimately show ?thesis
    using True stosl_fill [of "unat (n div 4)" m d c] by (simp add: memset_def Let_def rep4_def)
next
  case False
  have "unat n \<le> 2 ^ 32" using unsigned_less [of n, where 'a = nat] by simp
  with False show ?thesis by (auto simp: memset_def stosb_fill)
qed

section \<open>References and lemmas: copying\<close>

lemma copy_up_blit:
  "n \<le> 2 ^ 32 \<Longrightarrow> (\<And>i j. j < i \<Longrightarrow> i < n \<Longrightarrow> s + word_of_nat i \<noteq> d + word_of_nat j)
    \<Longrightarrow> copy_up m d s n = blit m d s n"
proof (induction n arbitrary: m d s)
  case 0
  then show ?case by (simp add: blit_def)
next
  case (Suc n)
  have IH: "copy_up (m(d := m s)) (d + 1) (s + 1) n = blit (m(d := m s)) (d + 1) (s + 1) n"
  proof (rule Suc.IH)
    show "n \<le> 2 ^ 32" using Suc.prems by simp
    show "s + 1 + word_of_nat i \<noteq> d + 1 + word_of_nat j" if "j < i" "i < n" for i j
      using Suc.prems(2) [of "Suc j" "Suc i"] that by (simp add: algebra_simps)
  qed
  show ?case
  proof
    fix a
    show "copy_up m d s (Suc n) a = blit m d s (Suc n) a"
    proof (cases "a = d")
      case True
      with Suc.prems(1) show ?thesis by (simp add: IH blit_def)
    next
      case False
      then have u: "unat (a - d) = Suc (unat (a - (d + 1)))" by (rule unat_minus_Suc)
      have "s + (a - d) \<noteq> d" if "unat (a - d) < Suc n"
        using Suc.prems(2) [of 0 "unat (a - d)"] that u by simp
      moreover have "s + 1 + (a - (d + 1)) = s + (a - d)" by simp
      ultimately show ?thesis using False u by (simp add: IH blit_def)
    qed
  qed
qed

lemma copy_down_blit:
  "n \<le> 2 ^ 32 \<Longrightarrow> (\<And>i j. i < j \<Longrightarrow> j < n \<Longrightarrow> s + word_of_nat i \<noteq> d + word_of_nat j)
    \<Longrightarrow> copy_down m (d + word_of_nat n) (s + word_of_nat n) n = blit m d s n"
proof (induction n arbitrary: m)
  case 0
  then show ?case by (simp add: blit_def)
next
  case (Suc n)
  let ?m = "m(d + word_of_nat n := m (s + word_of_nat n))"
  have n: "n < 2 ^ 32" using Suc.prems by simp
  have IH: "copy_down ?m (d + word_of_nat n) (s + word_of_nat n) n = blit ?m d s n"
    using Suc.prems by (intro Suc.IH) auto
  have p1: "d + word_of_nat (Suc n) - 1 = d + word_of_nat n" for d :: uint by simp
  show ?case
  proof
    fix a
    have "copy_down m (d + word_of_nat (Suc n)) (s + word_of_nat (Suc n)) (Suc n) a = blit ?m d s n a"
      by (simp only: copy_down.simps p1 IH)
    also have "\<dots> = blit m d s (Suc n) a"
    proof (cases "unat (a - d) < n")
      case True
      then have "s + (a - d) \<noteq> d + word_of_nat n"
        using Suc.prems(2) [of "unat (a - d)" n] by simp
      with True show ?thesis by (simp add: blit_def)
    next
      case False
      have "unat (a - d) = n \<longleftrightarrow> a - d = word_of_nat n"
        using n by (metis unat_word_of_nat word_nat_cases of_nat_unat ucast_id)
      then have "unat (a - d) = n \<longleftrightarrow> a = d + word_of_nat n"
        by (metis add.commute diff_add_cancel add_diff_cancel_left')
      with False n show ?thesis by (auto simp: blit_def less_Suc_eq)
    qed
    finally show "copy_down m (d + word_of_nat (Suc n)) (s + word_of_nat (Suc n)) (Suc n) a
        = blit m d s (Suc n) a" .
  qed
qed

text \<open>
  Neither range wraps around the top of the address space: then each branch of
  \<open>memmove\<close> picks the direction in which no source byte is overwritten before it is read.
\<close>

lemma memmove_blit:
  assumes s: "unat src + unat n < 2 ^ 32" and d: "unat dst + unat n \<le> 2 ^ 32"
  shows "memmove m dst src n = blit m dst src (unat n)"
proof -
  have n: "unat n \<le> 2 ^ 32" using s by simp
  have us: "unat (src + word_of_nat i) = unat src + i" if "i < unat n" for i
    using s that by (subst unat_plus_lt) auto
  have ud: "unat (dst + word_of_nat i) = unat dst + i" if "i < unat n" for i
    using d that by (subst unat_plus_lt) auto
  have usn: "unat (src + n) = unat src + unat n" using s by (simp add: unat_plus_lt)
  show ?thesis
  proof (cases "src < dst \<and> src + n > dst")
    case True
    then have lt: "unat src < unat dst" by (simp add: word_less_nat_alt)
    have "copy_down m (dst + word_of_nat (unat n)) (src + word_of_nat (unat n)) (unat n)
        = blit m dst src (unat n)"
    proof (rule copy_down_blit [OF n])
      fix i j assume ij: "i < j" "j < unat n"
      then have "unat (src + word_of_nat i) < unat (dst + word_of_nat j)"
        using us [of i] ud [of j] lt by simp
      then show "src + word_of_nat i \<noteq> dst + word_of_nat j" by auto
    qed
    with True show ?thesis by (simp add: memmove_def)
  next
    case False
    have "copy_up m dst src (unat n) = blit m dst src (unat n)"
    proof (rule copy_up_blit [OF n])
      fix i j assume ij: "j < i" "i < unat n"
      from False have "unat dst \<le> unat src \<or> unat src + unat n \<le> unat dst"
        by (auto simp: word_less_nat_alt usn)
      then have "unat src + i \<noteq> unat dst + j" using ij by auto
      then have "unat (src + word_of_nat i) \<noteq> unat (dst + word_of_nat j)"
        using us [of i] ud [of j] ij by simp
      then show "src + word_of_nat i \<noteq> dst + word_of_nat j" by auto
    qed
    with False show ?thesis by (auto simp: memmove_def)
  qed
qed

section \<open>Word loads and stores\<close>

lemma load32_bytes:
  assumes "m a = ucast v" "m (a + 1) = ucast (drop_bit 8 v)"
    "m (a + 2) = ucast (drop_bit 16 v)" "m (a + 3) = ucast (drop_bit 24 v)"
  shows "load32 m a = v"
  unfolding load32_def assms
proof (rule bit_word_eqI)
  fix n assume "n < LENGTH(32)"
  then have n: "n < 32" by simp
  have "24 \<le> n \<Longrightarrow> 24 + (n - 24) = n" "16 \<le> n \<Longrightarrow> 16 + (n - 16) = n" by simp_all
  then show "bit (ucast (ucast v :: uchar) OR push_bit 8 (ucast (ucast (drop_bit 8 v) :: uchar))
      OR push_bit 16 (ucast (ucast (drop_bit 16 v) :: uchar))
      OR push_bit 24 (ucast (ucast (drop_bit 24 v) :: uchar)) :: uint) n = bit v n"
    using n by (cases "n < 16"; cases "n < 24") (auto simp: bit_simps)
qed

lemma word_offsets_distinct [simp]:
  "(a + 1 :: uint) \<noteq> a" "a + 2 \<noteq> a" "a + 3 \<noteq> a" "a \<noteq> a + 1" "a \<noteq> a + 2" "a \<noteq> a + 3"
  by simp_all

lemma load32_store32 [simp]: "load32 (store32 m a v) a = v"
  by (rule load32_bytes) (simp_all add: store32_def)

definition aligned4 :: "uint \<Rightarrow> bool" where
  "aligned4 a \<longleftrightarrow> unat a mod 4 = 0"

lemma aligned4_offset_inj:
  assumes "aligned4 a" "aligned4 b" "i < 4" "j < 4" "a + word_of_nat i = b + word_of_nat j"
  shows "a = b"
proof -
  have top: "unat c + 4 \<le> 2 ^ 32" if "aligned4 c" for c :: uint
  proof -
    have "unat c < 4294967296" using unsigned_less [of c, where 'a = nat] by simp
    moreover have "unat c mod 4 = 0" using that by (simp add: aligned4_def)
    ultimately have "unat c + 4 \<le> 4294967296" by presburger
    then show ?thesis by simp
  qed
  have "unat (a + word_of_nat i) = unat a + i" "unat (b + word_of_nat j) = unat b + j"
    using top [OF assms(1)] top [OF assms(2)] assms(3,4) by (subst unat_plus_lt; simp)+
  with assms have "unat a + i = unat b + j" by simp
  moreover have "unat a mod 4 = 0" "unat b mod 4 = 0" using assms by (simp_all add: aligned4_def)
  ultimately have "unat a = unat b" using assms(3,4) by presburger
  then show ?thesis by (simp add: word_unat_eq_iff)
qed

lemma load32_store32_other [simp]:
  assumes "aligned4 a" "aligned4 b" "a \<noteq> b"
  shows "load32 (store32 m a v) b = load32 m b"
proof -
  have ne: "b + word_of_nat j \<noteq> a + word_of_nat i" if "i < 4" "j < 4" for i j
    using aligned4_offset_inj [OF assms(2,1) that(2,1)] assms(3) by auto
  have "store32 m a v (b + word_of_nat j) = m (b + word_of_nat j)" if "j < 4" for j
    using ne [of 0 j] ne [of 1 j] ne [of 2 j] ne [of 3 j] that by (simp add: store32_def)
  from this [of 0] this [of 1] this [of 2] this [of 3] show ?thesis
    by (simp add: load32_def)
qed

section \<open>C strings\<close>

text \<open>\<open>cstr m p xs\<close>: the NUL-terminated string at \<open>p\<close> has the bytes \<open>xs\<close>.\<close>

primrec cstr :: "mem \<Rightarrow> uint \<Rightarrow> uchar list \<Rightarrow> bool" where
  "cstr m p [] \<longleftrightarrow> m p = 0"
| "cstr m p (x # xs) \<longleftrightarrow> m p = x \<and> x \<noteq> 0 \<and> cstr m (p + 1) xs"

text \<open>\<open>name_at m p n\<close>: the bytes at \<open>p\<close> up to a NUL, at most \<open>n\<close> of them (a fixed-width name).\<close>

primrec name_at :: "mem \<Rightarrow> uint \<Rightarrow> nat \<Rightarrow> uchar list" where
  "name_at m p 0 = []"
| "name_at m p (Suc n) = (if m p = 0 then [] else m p # name_at m (p + 1) n)"

lemma strlen_from_cstr: "cstr m (s + word_of_nat n) xs \<Longrightarrow> strlen_from m s n = Some (n + length xs)"
proof (induction xs arbitrary: n)
  case Nil
  then show ?case by (simp add: strlen_from.simps)
next
  case (Cons x xs)
  then have "cstr m (s + word_of_nat (Suc n)) xs" by (simp add: algebra_simps)
  then have "strlen_from m s (Suc n) = Some (Suc n + length xs)" by (rule Cons.IH)
  with Cons.prems show ?case by (subst strlen_from.simps) simp
qed

lemma strlen_cstr: "cstr m s xs \<Longrightarrow> strlen m s = Some (length xs)"
  using strlen_from_cstr [of m s 0 xs] by (simp add: strlen_def)

text \<open>\<open>outside s n a\<close>: the address \<open>a\<close> is not one of the \<open>n\<close> bytes from \<open>s\<close> on.\<close>

definition outside :: "uint \<Rightarrow> nat \<Rightarrow> uint \<Rightarrow> bool" where
  "outside s n a \<longleftrightarrow> n \<le> unat (a - s)"

lemma outside_neq: "0 < n \<Longrightarrow> outside s n a \<Longrightarrow> a \<noteq> s"
  by (auto simp: outside_def)

lemma outside_Suc: "outside s (Suc n) a \<Longrightarrow> outside (s + 1) n a"
  by (cases "a = s") (auto simp: outside_def unat_minus_Suc)

lemma outside_self: "n < 2 ^ 32 \<Longrightarrow> outside (s + 1) n s"
  by (simp add: outside_def)

lemma outside_shift: "outside s (Suc n) a \<Longrightarrow> outside (s + 1) n (a + 1)"
proof -
  have "a + 1 - (s + 1) = a - s" by simp
  then show "outside s (Suc n) a \<Longrightarrow> outside (s + 1) n (a + 1)" by (simp add: outside_def)
qed

lemma cstr_upd:
  "cstr m t xs \<Longrightarrow> (\<And>i. i \<le> length xs \<Longrightarrow> t + word_of_nat i \<noteq> s) \<Longrightarrow> cstr (m(s := v)) t xs"
proof (induction xs arbitrary: t)
  case Nil
  from Nil.prems(2) [of 0] Nil.prems(1) show ?case by simp
next
  case (Cons x xs)
  have "cstr (m(s := v)) (t + 1) xs"
  proof (rule Cons.IH)
    show "cstr m (t + 1) xs" using Cons.prems by simp
    show "t + 1 + word_of_nat i \<noteq> s" if "i \<le> length xs" for i
      using Cons.prems(2) [of "Suc i"] that by (simp add: algebra_simps)
  qed
  moreover have "(m(s := v)) t = x" "x \<noteq> 0" using Cons.prems(1) Cons.prems(2) [of 0] by auto
  ultimately show ?case unfolding cstr.simps by blast
qed

lemma safestrcpy_loop_spec:
  assumes "cstr m t xs" "Suc k < 2 ^ 32" "\<And>i. i \<le> length xs \<Longrightarrow> outside s (Suc k) (t + word_of_nat i)"
  shows "cstr (safestrcpy_loop m s t k) s (take k xs)
    \<and> (\<forall>a. outside s (Suc k) a \<longrightarrow> safestrcpy_loop m s t k a = m a)"
  using assms
proof (induction k arbitrary: m s t xs)
  case 0
  then show ?case by (auto simp: outside_def)
next
  case (Suc k)
  show ?case
  proof (cases xs)
    case Nil
    have "a \<noteq> s \<and> a \<noteq> s + 1" if "outside s (Suc (Suc k)) a" for a
      using that by (auto simp: outside_def)
    with Suc.prems Nil show ?thesis by (auto simp: outside_def)
  next
    case (Cons x ys)
    let ?m = "m(s := x)"
    have x: "m t = x" "x \<noteq> 0" using Suc.prems(1) Cons by auto
    have IH: "cstr (safestrcpy_loop ?m (s + 1) (t + 1) k) (s + 1) (take k ys)
      \<and> (\<forall>a. outside (s + 1) (Suc k) a \<longrightarrow> safestrcpy_loop ?m (s + 1) (t + 1) k a = ?m a)"
    proof (rule Suc.IH)
      show "cstr ?m (t + 1) ys"
      proof (rule cstr_upd)
        show "cstr m (t + 1) ys" using Suc.prems(1) Cons by simp
        show "t + 1 + word_of_nat i \<noteq> s" if "i \<le> length ys" for i
          using outside_neq [OF _ Suc.prems(3) [of "Suc i"]] that Cons by (simp add: algebra_simps)
      qed
      show "Suc k < 2 ^ 32" using Suc.prems(2) by simp
      show "outside (s + 1) (Suc k) (t + 1 + word_of_nat i)" if "i \<le> length ys" for i
        using outside_Suc [OF Suc.prems(3) [of "Suc i"]] that Cons by (simp add: algebra_simps)
    qed
    have self: "outside (s + 1) (Suc k) s" using Suc.prems(2) by (intro outside_self) simp
    have "safestrcpy_loop ?m (s + 1) (t + 1) k a = m a" if "outside s (Suc (Suc k)) a" for a
      using IH outside_Suc [OF that] outside_neq [OF _ that] by auto
    with IH self x Cons show ?thesis by auto
  qed
qed

lemma safestrcpy_spec:
  assumes "cstr m t xs" "0 < n" "n < 2 ^ 32"
    and "\<And>i. i \<le> length xs \<Longrightarrow> outside s (nat n) (t + word_of_nat i)"
  shows "cstr (safestrcpy m s t n) s (take (nat n - 1) xs)
    \<and> (\<forall>a. outside s (nat n) a \<longrightarrow> safestrcpy m s t n a = m a)"
proof -
  have "Suc (nat (n - 1)) = nat n" "nat (n - 1) = nat n - 1" using assms(2) by auto
  moreover have "nat n < 2 ^ 32" using assms(2,3) by simp
  ultimately show ?thesis
    using safestrcpy_loop_spec [of m t xs "nat (n - 1)" s] assms by (simp add: safestrcpy_def)
qed

text \<open>Names of fixed width: comparison and copy agree.\<close>

lemma strncmp_eq_0_iff: "strncmp m p q n = 0 \<longleftrightarrow> name_at m p n = name_at m q n"
proof (induction n arbitrary: p q)
  case 0
  then show ?case by simp
next
  case (Suc n)
  then show ?case by (auto simp: word_uint_eq_iff)
qed

lemma name_at_upd:
  "(\<And>i. i < n \<Longrightarrow> i \<le> length (name_at m p n) \<Longrightarrow> p + word_of_nat i \<noteq> s)
    \<Longrightarrow> name_at (m(s := v)) p n = name_at m p n"
proof (induction n arbitrary: p)
  case 0
  then show ?case by simp
next
  case (Suc n)
  from Suc.prems [of 0] have ps: "p \<noteq> s" by simp
  show ?case
  proof (cases "m p = 0")
    case True
    with ps show ?thesis by simp
  next
    case False
    have "name_at (m(s := v)) (p + 1) n = name_at m (p + 1) n"
    proof (rule Suc.IH)
      show "p + 1 + word_of_nat i \<noteq> s" if "i < n" "i \<le> length (name_at m (p + 1) n)" for i
        using Suc.prems [of "Suc i"] that False by (simp add: algebra_simps)
    qed
    with False ps show ?thesis by (simp del: fun_upd_apply) simp
  qed
qed

lemma name_at_cong:
  "(\<And>i. i < n \<Longrightarrow> i \<le> length (name_at m p n) \<Longrightarrow> m' (p + word_of_nat i) = m (p + word_of_nat i))
    \<Longrightarrow> name_at m' p n = name_at m p n"
proof (induction n arbitrary: p)
  case 0
  then show ?case by simp
next
  case (Suc n)
  have h: "m' p = m p" using Suc.prems [of 0] by simp
  show ?case
  proof (cases "m p = 0")
    case False
    have "name_at m' (p + 1) n = name_at m (p + 1) n"
      using False Suc.prems [of "Suc i" for i] by (intro Suc.IH) (simp add: algebra_simps)
    with h show ?thesis by simp
  qed (simp add: h)
qed

lemma strncpy_loop_spec:
  assumes "n < 2 ^ 32" "\<And>i. i < n \<Longrightarrow> i \<le> length (name_at m t n) \<Longrightarrow> outside s n (t + word_of_nat i)"
  shows "name_at (strncpy_loop m s t n) s n = name_at m t n
    \<and> (\<forall>a. outside s n a \<longrightarrow> strncpy_loop m s t n a = m a)"
  using assms
proof (induction n arbitrary: m s t)
  case 0
  then show ?case by simp
next
  case (Suc n)
  show ?case
  proof (cases "m t = 0")
    case True
    have "stosb (m(s := 0)) (s + 1) 0 n = fill (m(s := 0)) (s + 1) 0 n"
      using Suc.prems(1) by (simp add: stosb_fill)
    moreover have "\<not> unat (s - (s + 1)) < n" using Suc.prems(1) by simp
    moreover have "\<not> unat (a - (s + 1)) < n \<and> a \<noteq> s" if "outside s (Suc n) a" for a
      using outside_Suc [OF that] outside_neq [OF _ that] by (auto simp: outside_def)
    ultimately show ?thesis using True by (auto simp: fill_def)
  next
    case False
    let ?m = "m(s := m t)"
    have out: "outside s (Suc n) (t + 1 + word_of_nat i)" if "i < n" "i \<le> length (name_at m (t + 1) n)" for i
      using Suc.prems(2) [of "Suc i"] that False by (simp add: algebra_simps)
    have nm: "name_at ?m (t + 1) n = name_at m (t + 1) n"
    proof (rule name_at_upd)
      show "t + 1 + word_of_nat i \<noteq> s" if "i < n" "i \<le> length (name_at m (t + 1) n)" for i
        using outside_neq [OF _ out [OF that]] by simp
    qed
    have IH: "name_at (strncpy_loop ?m (s + 1) (t + 1) n) (s + 1) n = name_at ?m (t + 1) n
      \<and> (\<forall>a. outside (s + 1) n a \<longrightarrow> strncpy_loop ?m (s + 1) (t + 1) n a = ?m a)"
    proof (rule Suc.IH)
      show "n < 2 ^ 32" using Suc.prems(1) by simp
      show "outside (s + 1) n (t + 1 + word_of_nat i)" if "i < n" "i \<le> length (name_at ?m (t + 1) n)" for i
        using that unfolding nm by (rule outside_Suc [OF out])
    qed
    have self: "strncpy_loop ?m (s + 1) (t + 1) n s = m t"
      using IH outside_self [of n s] Suc.prems(1) by simp
    have "strncpy_loop ?m (s + 1) (t + 1) n a = m a" if "outside s (Suc n) a" for a
      using IH outside_Suc [OF that] outside_neq [OF _ that] by auto
    with IH self nm False show ?thesis by simp
  qed
qed

lemma strncpy_spec:
  assumes "n < 2 ^ 32" "\<And>i. i < nat n \<Longrightarrow> i \<le> length (name_at m t (nat n)) \<Longrightarrow> outside s (nat n) (t + word_of_nat i)"
  shows "name_at (strncpy m s t n) s (nat n) = name_at m t (nat n)"
    "outside s (nat n) a \<Longrightarrow> strncpy m s t n a = m a"
proof -
  have "nat n < 2 ^ 32" using assms(1) by simp
  from strncpy_loop_spec [OF this assms(2)]
  show "name_at (strncpy m s t n) s (nat n) = name_at m t (nat n)"
    "outside s (nat n) a \<Longrightarrow> strncpy m s t n a = m a"
    by (auto simp: strncpy_def)
qed

section \<open>Properties\<close>

text \<open>
  C13: \<open>memmove\<close> is correct on overlapping buffers. As long as neither buffer wraps around the
  address space, every byte of the destination gets the value the corresponding byte of the
  source had before the call, and no other byte changes, whichever direction it copies in.
\<close>

theorem memmove_overlapping:
  assumes "unat src + unat n < 2 ^ 32" "unat dst + unat n \<le> 2 ^ 32"
  shows "memmove m dst src n a = (if unat (a - dst) < unat n then m (src + (a - dst)) else m a)"
  using memmove_blit [OF assms] by (simp add: blit_def)

theorem memmove_overlapping_witness:
  "memmove (\<lambda>x. ucast x) 0x1002 0x1000 4 0x1005 = 3 \<and> memmove (\<lambda>x. ucast x) 0x1002 0x1000 4 0x1006 = 6"
  using memmove_overlapping [of "0x1000" 4 "0x1002" "\<lambda>x. ucast x" "0x1005"]
    memmove_overlapping [of "0x1000" 4 "0x1002" "\<lambda>x. ucast x" "0x1006"]
  by simp

text \<open>
  C25: \<open>safestrcpy\<close> always leaves a terminated string. For a source string \<open>xs\<close> and a buffer of
  \<open>n > 0\<close> bytes that does not overlap it, the buffer holds the first \<open>n - 1\<close> characters of \<open>xs\<close>,
  \<open>strlen\<close> of it returns, and no byte outside the buffer changes.
\<close>

theorem safestrcpy_terminated:
  assumes "cstr m t xs" "0 < n" "n < 2 ^ 32"
    and "\<And>i. i \<le> length xs \<Longrightarrow> outside s (nat n) (t + word_of_nat i)"
  shows "cstr (safestrcpy m s t n) s (take (nat n - 1) xs)
    \<and> strlen (safestrcpy m s t n) s = Some (min (length xs) (nat n - 1))
    \<and> (\<forall>a. outside s (nat n) a \<longrightarrow> safestrcpy m s t n a = m a)"
  using safestrcpy_spec [OF assms] strlen_cstr [of "safestrcpy m s t n" s "take (nat n - 1) xs"]
  by (auto simp: min.commute)

definition hello_mem :: mem where
  "hello_mem = (\<lambda>_. 0)(0x100 := 104, 0x101 := 105, 0x102 := 33)"

theorem safestrcpy_terminated_witness:
  "cstr (safestrcpy hello_mem 0x200 0x100 3) 0x200 [104, 105]
    \<and> strlen (safestrcpy hello_mem 0x200 0x100 3) 0x200 = Some 2"
proof -
  have src: "cstr hello_mem 0x100 [104, 105, 33]" by (simp add: hello_mem_def)
  have far: "outside 0x200 (nat 3) (0x100 + word_of_nat i :: uint)" if "i \<le> length [104, 105, 33 :: uchar]" for i
  proof -
    have "i = 0 \<or> i = 1 \<or> i = 2 \<or> i = 3" using that by auto
    then show ?thesis by (auto simp: outside_def)
  qed
  from safestrcpy_terminated [OF src _ _ far] show ?thesis by (simp add: numeral_eq_Suc)
qed

text \<open>
  C26: directory names survive a copy. After \<open>strncpy(s, t, n)\<close> into a field that does not overlap
  the name, \<open>strncmp(s, t, n)\<close> is 0, also for names that fill the field without a NUL.
\<close>

theorem strncpy_strncmp:
  assumes "n < 2 ^ 32" "\<And>i. i < nat n \<Longrightarrow> i \<le> length (name_at m t (nat n)) \<Longrightarrow> outside s (nat n) (t + word_of_nat i)"
  shows "strncmp (strncpy m s t n) s t (nat n) = 0"
proof -
  have "name_at (strncpy m s t n) t (nat n) = name_at m t (nat n)"
  proof (rule name_at_cong)
    fix i assume "i < nat n" "i \<le> length (name_at m t (nat n))"
    then show "strncpy m s t n (t + word_of_nat i) = m (t + word_of_nat i)"
      using strncpy_spec(2) [OF assms] assms(2) by blast
  qed
  then show ?thesis
    using strncpy_spec(1) [OF assms] by (simp add: strncmp_eq_0_iff)
qed

theorem strncpy_strncmp_witness: "strncmp (strncpy hello_mem 0x200 0x100 14) 0x200 0x100 14 = 0"
proof -
  have "outside 0x200 (nat 14) (0x100 + word_of_nat i :: uint)" if "i < nat 14" for i
  proof -
    have "unat (0x100 + word_of_nat i :: uint) = 0x100 + i" using that by (subst unat_plus_lt) simp_all
    then show ?thesis using that by (simp add: outside_def unat_sub_if' word_le_nat_alt)
  qed
  then show ?thesis using strncpy_strncmp [of 14 hello_mem "0x100" "0x200"] by simp
qed

end
