(* ===== verification/Spinlock.thy ===== *)
theory Spinlock
  imports Cmem
begin

text \<open>
  The processors and the spin locks: \<open>struct cpu\<close> (\<open>proc.h\<close>), \<open>struct spinlock\<close>
  (\<open>spinlock.h\<close>) and the routines of \<open>spinlock.c\<close>.

  The state \<open>machine\<close> is the bottom layer of the kernel state; the other components
  extend it. It holds the CPUs, which CPU runs the code, the memory and one record per
  spin lock. A lock is named by the object it is embedded in (\<open>lockid\<close>), the way the
  code names it by its address. The routines run on the current CPU; a spin that finds
  the lock taken is \<open>Blocked\<close>, because only another CPU can end it.
\<close>

datatype lockid =
    KmemLock | PtableLock | FtableLock | IcacheLock | BcacheLock | LogLock | IdeLock
  | ConsLock | TicksLock | PipeLock uint | BufLock nat | InodeLock nat

text \<open>Flag and address constants of \<open>mmu.h\<close> and \<open>memlayout.h\<close>.\<close>

definition FL_IF :: uint where "FL_IF = 0x200"

definition KERNBASE :: uint where "KERNBASE = 0x80000000"

record spinlock =
  locked :: uint
  lname :: string
  lcpu :: "nat option"
  lpcs :: "uint list"

record cpu =
  apicid :: uchar
  started :: uint
  ncli :: int
  intena :: uint
  cproc :: "nat option"
  eflags :: uint

record machine =
  curcpu :: nat
  cpus :: "nat \<Rightarrow> cpu"
  locks :: "lockid \<Rightarrow> spinlock"
  mem :: mem
  argp :: uint

abbreviation mycpu :: "'z machine_scheme \<Rightarrow> cpu" where
  "mycpu s \<equiv> cpus s (curcpu s)"

definition upd_mycpu :: "(cpu \<Rightarrow> cpu) \<Rightarrow> 'z machine_scheme \<Rightarrow> 'z machine_scheme" where
  "upd_mycpu f s = s\<lparr>cpus := (cpus s)(curcpu s := f (mycpu s))\<rparr>"

definition upd_lock :: "lockid \<Rightarrow> (spinlock \<Rightarrow> spinlock) \<Rightarrow> 'z machine_scheme \<Rightarrow> 'z machine_scheme" where
  "upd_lock lk f s = s\<lparr>locks := (locks s)(lk := f (locks s lk))\<rparr>"

section \<open>Instructions of \<open>x86.h\<close>\<close>

definition readeflags :: "'z machine_scheme \<Rightarrow> uint" where
  "readeflags s = eflags (mycpu s)"

definition cli :: "('z machine_scheme, unit) kern" where
  "cli = kmod (upd_mycpu (\<lambda>c. c\<lparr>eflags := eflags c AND NOT FL_IF\<rparr>))"

definition sti :: "('z machine_scheme, unit) kern" where
  "sti = kmod (upd_mycpu (\<lambda>c. c\<lparr>eflags := eflags c OR FL_IF\<rparr>))"

text \<open>\<open>xchg\<close> on a lock word: the old value is returned, the new one stored.\<close>

definition xchg_locked :: "lockid \<Rightarrow> uint \<Rightarrow> ('z machine_scheme, uint) kern" where
  "xchg_locked lk newval =
     (\<lambda>s. Ok (locked (locks s lk)) (upd_lock lk (\<lambda>l. l\<lparr>locked := newval\<rparr>) s))"

section \<open>\<open>spinlock.c\<close>\<close>

definition initlock :: "lockid \<Rightarrow> string \<Rightarrow> ('z machine_scheme, unit) kern" where
  "initlock lk name = kmod (upd_lock lk (\<lambda>l. l\<lparr>lname := name, locked := 0, lcpu := None\<rparr>))"

definition holding :: "lockid \<Rightarrow> 'z machine_scheme \<Rightarrow> bool" where
  "holding lk s \<longleftrightarrow> locked (locks s lk) \<noteq> 0 \<and> lcpu (locks s lk) = Some (curcpu s)"

fun callerpcs_loop :: "mem \<Rightarrow> uint \<Rightarrow> nat \<Rightarrow> uint list" where
  "callerpcs_loop m ebp 0 = []"
| "callerpcs_loop m ebp (Suc i) =
     (if ebp = 0 \<or> ebp < KERNBASE \<or> ebp = 0xffffffff then replicate (Suc i) 0
      else load32 m (ebp + 4) # callerpcs_loop m (load32 m ebp) i)"

definition getcallerpcs :: "mem \<Rightarrow> uint \<Rightarrow> uint list" where
  "getcallerpcs m v = callerpcs_loop m (v - 8) 10"

definition pushcli :: "('z machine_scheme, unit) kern" where
  "pushcli =
     kbind (kget readeflags) (\<lambda>ef. kseq
       [cli,
        kif (\<lambda>s. ncli (mycpu s) = 0) (kmod (upd_mycpu (\<lambda>c. c\<lparr>intena := ef AND FL_IF\<rparr>))),
        kmod (upd_mycpu (\<lambda>c. c\<lparr>ncli := ncli c + 1\<rparr>))]
       (kret ()))"

definition popcli :: "('z machine_scheme, unit) kern" where
  "popcli = kseq
     [kassert (\<lambda>s. readeflags s AND FL_IF = 0) ''popcli - interruptible'',
      kmod (upd_mycpu (\<lambda>c. c\<lparr>ncli := ncli c - 1\<rparr>)),
      kassert (\<lambda>s. \<not> ncli (mycpu s) < 0) ''popcli'',
      kif (\<lambda>s. ncli (mycpu s) = 0 \<and> intena (mycpu s) \<noteq> 0) sti]
     (kret ())"

definition acquire :: "lockid \<Rightarrow> ('z machine_scheme, unit) kern" where
  "acquire lk = kseq
     [pushcli,
      kassert (\<lambda>s. \<not> holding lk s) ''acquire'',
      kbind (xchg_locked lk 1) (\<lambda>old s. if old \<noteq> 0 then Blocked s else Ok () s),
      kmod (\<lambda>s. upd_lock lk (\<lambda>l. l\<lparr>lcpu := Some (curcpu s)\<rparr>) s),
      kmod (\<lambda>s. upd_lock lk (\<lambda>l. l\<lparr>lpcs := getcallerpcs (mem s) (argp s)\<rparr>) s)]
     (kret ())"

definition release :: "lockid \<Rightarrow> ('z machine_scheme, unit) kern" where
  "release lk = kseq
     [kassert (holding lk) ''release'',
      kmod (upd_lock lk (\<lambda>l. l\<lparr>lpcs := (lpcs l)[0 := 0]\<rparr>)),
      kmod (upd_lock lk (\<lambda>l. l\<lparr>lcpu := None\<rparr>)),
      kmod (upd_lock lk (\<lambda>l. l\<lparr>locked := 0\<rparr>)),
      popcli]
     (kret ())"

section \<open>Interrupt nesting\<close>

text \<open>Interrupts are enabled on the current CPU.\<close>

definition intr_on :: "cpu \<Rightarrow> bool" where
  "intr_on c \<longleftrightarrow> eflags c AND FL_IF \<noteq> 0"

text \<open>
  The state of one CPU between two lock operations: the nesting depth is not negative,
  and interrupts are off as long as it is positive.
\<close>

definition cpu_ok :: "cpu \<Rightarrow> bool" where
  "cpu_ok c \<longleftrightarrow> 0 \<le> ncli c \<and> (0 < ncli c \<longrightarrow> \<not> intr_on c)"

lemma and_not_FL_IF [simp]: "(x AND NOT FL_IF) AND FL_IF = 0"
  by (simp add: and.assoc)

lemma or_FL_IF [simp]: "(x OR FL_IF) AND FL_IF = FL_IF" "FL_IF AND FL_IF = FL_IF"
  by (simp_all add: bit.conj_disj_distrib2)

lemma FL_IF_neq_0 [simp]: "FL_IF \<noteq> 0"
  by (simp add: FL_IF_def)

lemma upd_mycpu_simps [simp]:
  "cpus (upd_mycpu f s) = (cpus s)(curcpu s := f (mycpu s))"
  "curcpu (upd_mycpu f s) = curcpu s" "locks (upd_mycpu f s) = locks s"
  "mem (upd_mycpu f s) = mem s" "argp (upd_mycpu f s) = argp s"
  "machine.more (upd_mycpu f s) = machine.more s"
  by (simp_all add: upd_mycpu_def)

lemma upd_lock_simps [simp]:
  "locks (upd_lock lk g s) = (locks s)(lk := g (locks s lk))"
  "curcpu (upd_lock lk g s) = curcpu s" "cpus (upd_lock lk g s) = cpus s"
  "mem (upd_lock lk g s) = mem s" "argp (upd_lock lk g s) = argp s"
  "machine.more (upd_lock lk g s) = machine.more s"
  by (simp_all add: upd_lock_def)

text \<open>\<open>pushcli\<close> and \<open>popcli\<close> as functions of the current CPU alone.\<close>

definition push_cpu :: "cpu \<Rightarrow> cpu" where
  "push_cpu c =
     c\<lparr>eflags := eflags c AND NOT FL_IF,
       intena := (if ncli c = 0 then eflags c AND FL_IF else intena c),
       ncli := ncli c + 1\<rparr>"

definition pop_cpu :: "cpu \<Rightarrow> cpu" where
  "pop_cpu c =
     c\<lparr>ncli := ncli c - 1,
       eflags := (if ncli c = 1 \<and> intena c \<noteq> 0 then eflags c OR FL_IF else eflags c)\<rparr>"

lemma pushcli_eq: "pushcli s = Ok () (upd_mycpu push_cpu s)"
  by (simp add: pushcli_def cli_def readeflags_def upd_mycpu_def push_cpu_def kbind_apply)

lemma popcli_eq:
  "\<not> intr_on (mycpu s) \<Longrightarrow> 0 < ncli (mycpu s) \<Longrightarrow> popcli s = Ok () (upd_mycpu pop_cpu s)"
  by (simp add: popcli_def sti_def readeflags_def upd_mycpu_def pop_cpu_def intr_on_def kbind_apply)

lemma push_cpu_facts [simp]:
  "ncli (push_cpu c) = ncli c + 1" "\<not> intr_on (push_cpu c)"
  "intena (push_cpu c) = (if ncli c = 0 then eflags c AND FL_IF else intena c)"
  "cproc (push_cpu c) = cproc c" "apicid (push_cpu c) = apicid c" "started (push_cpu c) = started c"
  by (simp_all add: push_cpu_def intr_on_def)

lemma pop_cpu_facts [simp]:
  "ncli (pop_cpu c) = ncli c - 1" "intena (pop_cpu c) = intena c"
  "intr_on (pop_cpu c) \<longleftrightarrow> intr_on c \<or> ncli c = 1 \<and> intena c \<noteq> 0"
  "cproc (pop_cpu c) = cproc c" "apicid (pop_cpu c) = apicid c" "started (pop_cpu c) = started c"
  by (auto simp: pop_cpu_def intr_on_def)

lemma cpu_ok_push [simp]: "cpu_ok c \<Longrightarrow> cpu_ok (push_cpu c)"
  by (simp add: cpu_ok_def)

lemma cpu_ok_pop [simp]: "cpu_ok c \<Longrightarrow> 0 < ncli c \<Longrightarrow> cpu_ok (pop_cpu c)"
  by (auto simp: cpu_ok_def)

text \<open>A sequence of \<open>pushcli\<close> (\<open>True\<close>) and \<open>popcli\<close> (\<open>False\<close>) calls, and its nesting depth.\<close>

primrec run_cli :: "bool list \<Rightarrow> ('z machine_scheme, unit) kern" where
  "run_cli [] = kret ()"
| "run_cli (b # bs) = kbind (if b then pushcli else popcli) (\<lambda>_. run_cli bs)"

primrec nesting :: "int \<Rightarrow> bool list \<Rightarrow> int option" where
  "nesting d [] = Some d"
| "nesting d (b # bs) =
     (if b then nesting (d + 1) bs else if 0 < d then nesting (d - 1) bs else None)"

text \<open>
  What \<open>ncli\<close> and \<open>intena\<close> record while calls are nested: the interrupt state that the
  outermost \<open>pushcli\<close> found.
\<close>

definition saved_intr :: "cpu \<Rightarrow> bool" where
  "saved_intr c \<longleftrightarrow> (if ncli c = 0 then intr_on c else intena c \<noteq> 0)"

lemma saved_intr_push [simp]: "saved_intr (push_cpu c) = saved_intr c" if "cpu_ok c"
  using that by (auto simp: saved_intr_def cpu_ok_def intr_on_def)

lemma saved_intr_pop [simp]: "saved_intr (pop_cpu c) = saved_intr c" if "cpu_ok c" "0 < ncli c"
  using that by (auto simp: saved_intr_def cpu_ok_def)

lemma run_cli_nesting:
  "cpu_ok (mycpu s) \<Longrightarrow> nesting (ncli (mycpu s)) bs = Some d \<Longrightarrow>
    \<exists>t. run_cli bs s = Ok () t \<and> curcpu t = curcpu s \<and> cpu_ok (mycpu t) \<and> ncli (mycpu t) = d
      \<and> saved_intr (mycpu t) = saved_intr (mycpu s)"
proof (induction bs arbitrary: s)
  case Nil
  then show ?case by simp
next
  case (Cons b bs)
  define f where "f = (if b then push_cpu else pop_cpu)"
  have pos: "\<not> b \<Longrightarrow> 0 < ncli (mycpu s)" using Cons.prems by (auto split: if_splits)
  have ok: "cpu_ok (f (mycpu s))" "saved_intr (f (mycpu s)) = saved_intr (mycpu s)"
    using Cons.prems(1) pos by (simp_all add: f_def)
  have step: "(if b then pushcli else popcli) s = Ok () (upd_mycpu f s)"
    using Cons.prems(1) pos by (auto simp: f_def pushcli_eq popcli_eq cpu_ok_def)
  have "nesting (ncli (mycpu (upd_mycpu f s))) bs = Some d"
    using Cons.prems(2) by (simp add: f_def split: if_splits)
  with Cons.IH [of "upd_mycpu f s"] ok step show ?case by simp
qed

section \<open>Acquiring and releasing\<close>

text \<open>The states \<open>acquire\<close> and \<open>release\<close> leave behind when they succeed.\<close>

definition acquired :: "lockid \<Rightarrow> 'z machine_scheme \<Rightarrow> 'z machine_scheme" where
  "acquired lk s =
     upd_lock lk (\<lambda>l. l\<lparr>locked := 1, lcpu := Some (curcpu s), lpcs := getcallerpcs (mem s) (argp s)\<rparr>)
       (upd_mycpu push_cpu s)"

definition released :: "lockid \<Rightarrow> 'z machine_scheme \<Rightarrow> 'z machine_scheme" where
  "released lk s =
     upd_mycpu pop_cpu (upd_lock lk (\<lambda>l. l\<lparr>lpcs := (lpcs l)[0 := 0], lcpu := None, locked := 0\<rparr>) s)"

lemma acquired_simps [simp]:
  "cpus (acquired lk s) = (cpus s)(curcpu s := push_cpu (mycpu s))"
  "curcpu (acquired lk s) = curcpu s" "mem (acquired lk s) = mem s" "argp (acquired lk s) = argp s"
  "machine.more (acquired lk s) = machine.more s"
  by (simp_all add: acquired_def)

lemma released_simps [simp]:
  "cpus (released lk s) = (cpus s)(curcpu s := pop_cpu (mycpu s))"
  "curcpu (released lk s) = curcpu s" "mem (released lk s) = mem s" "argp (released lk s) = argp s"
  "machine.more (released lk s) = machine.more s"
  by (simp_all add: released_def)

text \<open>The three outcomes of \<open>acquire\<close>: it gets a free lock, waits for a lock another CPU
  holds, and panics on a lock this CPU holds already.\<close>

lemma acquire_free: "locked (locks s lk) = 0 \<Longrightarrow> acquire lk s = Ok () (acquired lk s)"
  by (simp add: acquire_def pushcli_eq kbind_apply holding_def xchg_locked_def acquired_def upd_lock_def
      upd_mycpu_def)

lemma acquire_held_elsewhere:
  "locked (locks s lk) \<noteq> 0 \<Longrightarrow> lcpu (locks s lk) \<noteq> Some (curcpu s) \<Longrightarrow> \<exists>t. acquire lk s = Blocked t"
  by (simp add: acquire_def pushcli_eq kbind_apply holding_def xchg_locked_def)

lemma acquire_holding: "holding lk s \<Longrightarrow> acquire lk s = Panic ''acquire''"
  by (simp add: acquire_def pushcli_eq kbind_apply holding_def)

lemma release_holding:
  "holding lk s \<Longrightarrow> cpu_ok (mycpu s) \<Longrightarrow> 0 < ncli (mycpu s) \<Longrightarrow> release lk s = Ok () (released lk s)"
  by (simp add: release_def popcli_eq kbind_apply released_def upd_lock_def upd_mycpu_def cpu_ok_def)

lemma release_not_holding: "\<not> holding lk s \<Longrightarrow> release lk s = Panic ''release''"
  by (simp add: release_def kbind_apply)

section \<open>The lock discipline\<close>

text \<open>
  \<open>held_by c s\<close> are the locks CPU \<open>c\<close> holds. The discipline \<open>locks_ok\<close>: finitely many locks
  are taken, and each CPU's nesting depth is at least the number of locks it holds. So a
  CPU that holds a lock runs with interrupts off.
\<close>

definition held_by :: "nat \<Rightarrow> 'z machine_scheme \<Rightarrow> lockid set" where
  "held_by c s = {l. locked (locks s l) \<noteq> 0 \<and> lcpu (locks s l) = Some c}"

definition locks_ok :: "'z machine_scheme \<Rightarrow> bool" where
  "locks_ok s \<longleftrightarrow> finite {l. locked (locks s l) \<noteq> 0}
     \<and> (\<forall>c. cpu_ok (cpus s c) \<and> int (card (held_by c s)) \<le> ncli (cpus s c))"

lemma finite_held_by: "locks_ok s \<Longrightarrow> finite (held_by c s)"
  unfolding locks_ok_def held_by_def by (auto elim: rev_finite_subset)

lemma holding_iff: "holding lk s \<longleftrightarrow> lk \<in> held_by (curcpu s) s"
  by (simp add: holding_def held_by_def)

lemma held_ncli_pos: "locks_ok s \<Longrightarrow> l \<in> held_by c s \<Longrightarrow> 0 < ncli (cpus s c)"
proof -
  assume ok: "locks_ok s" and l: "l \<in> held_by c s"
  then have "card (held_by c s) > 0" using finite_held_by by (auto simp: card_gt_0_iff)
  moreover have "int (card (held_by c s)) \<le> ncli (cpus s c)" using ok by (simp add: locks_ok_def)
  ultimately show ?thesis by simp
qed

lemma held_intr_off: "locks_ok s \<Longrightarrow> l \<in> held_by c s \<Longrightarrow> \<not> intr_on (cpus s c)"
  using held_ncli_pos [of s l c] by (auto simp: locks_ok_def cpu_ok_def)

lemma held_by_acquired:
  "locked (locks s lk) = 0 \<Longrightarrow>
    held_by c (acquired lk s) = (if c = curcpu s then insert lk (held_by c s) else held_by c s)"
  by (auto simp: held_by_def acquired_def split: if_splits)

lemma held_by_released: "held_by c (released lk s) = held_by c s - {lk}"
  by (auto simp: held_by_def released_def split: if_splits)

lemma locks_ok_acquired:
  assumes "locks_ok s" "locked (locks s lk) = 0"
  shows "locks_ok (acquired lk s)"
proof -
  have fin: "finite {l. locked (locks (acquired lk s) l) \<noteq> 0}"
  proof (rule finite_subset)
    show "{l. locked (locks (acquired lk s) l) \<noteq> 0} \<subseteq> insert lk {l. locked (locks s l) \<noteq> 0}"
      by (auto simp: acquired_def)
    show "finite (insert lk {l. locked (locks s l) \<noteq> 0})" using assms by (simp add: locks_ok_def)
  qed
  have "cpu_ok (cpus (acquired lk s) c) \<and> int (card (held_by c (acquired lk s))) \<le> ncli (cpus (acquired lk s) c)" for c
  proof -
    have "lk \<notin> held_by c s" using assms(2) by (simp add: held_by_def)
    then show ?thesis
      using assms finite_held_by [OF assms(1), of c]
      by (auto simp: held_by_acquired locks_ok_def)
  qed
  with fin show ?thesis by (simp add: locks_ok_def)
qed

lemma locks_ok_released:
  assumes "locks_ok s" "holding lk s"
  shows "locks_ok (released lk s)"
proof -
  have fin: "finite {l. locked (locks (released lk s) l) \<noteq> 0}"
  proof (rule finite_subset)
    show "{l. locked (locks (released lk s) l) \<noteq> 0} \<subseteq> {l. locked (locks s l) \<noteq> 0}"
      by (auto simp: released_def)
    show "finite {l. locked (locks s l) \<noteq> 0}" using assms by (simp add: locks_ok_def)
  qed
  have lk: "lk \<in> held_by (curcpu s) s" using assms(2) by (simp add: holding_iff)
  have "cpu_ok (cpus (released lk s) c) \<and> int (card (held_by c (released lk s))) \<le> ncli (cpus (released lk s) c)" for c
  proof (cases "c = curcpu s")
    case True
    have "card (held_by c s) = Suc (card (held_by c s - {lk}))"
      using lk True finite_held_by [OF assms(1), of c] by (simp only: card_Suc_Diff1)
    then have "int (card (held_by c s - {lk})) = int (card (held_by c s)) - 1" by simp
    moreover have "int (card (held_by c s)) \<le> ncli (cpus s c)" "cpu_ok (cpus s c)"
      using assms(1) by (simp_all add: locks_ok_def)
    ultimately show ?thesis
      using True held_ncli_pos [OF assms(1) lk] unfolding held_by_released by simp
  next
    case False
    have "lk \<notin> held_by c s" using lk False by (auto simp: held_by_def)
    then show ?thesis
      using assms(1) False unfolding held_by_released by (simp add: locks_ok_def)
  qed
  with fin show ?thesis by (simp add: locks_ok_def)
qed

text \<open>
  \<open>lock_free\<close> and \<open>lock_held\<close>: the two states of a lock as its users see them.
  \<open>lock_ctl\<close> is the part of the state the lock routines own, \<open>lock_core\<close> all the rest.
\<close>

definition lock_free :: "lockid \<Rightarrow> 'z machine_scheme \<Rightarrow> bool" where
  "lock_free lk s \<longleftrightarrow> locks_ok s \<and> locked (locks s lk) = 0"

definition lock_held :: "lockid \<Rightarrow> 'z machine_scheme \<Rightarrow> bool" where
  "lock_held lk s \<longleftrightarrow> locks_ok s \<and> holding lk s"

definition lock_ctl :: "'z machine_scheme \<Rightarrow> nat \<times> (nat \<Rightarrow> cpu) \<times> (lockid \<Rightarrow> spinlock)" where
  "lock_ctl s = (curcpu s, cpus s, locks s)"

definition lock_core :: "'z machine_scheme \<Rightarrow> 'z machine_scheme" where
  "lock_core s = s\<lparr>cpus := (\<lambda>_. undefined), locks := (\<lambda>_. undefined)\<rparr>"

lemma lock_core_acquired [simp]: "lock_core (acquired lk s) = lock_core s"
  by (simp add: lock_core_def acquired_def upd_lock_def upd_mycpu_def)

lemma lock_core_released [simp]: "lock_core (released lk s) = lock_core s"
  by (simp add: lock_core_def released_def upd_lock_def upd_mycpu_def)

lemma lock_core_simps [simp]:
  "curcpu (lock_core s) = curcpu s" "mem (lock_core s) = mem s" "argp (lock_core s) = argp s"
  "machine.more (lock_core s) = machine.more s"
  by (simp_all add: lock_core_def)

lemmas lock_defs = acquired_def released_def upd_lock_def upd_mycpu_def lock_core_def

text \<open>Exact outcomes of the lock routines in the two states a user meets.\<close>

lemma acquire_lock_free: "lock_free lk s \<Longrightarrow> acquire lk s = Ok () (acquired lk s)"
  by (simp add: lock_free_def acquire_free)

lemma release_lock_held: "lock_held lk s \<Longrightarrow> release lk s = Ok () (released lk s)"
  using held_ncli_pos [of s lk "curcpu s"]
  by (intro release_holding) (auto simp: lock_held_def locks_ok_def holding_iff)

lemma lock_held_acquired: "lock_free lk s \<Longrightarrow> lock_held lk (acquired lk s)"
  by (simp add: lock_free_def lock_held_def locks_ok_acquired holding_iff held_by_acquired)

lemma lock_free_released: "lock_held lk s \<Longrightarrow> lock_free lk (released lk s)"
  by (simp add: lock_held_def lock_free_def locks_ok_released) (simp add: released_def)

lemma lock_core_eqD:
  assumes "lock_core t = lock_core s"
  shows "curcpu t = curcpu s" "mem t = mem s" "argp t = argp s" "machine.more t = machine.more s"
  using assms by (metis lock_core_simps)+

lemma locks_ok_ctl: "lock_ctl t = lock_ctl s \<Longrightarrow> locks_ok t = locks_ok s"
  by (simp add: lock_ctl_def locks_ok_def held_by_def)

text \<open>The contract of a mutual-exclusion lock, and what its users get from it.\<close>

locale mutex =
  fixes acq rel :: "'l \<Rightarrow> ('s, unit) kern"
    and free held :: "'l \<Rightarrow> 's \<Rightarrow> bool"
    and ctl :: "'s \<Rightarrow> 'c"
    and core :: "'s \<Rightarrow> 'd"
  assumes acq_free: "free l s \<Longrightarrow> \<exists>t. acq l s = Ok () t \<and> held l t \<and> core t = core s"
    and acq_frame: "free l s \<Longrightarrow> acq l s = Ok () t \<Longrightarrow> k \<noteq> l \<Longrightarrow> free k t = free k s \<and> held k t = held k s"
    and acq_excl: "held l s \<Longrightarrow> \<exists>e. acq l s = Panic e"
    and rel_held: "held l s \<Longrightarrow> \<exists>t. rel l s = Ok () t \<and> free l t \<and> core t = core s"
    and rel_frame: "held l s \<Longrightarrow> rel l s = Ok () t \<Longrightarrow> k \<noteq> l \<Longrightarrow> free k t = free k s \<and> held k t = held k s"
    and ctl_free: "ctl t = ctl s \<Longrightarrow> free l t = free l s"
    and ctl_held: "ctl t = ctl s \<Longrightarrow> held l t = held l s"
begin

text \<open>A critical section: the body runs with the lock held on the caller's data, and the
  lock is free again afterwards.\<close>

lemma critical_section:
  assumes "free l s"
    and body: "\<And>t. held l t \<Longrightarrow> core t = core s \<Longrightarrow> \<exists>u. m t = Ok a u \<and> ctl u = ctl t \<and> R (core u)"
  shows "\<exists>u. kbind (acq l) (\<lambda>_. kbind m (\<lambda>a. kbind (rel l) (\<lambda>_. kret a))) s = Ok a u
    \<and> free l u \<and> R (core u)"
proof -
  obtain t where t: "acq l s = Ok () t" "held l t" "core t = core s"
    using acq_free [OF assms(1)] by blast
  obtain u where u: "m t = Ok a u" "ctl u = ctl t" "R (core u)"
    using body [OF t(2,3)] by blast
  have "held l u" using t(2) u(2) ctl_held by blast
  then obtain v where "rel l u = Ok () v" "free l v" "core v = core u"
    using rel_held by blast
  with t(1) u show ?thesis by simp
qed

lemma critical_panic:
  assumes "free l s" "\<And>t. held l t \<Longrightarrow> core t = core s \<Longrightarrow> m t = Panic e"
  shows "kbind (acq l) (\<lambda>_. kbind m f) s = Panic e"
  using acq_free [OF assms(1)] assms(2) by auto

end

interpretation spin: mutex acquire release lock_free lock_held lock_ctl lock_core
proof
  fix l k and s t :: "'a machine_scheme"
  show "lock_free l s \<Longrightarrow> \<exists>t. acquire l s = Ok () t \<and> lock_held l t \<and> lock_core t = lock_core s"
    by (auto simp: lock_free_def lock_held_def acquire_free locks_ok_acquired holding_iff held_by_acquired)
  show "lock_held l s \<Longrightarrow> \<exists>e. acquire l s = Panic e"
    by (simp add: lock_held_def acquire_holding)
  show "lock_free l s \<Longrightarrow> acquire l s = Ok () t \<Longrightarrow> k \<noteq> l
      \<Longrightarrow> lock_free k t = lock_free k s \<and> lock_held k t = lock_held k s"
    by (auto simp: lock_free_def lock_held_def acquire_free locks_ok_acquired holding_iff held_by_acquired)
      (auto simp: acquired_def)
  have held_rel: "release l s = Ok () (released l s)" if "lock_held l s"
    using that held_ncli_pos [of s l "curcpu s"]
    by (intro release_holding) (auto simp: lock_held_def locks_ok_def holding_iff)
  show "lock_held l s \<Longrightarrow> \<exists>t. release l s = Ok () t \<and> lock_free l t \<and> lock_core t = lock_core s"
    using held_rel by (simp add: lock_held_def lock_free_def locks_ok_released) (simp add: released_def)
  show "lock_held l s \<Longrightarrow> release l s = Ok () t \<Longrightarrow> k \<noteq> l
      \<Longrightarrow> lock_free k t = lock_free k s \<and> lock_held k t = lock_held k s"
    using held_rel
    by (auto simp: lock_free_def lock_held_def locks_ok_released holding_iff held_by_released)
      (auto simp: released_def)
  show "lock_ctl t = lock_ctl s \<Longrightarrow> lock_free l t = lock_free l s"
    using locks_ok_ctl [of t s] by (simp add: lock_free_def lock_ctl_def)
  show "lock_ctl t = lock_ctl s \<Longrightarrow> lock_held l t = lock_held l s"
    using locks_ok_ctl [of t s] by (simp add: lock_held_def lock_ctl_def holding_def)
qed

section \<open>What a balanced use of locks leaves unchanged\<close>

text \<open>
  \<open>lock_frame s t\<close>: from \<open>s\<close> to \<open>t\<close> every lock is back in the state it had, and every CPU
  has the same nesting depth, interrupt flag and process; only the debugging fields
  of the locks and \<open>intena\<close> may differ.
\<close>

definition lock_view :: "spinlock \<Rightarrow> nat option option" where
  "lock_view l = (if locked l = 0 then None else Some (lcpu l))"

definition cpu_view :: "cpu \<Rightarrow> int \<times> bool \<times> nat option" where
  "cpu_view c = (ncli c, intr_on c, cproc c)"

definition lock_frame :: "'z machine_scheme \<Rightarrow> 'z machine_scheme \<Rightarrow> bool" where
  "lock_frame s t \<longleftrightarrow> curcpu t = curcpu s
     \<and> (\<forall>c. cpu_view (cpus t c) = cpu_view (cpus s c))
     \<and> (\<forall>l. lock_view (locks t l) = lock_view (locks s l))"

lemma lock_frame_refl [simp, intro]: "lock_frame s s"
  by (simp add: lock_frame_def)

lemma lock_frame_trans [trans]: "lock_frame s t \<Longrightarrow> lock_frame t u \<Longrightarrow> lock_frame s u"
  by (simp add: lock_frame_def)

lemma lock_frame_ctl: "lock_ctl t = lock_ctl s \<Longrightarrow> lock_frame s t"
  by (simp add: lock_frame_def lock_ctl_def)

lemma held_by_view: "held_by c s = {l. lock_view (locks s l) = Some (Some c)}"
  by (auto simp: held_by_def lock_view_def)

lemma locked_view: "locked l = 0 \<longleftrightarrow> lock_view l = None"
  by (simp add: lock_view_def)

lemma cpu_ok_view: "cpu_view c = cpu_view d \<Longrightarrow> cpu_ok c = cpu_ok d \<and> ncli c = ncli d"
  by (simp add: cpu_view_def cpu_ok_def)

lemma lock_frame_locks_ok: "lock_frame s t \<Longrightarrow> locks_ok t = locks_ok s"
proof -
  assume f: "lock_frame s t"
  have "cpu_ok (cpus t c) = cpu_ok (cpus s c)" "ncli (cpus t c) = ncli (cpus s c)" for c
    using f cpu_ok_view [of "cpus t c" "cpus s c"] by (simp_all add: lock_frame_def)
  with f show ?thesis
    by (simp add: locks_ok_def held_by_view locked_view lock_frame_def)
qed

lemma lock_frame_free: "lock_frame s t \<Longrightarrow> lock_free l t = lock_free l s"
  using lock_frame_locks_ok [of s t] by (simp add: lock_free_def locked_view lock_frame_def)

lemma lock_frame_held: "lock_frame s t \<Longrightarrow> lock_held l t = lock_held l s"
  using lock_frame_locks_ok [of s t]
  by (simp add: lock_held_def holding_iff held_by_view lock_frame_def)

lemma lock_frame_cproc: "lock_frame s t \<Longrightarrow> cproc (cpus t c) = cproc (cpus s c)"
  by (simp add: lock_frame_def cpu_view_def)

lemma lock_frame_ncli: "lock_frame s t \<Longrightarrow> ncli (cpus t c) = ncli (cpus s c)"
  by (simp add: lock_frame_def cpu_view_def)

text \<open>A critical section is balanced.\<close>

lemma lock_frame_critical:
  assumes "lock_free lk s" "lock_ctl u = lock_ctl (acquired lk s)"
  shows "lock_frame s (released lk u)"
proof -
  have u: "curcpu u = curcpu s" "cpus u = (cpus s)(curcpu s := push_cpu (mycpu s))"
    "locks u = locks (acquired lk s)"
    using assms(2) by (simp_all add: lock_ctl_def)
  have ok: "cpu_ok (mycpu s)" "locked (locks s lk) = 0"
    using assms(1) by (simp_all add: lock_free_def locks_ok_def)
  have "intr_on (pop_cpu (push_cpu (mycpu s))) = intr_on (mycpu s)"
    using ok(1) intr_on_def [of "mycpu s"] by (auto simp: cpu_ok_def)
  then show ?thesis
    using ok(2) by (simp add: lock_frame_def released_def acquired_def u cpu_view_def lock_view_def)
qed

section \<open>Several CPUs\<close>

text \<open>
  CPU \<open>c\<close> runs \<open>acquire\<close> or \<open>release\<close> on some lock. An \<open>acquire\<close> that has to spin leaves
  the CPU with interrupts off and the lock word rewritten.
\<close>

inductive lock_step :: "machine \<Rightarrow> machine \<Rightarrow> bool" where
  acq: "acquire l (s\<lparr>curcpu := c\<rparr>) = Ok () t \<Longrightarrow> lock_step s t"
| spin: "acquire l (s\<lparr>curcpu := c\<rparr>) = Blocked t \<Longrightarrow> lock_step s t"
| rel: "release l (s\<lparr>curcpu := c\<rparr>) = Ok () t \<Longrightarrow> lock_step s t"

inductive lock_reach :: "machine \<Rightarrow> bool" where
  boot: "(\<And>l. locked (locks s l) = 0) \<Longrightarrow> (\<And>c. ncli (cpus s c) = 0) \<Longrightarrow> lock_reach s"
| step: "lock_reach s \<Longrightarrow> lock_step s t \<Longrightarrow> lock_reach t"

inductive_cases lock_stepE: "lock_step s t"

lemma locks_ok_curcpu [simp]: "locks_ok (s\<lparr>curcpu := c\<rparr>) = locks_ok s"
  by (simp add: locks_ok_def held_by_def)

lemma acquire_Ok_locks_ok: "locks_ok s \<Longrightarrow> acquire l s = Ok () t \<Longrightarrow> locks_ok t"
  by (cases "locked (locks s l) = 0"; cases "holding l s")
    (auto simp: acquire_free locks_ok_acquired acquire_holding dest: acquire_held_elsewhere
      simp: holding_def)

lemma release_Ok_locks_ok: "locks_ok s \<Longrightarrow> release l s = Ok () t \<Longrightarrow> locks_ok t"
proof (cases "holding l s")
  case True
  assume "locks_ok s" "release l s = Ok () t"
  then show ?thesis
    using True spin.rel_held [of l s] by (auto simp: lock_held_def lock_free_def)
qed (simp add: release_not_holding)

lemma acquire_Blocked_locks_ok:
  assumes "locks_ok s" "acquire l s = Blocked t"
  shows "locks_ok t"
proof -
  have ne: "locked (locks s l) \<noteq> 0" "\<not> holding l s"
    using assms(2) by (auto simp: acquire_free acquire_holding)
  then have t: "t = upd_lock l (\<lambda>k. k\<lparr>locked := 1\<rparr>) (upd_mycpu push_cpu s)"
    using assms(2) by (simp add: acquire_def pushcli_eq kbind_apply holding_def xchg_locked_def)
  have "{k. locked (locks t k) \<noteq> 0} = {k. locked (locks s k) \<noteq> 0}" "\<And>c. held_by c t = held_by c s"
    using ne(1) by (auto simp: t held_by_def split: if_splits)
  moreover have "cpu_ok (cpus t c) \<and> ncli (cpus s c) \<le> ncli (cpus t c)" for c
    using assms(1) by (simp add: locks_ok_def t)
  ultimately show ?thesis
    using assms(1) unfolding locks_ok_def by (metis order_trans)
qed

lemma lock_step_locks_ok: "lock_step s t \<Longrightarrow> locks_ok s \<Longrightarrow> locks_ok t"
  by (erule lock_stepE)
    (auto dest: acquire_Ok_locks_ok [rotated] release_Ok_locks_ok [rotated] acquire_Blocked_locks_ok [rotated])

lemma lock_reach_locks_ok: "lock_reach s \<Longrightarrow> locks_ok s"
proof (induction rule: lock_reach.induct)
  case (boot s)
  then show ?case by (simp add: locks_ok_def held_by_def cpu_ok_def)
next
  case (step s t)
  then show ?case by (blast intro: lock_step_locks_ok)
qed

text \<open>A machine that has just booted: no lock taken, interrupts on.\<close>

definition boot_machine :: machine where
  "boot_machine =
     \<lparr>curcpu = 0,
      cpus = (\<lambda>_. \<lparr>apicid = 0, started = 1, ncli = 0, intena = 0, cproc = None, eflags = FL_IF\<rparr>),
      locks = (\<lambda>_. \<lparr>locked = 0, lname = [], lcpu = None, lpcs = replicate 10 0\<rparr>),
      mem = (\<lambda>_. 0), argp = 0\<rparr>"

text \<open>
  C21: \<open>pushcli\<close> and \<open>popcli\<close> are matched. Any sequence of calls in which no \<open>popcli\<close> comes
  without its \<open>pushcli\<close> runs to its end without a panic; interrupts are off while the depth
  is positive, and back at depth 0 they are on exactly if they were on before the first
  call.
\<close>

theorem cli_nesting:
  assumes "cpu_ok (mycpu s)" "nesting (ncli (mycpu s)) bs = Some d"
  shows "\<exists>t. run_cli bs s = Ok () t \<and> ncli (mycpu t) = d
    \<and> (0 < d \<longrightarrow> \<not> intr_on (mycpu t))
    \<and> (d = 0 \<longrightarrow> intr_on (mycpu t) = saved_intr (mycpu s))"
  using run_cli_nesting [OF assms] by (auto simp: cpu_ok_def saved_intr_def)

theorem cli_nesting_witness:
  "\<exists>t. run_cli [True, True, False, False] boot_machine = Ok () t \<and> ncli (mycpu t) = 0 \<and> intr_on (mycpu t)"
proof -
  have 1: "cpu_ok (mycpu boot_machine)" by (simp add: cpu_ok_def boot_machine_def)
  have 2: "nesting (ncli (mycpu boot_machine)) [True, True, False, False] = Some 0"
    by (simp add: boot_machine_def)
  have "saved_intr (mycpu boot_machine)" by (simp add: saved_intr_def boot_machine_def intr_on_def)
  then show ?thesis using cli_nesting [OF 1 2] by auto
qed



end
