(* ===== verification/Kalloc.thy ===== *)
theory Kalloc
  imports Spinlock
begin

text \<open>
  The physical page allocator (\<open>kalloc.c\<close>).

  The free list is threaded through the free pages themselves: the first word of a free
  page is the address of the next one. \<open>flist\<close> relates the head pointer and the memory to
  the list of free pages. The lemmas show that \<open>kfree\<close> and \<open>kalloc\<close> are push and pop on
  that list, whatever the owners of the other pages write into them.

  \<open>kend\<close> is the linker symbol \<open>end\<close>, the first address after the kernel image.
\<close>

definition PGSIZE :: uint where "PGSIZE = 4096"

definition PHYSTOP :: uint where "PHYSTOP = 0xE000000"

definition V2P :: "uint \<Rightarrow> uint" where "V2P a = a - KERNBASE"

definition P2V :: "uint \<Rightarrow> uint" where "P2V a = a + KERNBASE"

definition PGROUNDUP :: "uint \<Rightarrow> uint" where
  "PGROUNDUP sz = (sz + PGSIZE - 1) AND NOT (PGSIZE - 1)"

definition PGROUNDDOWN :: "uint \<Rightarrow> uint" where
  "PGROUNDDOWN a = a AND NOT (PGSIZE - 1)"

record kmem = machine +
  use_lock :: bool
  freelist :: uint
  kend :: uint

definition page_ok :: "'z kmem_scheme \<Rightarrow> uint \<Rightarrow> bool" where
  "page_ok s v \<longleftrightarrow> v mod PGSIZE = 0 \<and> \<not> v < kend s \<and> \<not> V2P v \<ge> PHYSTOP"

definition kfree :: "uint \<Rightarrow> ('z kmem_scheme, unit) kern" where
  "kfree v = kseq
     [kassert (\<lambda>s. \<not> (v mod PGSIZE \<noteq> 0 \<or> v < kend s \<or> V2P v \<ge> PHYSTOP)) ''kfree'',
      kmod (\<lambda>s. s\<lparr>mem := memset (mem s) v 1 PGSIZE\<rparr>),
      kif use_lock (acquire KmemLock),
      kmod (\<lambda>s. s\<lparr>mem := store32 (mem s) v (freelist s)\<rparr>),
      kmod (\<lambda>s. s\<lparr>freelist := v\<rparr>),
      kif use_lock (release KmemLock)]
     (kret ())"

definition kalloc :: "('z kmem_scheme, uint) kern" where
  "kalloc =
     kbind (kif use_lock (acquire KmemLock)) (\<lambda>_.
     kbind (kget freelist) (\<lambda>r. kseq
       [kif (\<lambda>s. r \<noteq> 0) (kmod (\<lambda>s. s\<lparr>freelist := load32 (mem s) r\<rparr>)),
        kif use_lock (release KmemLock)]
       (kret r)))"

text \<open>
  The loop of \<open>freerange\<close> stops because \<open>kfree\<close> only succeeds below \<open>P2V(PHYSTOP)\<close>,
  so the pointer never wraps around.
\<close>

lemma kfree_Ok_bound: "kfree p s = Ok () t \<Longrightarrow> V2P p < PHYSTOP"
  by (auto simp: kfree_def kbind_eq_Ok_iff split: if_splits)

lemma V2P_bound: "V2P p < PHYSTOP \<Longrightarrow> unat p < unat (p + PGSIZE)"
  unfolding V2P_def PHYSTOP_def KERNBASE_def PGSIZE_def by unat_arith simp_all

function freerange_loop :: "uint \<Rightarrow> uint \<Rightarrow> ('z kmem_scheme, unit) kern" where
  "freerange_loop p vend s =
     (if p + PGSIZE \<le> vend then
        (case kfree p s of
           Ok _ s' \<Rightarrow> freerange_loop (p + PGSIZE) vend s'
         | Panic e \<Rightarrow> Panic e
         | Blocked s' \<Rightarrow> Blocked s')
      else Ok () s)"
  by pat_completeness auto
termination
proof (relation "measure (\<lambda>(p, vend, s). 2 ^ 32 - unat p)")
  fix p vend and s :: "'z kmem_scheme" and u s'
  assume "kfree p s = Ok u s'"
  then have "unat p < unat (p + PGSIZE)" by (intro V2P_bound kfree_Ok_bound) auto
  moreover have "unat (p + PGSIZE) < 2 ^ 32" using unsigned_less [of "p + PGSIZE", where 'a = nat] by simp
  ultimately show "((p + PGSIZE, vend, s'), (p, vend, s)) \<in> measure (\<lambda>(p, vend, s). 2 ^ 32 - unat p)"
    by simp
qed simp

declare freerange_loop.simps [simp del]

definition freerange :: "uint \<Rightarrow> uint \<Rightarrow> ('z kmem_scheme, unit) kern" where
  "freerange vstart vend = freerange_loop (PGROUNDUP vstart) vend"

definition kinit1 :: "uint \<Rightarrow> uint \<Rightarrow> ('z kmem_scheme, unit) kern" where
  "kinit1 vstart vend = kseq
     [initlock KmemLock ''kmem'',
      kmod (\<lambda>s. s\<lparr>use_lock := False\<rparr>),
      freerange vstart vend]
     (kret ())"

definition kinit2 :: "uint \<Rightarrow> uint \<Rightarrow> ('z kmem_scheme, unit) kern" where
  "kinit2 vstart vend = kseq
     [freerange vstart vend,
      kmod (\<lambda>s. s\<lparr>use_lock := True\<rparr>)]
     (kret ())"

section \<open>Pages\<close>

definition in_page :: "uint \<Rightarrow> uint \<Rightarrow> bool" where
  "in_page p a \<longleftrightarrow> unat (a - p) < 4096"

lemma div_page_iff: "n div 4096 = k \<longleftrightarrow> 4096 * k \<le> n \<and> n < 4096 * k + 4096" for n k :: nat
proof
  assume "n div 4096 = k"
  then show "4096 * k \<le> n \<and> n < 4096 * k + 4096"
    using div_mult_mod_eq [of n 4096] mod_less_divisor [of 4096 n] by linarith
next
  assume "4096 * k \<le> n \<and> n < 4096 * k + 4096"
  then show "n div 4096 = k" by (intro div_nat_eqI) auto
qed

lemma page_multiple:
  assumes "p mod PGSIZE = 0"
  obtains k where "unat p = 4096 * k" "k < 1048576"
proof -
  have "unat (p mod PGSIZE) = 0" using assms by simp
  then have "4096 dvd unat p" by (simp add: unat_mod PGSIZE_def mod_eq_0_iff_dvd)
  then obtain k where k: "unat p = 4096 * k" by (elim dvdE)
  have "unat p < 4294967296" using unsigned_less [of p, where 'a = nat] by simp
  with k have "k < 1048576" by simp
  with k that show ?thesis by blast
qed

lemma page_aligned4: "p mod PGSIZE = 0 \<Longrightarrow> aligned4 p"
proof (erule page_multiple)
  fix k assume "unat p = 4096 * k"
  then have "unat p = 4 * (1024 * k)" by simp
  then show ?thesis unfolding aligned4_def by (metis mod_mult_self1_is_0)
qed

lemma in_page_iff:
  assumes "p mod PGSIZE = 0"
  shows "in_page p a \<longleftrightarrow> unat a div 4096 = unat p div 4096"
proof -
  obtain k where k: "unat p = 4096 * k" "k < 1048576" using page_multiple [OF assms] .
  have a: "unat a < 4294967296" using unsigned_less [of a, where 'a = nat] by simp
  show ?thesis
  proof (cases "p \<le> a")
    case True
    then have "unat (a - p) = unat a - unat p" "unat p \<le> unat a"
      by (simp_all add: unat_sub word_le_nat_alt)
    with k show ?thesis by (auto simp: in_page_def div_page_iff)
  next
    case False
    then have "unat (a - p) = 4294967296 + unat a - unat p" "unat a < unat p"
      by (simp_all add: unat_sub_if' word_le_nat_alt)
    with k a show ?thesis by (auto simp: in_page_def div_page_iff)
  qed
qed

lemma in_page_disjoint:
  assumes "p mod PGSIZE = 0" "q mod PGSIZE = 0" "in_page p a" "in_page q a"
  shows "p = q"
proof -
  obtain j k where "unat p = 4096 * j" "unat q = 4096 * k"
    using page_multiple [OF assms(1)] page_multiple [OF assms(2)] by metis
  moreover have "unat p div 4096 = unat q div 4096" using assms in_page_iff by metis
  ultimately have "unat p = unat q" by simp
  then show ?thesis by (simp add: word_unat_eq_iff)
qed

lemma in_page_self [simp]: "in_page p p" "in_page p (p + 1)" "in_page p (p + 2)" "in_page p (p + 3)"
  by (simp_all add: in_page_def)

lemma store32_outside: "\<not> in_page p a \<Longrightarrow> store32 m p v a = m a"
  using in_page_self [of p] by (auto simp: store32_def)

lemma memset_page_outside: "\<not> in_page p a \<Longrightarrow> memset m p c PGSIZE a = m a"
  by (simp add: memset_fill fill_def in_page_def PGSIZE_def)

lemma memset_page_inside: "in_page p a \<Longrightarrow> memset m p c PGSIZE a = ucast c"
  by (simp add: memset_fill fill_def in_page_def PGSIZE_def)

lemma load32_cong_page: "(\<And>a. in_page p a \<Longrightarrow> m' a = m a) \<Longrightarrow> load32 m' p = load32 m p"
  by (simp add: load32_def)

section \<open>The free list in memory\<close>

primrec flist :: "mem \<Rightarrow> uint \<Rightarrow> uint list \<Rightarrow> bool" where
  "flist m p [] \<longleftrightarrow> p = 0"
| "flist m p (q # qs) \<longleftrightarrow> p = q \<and> q \<noteq> 0 \<and> flist m (load32 m q) qs"

text \<open>The invariant of the allocator, with the list of free pages.\<close>

definition kmem_inv :: "'z kmem_scheme \<Rightarrow> uint list \<Rightarrow> bool" where
  "kmem_inv s ps \<longleftrightarrow>
     flist (mem s) (freelist s) ps \<and> distinct ps \<and> (\<forall>p \<in> set ps. page_ok s p) \<and> 0 < kend s
     \<and> (use_lock s \<longrightarrow> lock_free KmemLock s)"

lemma flist_cong:
  "(\<And>p a. p \<in> set ps \<Longrightarrow> in_page p a \<Longrightarrow> m' a = m a) \<Longrightarrow> flist m' h ps = flist m h ps"
proof (induction ps arbitrary: h)
  case Nil
  then show ?case by simp
next
  case (Cons q qs)
  have "load32 m' q = load32 m q" by (intro load32_cong_page Cons.prems [of q]) auto
  moreover have "flist m' h' qs = flist m h' qs" for h' using Cons.prems by (intro Cons.IH) auto
  ultimately show ?case by simp
qed

lemma page_ok_simps [simp]:
  "page_ok (s\<lparr>mem := m\<rparr>) v = page_ok s v" "page_ok (s\<lparr>freelist := h\<rparr>) v = page_ok s v"
  "page_ok (s\<lparr>use_lock := b\<rparr>) v = page_ok s v"
  "page_ok (acquired lk s) v = page_ok s v" "page_ok (released lk s) v = page_ok s v"
  by (simp_all add: page_ok_def lock_defs)

lemma kmem_fields [simp]:
  "use_lock (acquired lk s) = use_lock s" "freelist (acquired lk s) = freelist s" "kend (acquired lk s) = kend s"
  "use_lock (released lk s) = use_lock s" "freelist (released lk s) = freelist s" "kend (released lk s) = kend s"
  by (simp_all add: lock_defs)

lemma lock_ctl_upd [simp]:
  "lock_ctl (s\<lparr>mem := m\<rparr>) = lock_ctl s" "lock_ctl (s\<lparr>freelist := h\<rparr>) = lock_ctl s"
  "lock_ctl (s\<lparr>use_lock := b\<rparr>) = lock_ctl s"
  by (simp_all add: lock_ctl_def)

lemma lock_free_upd [simp]:
  "lock_free l (s\<lparr>mem := m\<rparr>) = lock_free l s" "lock_free l (s\<lparr>freelist := h\<rparr>) = lock_free l s"
  by (rule spin.ctl_free, simp)+

lemma lock_held_upd [simp]:
  "lock_held l (s\<lparr>mem := m\<rparr>) = lock_held l s" "lock_held l (s\<lparr>freelist := h\<rparr>) = lock_held l s"
  by (rule spin.ctl_held, simp)+

section \<open>\<open>kfree\<close> pushes, \<open>kalloc\<close> pops\<close>

text \<open>\<open>kmem_frame s t\<close>: only the free list and the memory may differ between \<open>s\<close> and \<open>t\<close>.\<close>

definition kmem_frame :: "'z kmem_scheme \<Rightarrow> 'z kmem_scheme \<Rightarrow> bool" where
  "kmem_frame s t \<longleftrightarrow> lock_frame s t \<and> use_lock t = use_lock s \<and> kend t = kend s
     \<and> argp t = argp s \<and> kmem.more t = kmem.more s"

lemma kmem_frame_refl [simp, intro]: "kmem_frame s s"
  by (simp add: kmem_frame_def)

lemma kmem_frame_trans [trans]: "kmem_frame s t \<Longrightarrow> kmem_frame t u \<Longrightarrow> kmem_frame s u"
  by (auto simp: kmem_frame_def intro: lock_frame_trans)

lemma kmem_more_lock [simp]:
  "kmem.more (acquired lk s) = kmem.more s" "kmem.more (released lk s) = kmem.more s"
  by (simp_all add: lock_defs)

lemma page_ok_frame: "kmem_frame s t \<Longrightarrow> page_ok t p = page_ok s p"
  by (simp add: page_ok_def kmem_frame_def)

definition freed :: "uint \<Rightarrow> 'z kmem_scheme \<Rightarrow> 'z kmem_scheme" where
  "freed v s =
     (let m = store32 (memset (mem s) v 1 PGSIZE) v (freelist s) in
      if use_lock s then released KmemLock ((acquired KmemLock (s\<lparr>mem := memset (mem s) v 1 PGSIZE\<rparr>))\<lparr>mem := m, freelist := v\<rparr>)
      else s\<lparr>mem := m, freelist := v\<rparr>)"

definition pop_free :: "'z kmem_scheme \<Rightarrow> 'z kmem_scheme" where
  "pop_free s = (if freelist s = 0 then s else s\<lparr>freelist := load32 (mem s) (freelist s)\<rparr>)"

definition allocated :: "'z kmem_scheme \<Rightarrow> 'z kmem_scheme" where
  "allocated s = (if use_lock s then released KmemLock (pop_free (acquired KmemLock s)) else pop_free s)"

lemma pop_free_simps [simp]:
  "lock_ctl (pop_free s) = lock_ctl s" "mem (pop_free s) = mem s" "use_lock (pop_free s) = use_lock s"
  "kend (pop_free s) = kend s" "argp (pop_free s) = argp s" "kmem.more (pop_free s) = kmem.more s"
  "freelist (pop_free s) = (if freelist s = 0 then 0 else load32 (mem s) (freelist s))"
  by (simp_all add: pop_free_def)

lemma lock_held_pop_free [simp]: "lock_held l (pop_free s) = lock_held l s"
  by (rule spin.ctl_held) simp

lemma kfree_eq:
  assumes "page_ok s v" "use_lock s \<longrightarrow> lock_free KmemLock s"
  shows "kfree v s = Ok () (freed v s)"
proof (cases "use_lock s")
  case True
  with assms show ?thesis
    by (simp add: kfree_def kbind_apply page_ok_def acquire_lock_free release_lock_held
        lock_held_acquired freed_def)
next
  case False
  with assms(1) show ?thesis
    by (simp add: kfree_def kbind_apply page_ok_def freed_def)
qed

lemma kfree_bad: "\<not> page_ok s v \<Longrightarrow> kfree v s = Panic ''kfree''"
  by (auto simp: kfree_def page_ok_def kbind_apply)

lemma kalloc_eq:
  assumes "use_lock s \<longrightarrow> lock_free KmemLock s"
  shows "kalloc s = Ok (freelist s) (allocated s)"
proof (cases "use_lock s")
  case True
  with assms show ?thesis
    by (simp add: kalloc_def kbind_apply acquire_lock_free release_lock_held lock_held_acquired
        allocated_def) (simp add: pop_free_def)
next
  case False
  then show ?thesis by (simp add: kalloc_def kbind_apply allocated_def pop_free_def)
qed

lemma freed_frame:
  assumes "use_lock s \<longrightarrow> lock_free KmemLock s"
  shows "kmem_frame s (freed v s)"
proof -
  have "lock_frame s (released KmemLock
      ((acquired KmemLock (s\<lparr>mem := m\<rparr>))\<lparr>mem := m', freelist := v\<rparr>))" if "use_lock s" for m m'
  proof -
    have "lock_frame (s\<lparr>mem := m\<rparr>) (released KmemLock ((acquired KmemLock (s\<lparr>mem := m\<rparr>))\<lparr>mem := m', freelist := v\<rparr>))"
      using assms that by (intro lock_frame_critical) simp_all
    then show ?thesis by (rule lock_frame_trans [OF lock_frame_ctl, rotated]) simp
  qed
  then show ?thesis
    by (auto simp: kmem_frame_def freed_def Let_def intro: lock_frame_ctl)
qed

lemma allocated_frame:
  assumes "use_lock s \<longrightarrow> lock_free KmemLock s"
  shows "kmem_frame s (allocated s)"
  using assms lock_frame_critical [of KmemLock s "pop_free (acquired KmemLock s)"]
  by (auto simp: kmem_frame_def allocated_def intro: lock_frame_ctl)

lemma freed_mem: "\<not> in_page v a \<Longrightarrow> mem (freed v s) a = mem s a"
  by (simp add: freed_def Let_def store32_outside memset_page_outside)

lemma allocated_mem [simp]: "mem (allocated s) = mem s"
  by (simp add: allocated_def)

lemma kmem_inv_freed:
  assumes inv: "kmem_inv s ps" and v: "page_ok s v" "v \<notin> set ps"
  shows "kmem_inv (freed v s) (v # ps)"
proof -
  have fr: "kmem_frame s (freed v s)" using inv by (intro freed_frame) (simp add: kmem_inv_def)
  have vne: "v \<noteq> 0" using v(1) inv by (auto simp: page_ok_def kmem_inv_def)
  have "load32 (mem (freed v s)) v = freelist s" by (simp add: freed_def Let_def)
  moreover have "freelist (freed v s) = v" by (simp add: freed_def Let_def)
  moreover have "flist (mem (freed v s)) (freelist s) ps"
  proof -
    have "mem (freed v s) a = mem s a" if "p \<in> set ps" "in_page p a" for p a
    proof (rule freed_mem)
      have "p mod PGSIZE = 0" "v mod PGSIZE = 0" using inv v that by (auto simp: kmem_inv_def page_ok_def)
      then show "\<not> in_page v a" using in_page_disjoint [of p v a] that v(2) by auto
    qed
    then have "flist (mem (freed v s)) (freelist s) ps = flist (mem s) (freelist s) ps"
      by (rule flist_cong)
    with inv show ?thesis by (simp add: kmem_inv_def)
  qed
  ultimately show ?thesis
    using inv v vne page_ok_frame [OF fr] fr lock_frame_free [of s "freed v s" KmemLock]
    by (simp add: kmem_inv_def kmem_frame_def)
qed

lemma kmem_inv_allocated:
  assumes "kmem_inv s ps"
  shows "kmem_inv (allocated s) (tl ps) \<and> freelist s = (case ps of [] \<Rightarrow> 0 | p # _ \<Rightarrow> p)"
proof -
  have fr: "kmem_frame s (allocated s)" using assms by (intro allocated_frame) (simp add: kmem_inv_def)
  have "freelist (allocated s) = (if freelist s = 0 then 0 else load32 (mem s) (freelist s))"
    by (simp add: allocated_def)
  then show ?thesis
    using assms page_ok_frame [OF fr] fr lock_frame_free [of s "allocated s" KmemLock]
    by (cases ps) (auto simp: kmem_inv_def kmem_frame_def)
qed

text \<open>A write into a page that is not free does not disturb the free list.\<close>

lemma kmem_inv_write:
  assumes inv: "kmem_inv s ps" and same: "\<And>q a. q \<in> set ps \<Longrightarrow> in_page q a \<Longrightarrow> m a = mem s a"
  shows "kmem_inv (s\<lparr>mem := m\<rparr>) ps"
  using inv flist_cong [of ps m "mem s" "freelist s"] same by (simp add: kmem_inv_def)

section \<open>\<open>freerange\<close> and the boot-time initialisation\<close>

text \<open>The \<open>n\<close> pages from \<open>p\<close> upwards.\<close>

definition pages_from :: "uint \<Rightarrow> nat \<Rightarrow> uint list" where
  "pages_from p n = map (\<lambda>i. p + of_nat i * PGSIZE) [0..<n]"

lemma pages_from_0 [simp]: "pages_from p 0 = []"
  by (simp add: pages_from_def)

lemma pages_from_Suc: "pages_from p (Suc n) = p # pages_from (p + PGSIZE) n"
  unfolding pages_from_def by (simp only: upt_conv_Cons_Cons map_Suc_upt [symmetric] upt_rec [of 0 "Suc n"])
    (simp add: algebra_simps)

lemma freerange_loop_spec:
  assumes "kmem_inv s ps" "unat p + 4096 * n \<le> unat vend" "unat vend < unat p + 4096 * n + 4096"
    and "unat vend + 4096 < 2 ^ 32"
    and "\<forall>q \<in> set (pages_from p n). page_ok s q \<and> q \<notin> set ps" "distinct (pages_from p n)"
  shows "\<exists>t. freerange_loop p vend s = Ok () t \<and> kmem_inv t (rev (pages_from p n) @ ps) \<and> kmem_frame s t"
  using assms
proof (induction n arbitrary: p s ps)
  case 0
  have "unat (p + PGSIZE) = unat p + 4096"
    using 0 by (simp add: unat_plus_lt PGSIZE_def)
  then have "\<not> p + PGSIZE \<le> vend" using 0 by (simp add: word_le_nat_alt)
  then show ?case using 0 by (simp add: freerange_loop.simps [of p vend s])
next
  case (Suc n)
  have up: "unat (p + PGSIZE) = unat p + 4096" using Suc.prems by (simp add: unat_plus_lt PGSIZE_def)
  then have le: "p + PGSIZE \<le> vend" using Suc.prems by (simp add: word_le_nat_alt)
  have p: "page_ok s p" "p \<notin> set ps" using Suc.prems by (simp_all add: pages_from_Suc)
  have inv1: "kmem_inv (freed p s) (p # ps)" by (rule kmem_inv_freed [OF Suc.prems(1) p])
  have fr: "kmem_frame s (freed p s)" using Suc.prems(1) by (intro freed_frame) (simp add: kmem_inv_def)
  have "\<exists>t. freerange_loop (p + PGSIZE) vend (freed p s) = Ok () t
      \<and> kmem_inv t (rev (pages_from (p + PGSIZE) n) @ p # ps) \<and> kmem_frame (freed p s) t"
    using Suc.prems inv1 fr up
    by (intro Suc.IH) (auto simp: pages_from_Suc page_ok_frame)
  then obtain t where t: "freerange_loop (p + PGSIZE) vend (freed p s) = Ok () t"
      "kmem_inv t (rev (pages_from (p + PGSIZE) n) @ p # ps)" "kmem_frame (freed p s) t" by blast
  have "kfree p s = Ok () (freed p s)" using Suc.prems(1) p by (intro kfree_eq) (simp_all add: kmem_inv_def)
  with t le fr show ?case
    by (auto simp: freerange_loop.simps [of p vend s] pages_from_Suc intro: kmem_frame_trans)
qed

lemma PGROUNDDOWN_eq: "PGROUNDDOWN a = a - a mod PGSIZE"
proof -
  have "a AND NOT (mask 12) = a - take_bit 12 a"
  proof -
    have "(a AND NOT (mask 12)) + take_bit 12 a = a"
      by (subst disjunctive_add) (auto simp: bit_simps intro!: bit_word_eqI)
    then show ?thesis by (metis add_diff_cancel_right')
  qed
  then show ?thesis by (simp add: PGROUNDDOWN_def PGSIZE_def take_bit_eq_mod mask_eq_exp_minus_1)
qed

lemma unat_PGROUNDDOWN: "unat (PGROUNDDOWN a) = 4096 * (unat a div 4096)"
proof -
  have "unat (a mod PGSIZE) = unat a mod 4096" by (simp add: unat_mod PGSIZE_def)
  moreover have "a mod PGSIZE \<le> a" by (simp add: word_le_nat_alt unat_mod)
  ultimately have "unat (a - a mod PGSIZE) = unat a - unat a mod 4096" by (simp only: unat_sub)
  then show ?thesis by (simp only: PGROUNDDOWN_eq minus_mod_eq_mult_div)
qed

lemma PGROUNDUP_eq: "PGROUNDUP a = PGROUNDDOWN (a + 4095)"
  by (simp add: PGROUNDUP_def PGROUNDDOWN_def PGSIZE_def add.commute)

lemma unat_PGROUNDUP: "unat a + 4095 < 2 ^ 32 \<Longrightarrow> unat (PGROUNDUP a) = 4096 * ((unat a + 4095) div 4096)"
  by (simp add: PGROUNDUP_eq unat_PGROUNDDOWN unat_plus_lt)

lemma page_of_multiple: "unat p = 4096 * k \<Longrightarrow> p mod PGSIZE = 0"
  by (simp add: word_unat_eq_iff unat_mod PGSIZE_def)

lemma unat_page_nth:
  assumes "unat p + 4096 * i < 2 ^ 32"
  shows "unat (p + of_nat i * PGSIZE) = unat p + 4096 * i"
proof -
  have "of_nat i * PGSIZE = (of_nat (4096 * i) :: uint)" by (simp add: PGSIZE_def)
  moreover have "unat (of_nat (4096 * i) :: uint) = 4096 * i" using assms by (intro unat_word_of_nat) simp
  ultimately show ?thesis using assms by (simp only: unat_plus_lt)
qed

lemma distinct_pages_from:
  assumes "unat p + 4096 * n \<le> 2 ^ 32"
  shows "distinct (pages_from p n)"
proof -
  have "inj_on (\<lambda>i. p + of_nat i * PGSIZE) {0..<n}"
  proof (rule inj_onI)
    fix i j assume *: "i \<in> {0..<n}" "j \<in> {0..<n}" "p + of_nat i * PGSIZE = p + of_nat j * PGSIZE"
    have "unat (p + of_nat i * PGSIZE) = unat p + 4096 * i" "unat (p + of_nat j * PGSIZE) = unat p + 4096 * j"
      using *(1,2) assms by (intro unat_page_nth; simp)+
    with *(3) have "unat p + 4096 * i = unat p + 4096 * j" by (simp only:)
    then show "i = j" by simp
  qed
  then show ?thesis by (simp add: pages_from_def distinct_map)
qed

lemma set_pages_from:
  assumes "unat p = 4096 * k" "unat p + 4096 * n \<le> 2 ^ 32"
  shows "set (pages_from p n) = {q. q mod PGSIZE = 0 \<and> unat p \<le> unat q \<and> unat q < unat p + 4096 * n}"
    (is "?L = ?R")
proof
  show "?L \<subseteq> ?R"
  proof
    fix q assume "q \<in> ?L"
    then obtain i where i: "i < n" "q = p + of_nat i * PGSIZE" by (auto simp: pages_from_def)
    have "unat q = unat p + 4096 * i" using i assms by (simp add: unat_page_nth)
    then show "q \<in> ?R" using i assms page_of_multiple [of q "k + i"] by simp
  qed
  show "?R \<subseteq> ?L"
  proof
    fix q assume q: "q \<in> ?R"
    then obtain j where j: "unat q = 4096 * j" using page_multiple [of q] by auto
    have "j - k < n" "unat q = unat p + 4096 * (j - k)" using q j assms by auto
    moreover from this have "q = p + of_nat (j - k) * PGSIZE"
      using assms by (intro word_unat_eq_iff [THEN iffD2]) (simp add: unat_page_nth)
    ultimately show "q \<in> ?L" unfolding pages_from_def by auto
  qed
qed

lemma kmem_inv_use_lock:
  "kmem_inv s ps \<Longrightarrow> lock_free KmemLock s \<Longrightarrow> kmem_inv (s\<lparr>use_lock := b\<rparr>) ps"
  using spin.ctl_free [of "s\<lparr>use_lock := c\<rparr>" s KmemLock for c] by (simp add: kmem_inv_def)

text \<open>\<open>freerange\<close> frees exactly the whole pages of its argument range.\<close>

lemma freerange_spec:
  assumes inv: "kmem_inv s ps" and lo: "unat vstart + 4095 \<le> unat vend"
    and hi: "unat vend = 4096 * k" "unat vend + 4096 < 2 ^ 32"
    and ok: "\<And>q. q mod PGSIZE = 0 \<Longrightarrow> vstart \<le> q \<Longrightarrow> q < vend \<Longrightarrow> page_ok s q \<and> q \<notin> set ps"
  shows "\<exists>t qs. freerange vstart vend s = Ok () t \<and> kmem_inv t (qs @ ps) \<and> kmem_frame s t
    \<and> set qs = {q. q mod PGSIZE = 0 \<and> vstart \<le> q \<and> q < vend}"
proof -
  define p where "p = PGROUNDUP vstart"
  define j where "j = (unat vstart + 4095) div 4096"
  have p: "unat p = 4096 * j" using lo hi by (simp add: p_def j_def unat_PGROUNDUP)
  have j: "j \<le> k" "unat vstart \<le> 4096 * j" "4096 * j < unat vstart + 4096"
    using div_page_iff [of "unat vstart + 4095" j] lo hi by (simp_all add: j_def [symmetric])
  have n: "unat p + 4096 * (k - j) = unat vend" using p j hi by simp
  have set: "set (pages_from p (k - j)) = {q. q mod PGSIZE = 0 \<and> vstart \<le> q \<and> q < vend}"
  proof -
    have "unat p \<le> unat q \<longleftrightarrow> unat vstart \<le> unat q" if al: "q mod PGSIZE = 0" for q
    proof -
      obtain i where "unat q = 4096 * i" using page_multiple [OF al] .
      then have i: "unat q = 4096 * i" .
      have "j \<le> i" if "unat vstart \<le> unat q"
        using that j(3) i by simp
      with i p j(2) show ?thesis by auto
    qed
    moreover have "set (pages_from p (k - j)) = {q. q mod PGSIZE = 0 \<and> unat p \<le> unat q \<and> unat q < unat vend}"
      unfolding n [symmetric] using n hi(2) by (intro set_pages_from [OF p]) simp
    ultimately show ?thesis by (simp add: word_le_nat_alt word_less_nat_alt cong: conj_cong)
  qed
  have "\<exists>t. freerange_loop p vend s = Ok () t \<and> kmem_inv t (rev (pages_from p (k - j)) @ ps) \<and> kmem_frame s t"
    using n hi(2) ok set by (intro freerange_loop_spec [OF inv] distinct_pages_from) auto
  then obtain t where t: "freerange_loop p vend s = Ok () t" "kmem_inv t (rev (pages_from p (k - j)) @ ps)"
    "kmem_frame s t" by blast
  show ?thesis
    by (intro exI [of _ t] exI [of _ "rev (pages_from p (k - j))"] conjI)
      (simp_all only: freerange_def p_def [symmetric] t set set_rev)
qed

text \<open>The part of the boot sequence of \<open>main\<close> that fills the allocator.\<close>

definition kinit_boot :: "uint \<Rightarrow> ('z kmem_scheme, unit) kern" where
  "kinit_boot e = kbind (kinit1 e (P2V (4*1024*1024))) (\<lambda>_. kinit2 (P2V (4*1024*1024)) (P2V PHYSTOP))"

lemma kinit_boot_spec:
  assumes st: "locks_ok s" "locked (locks s KmemLock) = 0" "freelist s = 0"
    and e: "KERNBASE < kend s" "unat (kend s) + 4095 \<le> unat (P2V (4*1024*1024))"
  shows "\<exists>t ps. kinit_boot (kend s) s = Ok () t \<and> use_lock t \<and> kmem_inv t ps \<and> kend t = kend s
    \<and> set ps = {p. page_ok s p}"
proof -
  define s0 where "s0 = (upd_lock KmemLock (\<lambda>l. l\<lparr>lname := ''kmem'', locked := 0, lcpu := None\<rparr>) s)\<lparr>use_lock := False\<rparr>"
  have lim: "unat (P2V (4*1024*1024)) = 4096 * 525312" "unat (P2V PHYSTOP) = 4096 * 581632"
    "unat (P2V (4*1024*1024)) + 4096 < 2 ^ 32" "unat (P2V PHYSTOP) + 4096 < 2 ^ 32"
    by (simp_all add: P2V_def KERNBASE_def PHYSTOP_def)
  have fr0: "lock_frame s s0"
    using st by (simp add: lock_frame_def s0_def lock_view_def)
  have lf: "lock_free KmemLock s0"
    using lock_frame_free [OF fr0, of KmemLock] st by (simp add: lock_free_def)
  have k0: "kend s0 = kend s" by (simp add: s0_def upd_lock_def)
  have ok: "page_ok s0 q \<longleftrightarrow> q mod PGSIZE = 0 \<and> kend s \<le> q \<and> q < P2V PHYSTOP" if "kend s \<le> q" for q
  proof -
    have "KERNBASE \<le> q" using e(1) that by simp
    then have "V2P q < PHYSTOP \<longleftrightarrow> q < P2V PHYSTOP"
      unfolding V2P_def P2V_def PHYSTOP_def KERNBASE_def by unat_arith
    then show ?thesis by (simp add: page_ok_def k0 not_less not_le)
  qed
  have "0 < kend s" using e(1) by (simp add: word_less_nat_alt)
  then have inv0: "kmem_inv s0 []"
    using st(3) lf unfolding kmem_inv_def k0 by (simp add: s0_def upd_lock_def)
  have mono: "P2V (4*1024*1024) < P2V PHYSTOP" "kend s \<le> P2V (4*1024*1024)"
    using lim e(2) by (simp_all only: word_less_nat_alt word_le_nat_alt)
  have ok1: "page_ok s0 q \<and> q \<notin> set []" if "q mod PGSIZE = 0" "kend s \<le> q" "q < P2V (4*1024*1024)" for q
    using ok [OF that(2)] that mono(1) by simp
  obtain t1 p1 where t1: "freerange (kend s) (P2V (4*1024*1024)) s0 = Ok () t1" "kmem_inv t1 (p1 @ [])"
      "kmem_frame s0 t1" "set p1 = {q. q mod PGSIZE = 0 \<and> kend s \<le> q \<and> q < P2V (4*1024*1024)}"
    using freerange_spec [OF inv0 e(2) lim(1) lim(3) ok1] by blast
  have ok2: "page_ok t1 q \<and> q \<notin> set (p1 @ [])"
    if "q mod PGSIZE = 0" "P2V (4*1024*1024) \<le> q" "q < P2V PHYSTOP" for q
    using ok [of q] that mono t1(3,4) by (simp add: page_ok_frame not_less)
  have lo2: "unat (P2V (4*1024*1024)) + 4095 \<le> unat (P2V PHYSTOP)" by (simp only: lim)
  obtain t2 p2 where t2: "freerange (P2V (4*1024*1024)) (P2V PHYSTOP) t1 = Ok () t2" "kmem_inv t2 (p2 @ p1 @ [])"
      "kmem_frame t1 t2" "set p2 = {q. q mod PGSIZE = 0 \<and> P2V (4*1024*1024) \<le> q \<and> q < P2V PHYSTOP}"
    using freerange_spec [OF t1(2) lo2 lim(2) lim(4) ok2] by blast
  have fr: "kmem_frame s0 t2" using t1(3) t2(3) by (rule kmem_frame_trans)
  have run: "kinit_boot (kend s) s = Ok () (t2\<lparr>use_lock := True\<rparr>)"
    using t1(1) t2(1) by (simp add: kinit_boot_def kinit1_def kinit2_def initlock_def kbind_apply s0_def)
  have inv: "kmem_inv (t2\<lparr>use_lock := True\<rparr>) (p2 @ p1)"
    using t2(2) lf lock_frame_free [of s0 t2 KmemLock] fr
    by (intro kmem_inv_use_lock) (simp_all add: kmem_frame_def)
  have pk: "page_ok s q \<longleftrightarrow> q mod PGSIZE = 0 \<and> kend s \<le> q \<and> q < P2V PHYSTOP" for q
    using ok [of q] by (cases "kend s \<le> q") (auto simp: page_ok_def k0 not_less)
  have "q \<in> set (p2 @ p1) \<longleftrightarrow> page_ok s q" for q
  proof -
    have "q < P2V (4*1024*1024) \<longrightarrow> q < P2V PHYSTOP" "P2V (4*1024*1024) \<le> q \<longrightarrow> kend s \<le> q"
      "q < P2V (4*1024*1024) \<or> P2V (4*1024*1024) \<le> q"
      using mono by (auto simp: not_less)
    then show ?thesis unfolding pk set_append Un_iff t1(4) t2(4) mem_Collect_eq by argo
  qed
  then have set: "set (p2 @ p1) = {q. page_ok s q}" by blast
  show ?thesis
    using run inv set fr k0 by (intro exI [of _ "t2\<lparr>use_lock := True\<rparr>"] exI [of _ "p2 @ p1"]) (simp add: kmem_frame_def)
qed

section \<open>The contract of the allocator\<close>

text \<open>What the owners of pages do: allocate, free a page they own, write a byte into one.\<close>

datatype page_op = PgAlloc | PgFree uint | PgWrite uint uint uchar

text \<open>
  A run of page operations, over any allocator; \<open>own\<close> are the pages handed out. A client
  only frees and writes pages it owns.
\<close>

fun run_pages :: "('s, uint) kern \<Rightarrow> (uint \<Rightarrow> ('s, unit) kern) \<Rightarrow> (uint \<Rightarrow> uchar \<Rightarrow> 's \<Rightarrow> 's)
    \<Rightarrow> page_op list \<Rightarrow> uint list \<Rightarrow> ('s, uint list) kern" where
  "run_pages alloc dealloc poke [] own = kret own"
| "run_pages alloc dealloc poke (PgAlloc # ops) own =
     kbind alloc (\<lambda>p. run_pages alloc dealloc poke ops (if p = 0 then own else p # own))"
| "run_pages alloc dealloc poke (PgFree p # ops) own =
     (if p \<in> set own then kbind (dealloc p) (\<lambda>_. run_pages alloc dealloc poke ops (remove1 p own))
      else run_pages alloc dealloc poke ops own)"
| "run_pages alloc dealloc poke (PgWrite p i v # ops) own =
     (if p \<in> set own then kbind (kmod (poke (p + i mod PGSIZE) v)) (\<lambda>_. run_pages alloc dealloc poke ops own)
      else run_pages alloc dealloc poke ops own)"

text \<open>The page an operation writes to.\<close>

fun op_page :: "page_op \<Rightarrow> uint option" where
  "op_page PgAlloc = None"
| "op_page (PgFree p) = Some p"
| "op_page (PgWrite p i v) = Some p"

text \<open>The pages no operation of \<open>ops\<close> mentions keep their owner and their contents.\<close>

definition pages_kept :: "('s \<Rightarrow> uint \<Rightarrow> uchar) \<Rightarrow> page_op list \<Rightarrow> uint list \<Rightarrow> 's \<Rightarrow> uint list \<Rightarrow> 's \<Rightarrow> bool" where
  "pages_kept peek ops own s own' t \<longleftrightarrow>
     (\<forall>q \<in> set own. Some q \<notin> op_page ` set ops \<longrightarrow>
        q \<in> set own' \<and> (\<forall>a. in_page q a \<longrightarrow> peek t a = peek s a))"

lemma pages_kept_Cons:
  assumes "pages_kept peek ops own1 s1 own' t"
    and "\<And>q. q \<in> set own \<Longrightarrow> op_page op \<noteq> Some q \<Longrightarrow> q \<in> set own1 \<and> (\<forall>a. in_page q a \<longrightarrow> peek s1 a = peek s a)"
  shows "pages_kept peek (op # ops) own s own' t"
  using assms unfolding pages_kept_def by auto

locale page_allocator =
  fixes alloc :: "('s, uint) kern"
    and dealloc :: "uint \<Rightarrow> ('s, unit) kern"
    and poke :: "uint \<Rightarrow> uchar \<Rightarrow> 's \<Rightarrow> 's"
    and peek :: "'s \<Rightarrow> uint \<Rightarrow> uchar"
    and avail :: "'s \<Rightarrow> uint list \<Rightarrow> bool"
    and legal :: "'s \<Rightarrow> uint \<Rightarrow> bool"
  assumes avail_legal: "avail s ps \<Longrightarrow> distinct ps \<and> 0 \<notin> set ps \<and> (\<forall>p \<in> set ps. legal s p)"
    and alloc_some: "avail s (p # ps) \<Longrightarrow>
      \<exists>t. alloc s = Ok p t \<and> avail t ps \<and> peek t = peek s \<and> legal t = legal s"
    and alloc_none: "avail s [] \<Longrightarrow>
      \<exists>t. alloc s = Ok 0 t \<and> avail t [] \<and> peek t = peek s \<and> legal t = legal s"
    and dealloc_ok: "avail s ps \<Longrightarrow> legal s p \<Longrightarrow> p \<notin> set ps \<Longrightarrow>
      \<exists>t. dealloc p s = Ok () t \<and> avail t (p # ps) \<and> (\<forall>a. \<not> in_page p a \<longrightarrow> peek t a = peek s a)
        \<and> legal t = legal s"
    and poke_ok: "avail s ps \<Longrightarrow> legal s p \<Longrightarrow> p \<notin> set ps \<Longrightarrow> in_page p a \<Longrightarrow>
      avail (poke a v s) ps \<and> peek (poke a v s) = (peek s)(a := v) \<and> legal (poke a v s) = legal s"
    and legal_page: "legal s p \<Longrightarrow> p mod PGSIZE = 0"
begin

text \<open>No page is lost, none is handed out twice, and a page is only changed by its owner.\<close>

lemma run_conserves:
  assumes "avail s ps" "distinct (own @ ps)" "\<forall>p \<in> set own. legal s p \<and> p \<noteq> 0"
  shows "\<exists>own' t ps'. run_pages alloc dealloc poke ops own s = Ok own' t \<and> avail t ps'
    \<and> distinct (own' @ ps') \<and> set own' \<union> set ps' = set own \<union> set ps \<and> pages_kept peek ops own s own' t"
  using assms
proof (induction ops arbitrary: s ps own)
  case Nil
  then show ?case by (auto simp: pages_kept_def)
next
  case (Cons op ops)
  txt \<open>One step to a state \<open>s1\<close> with pages \<open>own1\<close>, \<open>ps1\<close> is enough.\<close>
  have step: ?case
    if "run_pages alloc dealloc poke (op # ops) own s = run_pages alloc dealloc poke ops own1 s1"
      and "avail s1 ps1" "distinct (own1 @ ps1)" "set own1 \<union> set ps1 = set own \<union> set ps" "legal s1 = legal s"
      and "\<And>q. q \<in> set own \<Longrightarrow> op_page op \<noteq> Some q \<Longrightarrow> q \<in> set own1 \<and> (\<forall>a. in_page q a \<longrightarrow> peek s1 a = peek s a)"
    for own1 s1 ps1
  proof -
    have "\<forall>p \<in> set own1. legal s1 p \<and> p \<noteq> 0"
      using that(4,5) Cons.prems(3) avail_legal [OF Cons.prems(1)] by (metis UnCI UnE)
    from Cons.IH [OF that(2,3) this] show ?thesis
      using that(1,4) pages_kept_Cons [OF _ that(6)] by metis
  qed
  have other: "q = p" if "q \<in> set own" "legal s p" "in_page q a" "in_page p a" for q p a
    using Cons.prems(3) that in_page_disjoint legal_page by metis
  show ?case
  proof (cases op)
    case PgAlloc
    show ?thesis
    proof (cases ps)
      case Nil
      with Cons.prems(1) alloc_none obtain t where
        "alloc s = Ok 0 t" "avail t []" "peek t = peek s" "legal t = legal s" by blast
      with Nil PgAlloc Cons.prems show ?thesis by (intro step [of own t "[]"]) auto
    next
      case (Cons p qs)
      with \<open>avail s ps\<close> alloc_some obtain t where
        "alloc s = Ok p t" "avail t qs" "peek t = peek s" "legal t = legal s" by blast
      moreover have "p \<noteq> 0" using avail_legal [OF \<open>avail s ps\<close>] Cons by auto
      ultimately show ?thesis using \<open>distinct (own @ ps)\<close> Cons PgAlloc
        by (intro step [of "p # own" t qs]) auto
    qed
  next
    case (PgFree p)
    show ?thesis
    proof (cases "p \<in> set own")
      case True
      with Cons.prems dealloc_ok [of s ps p] obtain t where t: "dealloc p s = Ok () t" "avail t (p # ps)"
        "\<forall>a. \<not> in_page p a \<longrightarrow> peek t a = peek s a" "legal t = legal s" by auto
      show ?thesis using True Cons.prems t PgFree other [of _ p]
        by (intro step [of "remove1 p own" t "p # ps"]) auto
    qed (use Cons.prems PgFree in \<open>intro step [of own s ps], auto\<close>)
  next
    case (PgWrite p i v)
    show ?thesis
    proof (cases "p \<in> set own")
      case True
      have a: "in_page p (p + i mod PGSIZE)" by (simp add: in_page_def unat_mod PGSIZE_def)
      have lp: "legal s p" "p \<notin> set ps" using True Cons.prems by auto
      show ?thesis using True Cons.prems PgWrite poke_ok [OF Cons.prems(1) lp a, of v] other [of _ p] lp a
        by (intro step [of own "poke (p + i mod PGSIZE) v s" ps]) auto
    qed (use Cons.prems PgWrite in \<open>intro step [of own s ps], auto\<close>)
  qed
qed

end

definition poke_mem :: "uint \<Rightarrow> uchar \<Rightarrow> 'z kmem_scheme \<Rightarrow> 'z kmem_scheme" where
  "poke_mem a v s = s\<lparr>mem := (mem s)(a := v)\<rparr>"

interpretation kpages: page_allocator kalloc kfree poke_mem mem kmem_inv page_ok
proof
  fix s :: "'a kmem_scheme" and p a v ps
  show "p mod PGSIZE = 0" if "page_ok s p" using that by (simp add: page_ok_def)
  have ne0: "q \<noteq> 0" if "kmem_inv s ps" "page_ok s q" for q ps
    using that by (auto simp: kmem_inv_def page_ok_def)
  then show "distinct ps \<and> 0 \<notin> set ps \<and> (\<forall>p\<in>set ps. page_ok s p)" if "kmem_inv s ps"
    using that by (auto simp: kmem_inv_def)
  have al: "kalloc s = Ok (freelist s) (allocated s)" "page_ok (allocated s) = page_ok s"
    if "kmem_inv s ps" for ps
    using that allocated_frame [of s] by (auto simp: kmem_inv_def kalloc_eq page_ok_frame fun_eq_iff)
  show "\<exists>t. kalloc s = Ok p t \<and> kmem_inv t ps \<and> mem t = mem s \<and> page_ok t = page_ok s"
    if "kmem_inv s (p # ps)"
    using al [OF that] kmem_inv_allocated [OF that] by simp
  show "\<exists>t. kalloc s = Ok 0 t \<and> kmem_inv t [] \<and> mem t = mem s \<and> page_ok t = page_ok s"
    if "kmem_inv s []"
    using al [OF that] kmem_inv_allocated [OF that] by simp
  show "\<exists>t. kfree p s = Ok () t \<and> kmem_inv t (p # ps) \<and> (\<forall>a. \<not> in_page p a \<longrightarrow> mem t a = mem s a)
      \<and> page_ok t = page_ok s" if "kmem_inv s ps" "page_ok s p" "p \<notin> set ps"
    using that kfree_eq [of s p] kmem_inv_freed [OF that] freed_frame [of s p] freed_mem [of p _ s]
    by (auto simp: kmem_inv_def page_ok_frame fun_eq_iff)
  show "kmem_inv (poke_mem a v s) ps \<and> mem (poke_mem a v s) = (mem s)(a := v)
      \<and> page_ok (poke_mem a v s) = page_ok s"
    if "kmem_inv s ps" "page_ok s p" "p \<notin> set ps" "in_page p a"
  proof -
    have "kmem_inv (s\<lparr>mem := (mem s)(a := v)\<rparr>) ps"
    proof (rule kmem_inv_write [OF that(1)])
      fix q b assume "q \<in> set ps" "in_page q b"
      then have "b \<noteq> a" using that in_page_disjoint [of q p a] by (auto simp: kmem_inv_def page_ok_def)
      then show "((mem s)(a := v)) b = mem s b" by simp
    qed
    then show ?thesis by (simp add: poke_mem_def fun_eq_iff)
  qed
qed

section \<open>Properties\<close>

text \<open>A state with an empty free list, the kernel image ending at \<open>0x80115000\<close>.\<close>

definition boot_kmem :: kmem where
  "boot_kmem =
     \<lparr>curcpu = 0, cpus = cpus boot_machine, locks = locks boot_machine, mem = (\<lambda>_. 0), argp = 0,
      use_lock = False, freelist = 0, kend = 0x80115000\<rparr>"

lemma boot_kmem_simps [simp]:
  "locks boot_kmem = locks boot_machine" "cpus boot_kmem = cpus boot_machine" "curcpu boot_kmem = 0"
  "freelist boot_kmem = 0" "kend boot_kmem = 0x80115000" "use_lock boot_kmem = False"
  by (simp_all add: boot_kmem_def)

lemma boot_kmem_locks_ok: "locks_ok boot_kmem"
  by (simp add: locks_ok_def held_by_def boot_machine_def cpu_ok_def)

lemma boot_kmem_inv: "kmem_inv boot_kmem []"
  by (simp add: kmem_inv_def)

text \<open>
  C3: conservation of pages. Whatever the owners do with \<open>kalloc\<close>, \<open>kfree\<close> and writes into
  pages they own, no call panics, the free list stays well formed, the owned and the free
  pages together are always the same set with no page in it twice, and a page nobody
  writes to or frees keeps its owner and its contents.
\<close>

theorem kalloc_conservation:
  assumes "kmem_inv s ps" "distinct (own @ ps)" "\<forall>p \<in> set own. page_ok s p"
  shows "\<exists>own' t ps'. run_pages kalloc kfree poke_mem ops own s = Ok own' t \<and> kmem_inv t ps'
    \<and> distinct (own' @ ps') \<and> set own' \<union> set ps' = set own \<union> set ps \<and> pages_kept mem ops own s own' t"
proof (rule kpages.run_conserves [OF assms(1,2)])
  show "\<forall>p\<in>set own. page_ok s p \<and> p \<noteq> 0"
    using assms(1,3) by (auto simp: kmem_inv_def page_ok_def)
qed

theorem kalloc_conservation_witness:
  "\<exists>own' t ps'. run_pages kalloc kfree poke_mem
      [PgWrite 0x80201000 8 7, PgFree 0x80200000, PgAlloc, PgAlloc] [0x80200000, 0x80201000] boot_kmem = Ok own' t
    \<and> kmem_inv t ps' \<and> set own' \<union> set ps' = {0x80200000, 0x80201000}"
proof -
  have "\<forall>p \<in> set [0x80200000, 0x80201000]. page_ok boot_kmem p"
    by (simp add: page_ok_def PGSIZE_def V2P_def PHYSTOP_def KERNBASE_def)
  from kalloc_conservation [OF boot_kmem_inv _ this] show ?thesis by fastforce
qed

text \<open>
  C22: the boot-time initialisation. Starting with an empty list, \<open>kinit1(end, P2V(4MB))\<close> and
  \<open>kinit2(P2V(4MB), P2V(PHYSTOP))\<close> end with exactly those pages on the free list that \<open>kfree\<close>
  accepts, each once, and with locking switched on.
\<close>

theorem kinit_all_free:
  assumes "locks_ok s" "locked (locks s KmemLock) = 0" "freelist s = 0"
    and "KERNBASE < kend s" "unat (kend s) + 4095 \<le> unat (P2V (4*1024*1024))"
  shows "\<exists>t ps. kinit_boot (kend s) s = Ok () t \<and> use_lock t \<and> kmem_inv t ps
    \<and> distinct ps \<and> set ps = {p. page_ok t p}"
proof -
  obtain t ps where t: "kinit_boot (kend s) s = Ok () t" "use_lock t" "kmem_inv t ps" "kend t = kend s"
    "set ps = {p. page_ok s p}" using kinit_boot_spec [OF assms] by blast
  have "page_ok t = page_ok s" using t(4) by (simp add: fun_eq_iff page_ok_def)
  with t show ?thesis by (auto simp: kmem_inv_def)
qed

theorem kinit_all_free_witness:
  "\<exists>t ps. kinit_boot 0x80115000 boot_kmem = Ok () t \<and> kmem_inv t ps \<and> set ps = {p. page_ok t p}"
proof -
  have "locks_ok boot_kmem" "locked (locks boot_kmem KmemLock) = 0" "freelist boot_kmem = 0"
    "KERNBASE < kend boot_kmem" "unat (kend boot_kmem) + 4095 \<le> unat (P2V (4*1024*1024))"
    using boot_kmem_locks_ok by (simp_all add: boot_machine_def KERNBASE_def P2V_def)
  from kinit_all_free [OF this] show ?thesis by auto
qed

end
