(* ===== verification/Vm.thy ===== *)
theory Vm
  imports Kalloc
begin

text \<open>
  Page tables and user address spaces (\<open>vm.c\<close>, with the address macros and the segment
  and task-state structures of \<open>mmu.h\<close>).

  Page directories and page tables live in the byte memory; the code walks them through
  kernel virtual addresses. \<open>pt_lookup\<close> is the page-table entry the hardware finds for a
  virtual address. The lemmas describe every routine by what it does to \<open>pt_lookup\<close>, to
  the set of free pages and to the rest of the memory.

  Loops over the address space are bounded by \<open>vm_rounds\<close>, one more than the number of
  pages of a 32-bit address space. \<open>kdata\<close> is the linker symbol \<open>data\<close>, \<open>cpu_addr\<close> the
  address of a CPU's \<open>cpu\<close> field; \<open>klog\<close> collects the messages the code prints.
\<close>

section \<open>\<open>mmu.h\<close>\<close>

definition PDX :: "uint \<Rightarrow> uint" where "PDX va = drop_bit 22 va AND 0x3FF"

definition PTX :: "uint \<Rightarrow> uint" where "PTX va = drop_bit 12 va AND 0x3FF"

definition PGADDR :: "uint \<Rightarrow> uint \<Rightarrow> uint \<Rightarrow> uint" where
  "PGADDR d t off = push_bit 22 d OR push_bit 12 t OR off"

definition PTE_P :: uint where "PTE_P = 1"

definition PTE_W :: uint where "PTE_W = 2"

definition PTE_U :: uint where "PTE_U = 4"

definition PTE_ADDR :: "uint \<Rightarrow> uint" where "PTE_ADDR pte = pte AND NOT 0xFFF"

definition PTE_FLAGS :: "uint \<Rightarrow> uint" where "PTE_FLAGS pte = pte AND 0xFFF"

definition EXTMEM :: uint where "EXTMEM = 0x100000"

definition DEVSPACE :: uint where "DEVSPACE = 0xFE000000"

definition KERNLINK :: uint where "KERNLINK = KERNBASE + EXTMEM"

definition KSTACKSIZE :: uint where "KSTACKSIZE = 4096"

record segdesc =
  lim_15_0 :: "16 word"
  base_15_0 :: "16 word"
  base_23_16 :: "8 word"
  seg_type :: "4 word"
  seg_s :: "1 word"
  seg_dpl :: "2 word"
  seg_p :: "1 word"
  lim_19_16 :: "4 word"
  seg_avl :: "1 word"
  seg_rsv1 :: "1 word"
  seg_db :: "1 word"
  seg_g :: "1 word"
  base_31_24 :: "8 word"

definition SEG :: "4 word \<Rightarrow> uint \<Rightarrow> uint \<Rightarrow> 2 word \<Rightarrow> segdesc" where
  "SEG ty base lim dpl =
     \<lparr>lim_15_0 = ucast (drop_bit 12 lim), base_15_0 = ucast base,
      base_23_16 = ucast (drop_bit 16 base), seg_type = ty, seg_s = 1, seg_dpl = dpl, seg_p = 1,
      lim_19_16 = ucast (drop_bit 28 lim), seg_avl = 0, seg_rsv1 = 0, seg_db = 1, seg_g = 1,
      base_31_24 = ucast (drop_bit 24 base)\<rparr>"

definition SEG16 :: "4 word \<Rightarrow> uint \<Rightarrow> uint \<Rightarrow> 2 word \<Rightarrow> segdesc" where
  "SEG16 ty base lim dpl =
     \<lparr>lim_15_0 = ucast lim, base_15_0 = ucast base,
      base_23_16 = ucast (drop_bit 16 base), seg_type = ty, seg_s = 1, seg_dpl = dpl, seg_p = 1,
      lim_19_16 = ucast (drop_bit 16 lim), seg_avl = 0, seg_rsv1 = 0, seg_db = 1, seg_g = 0,
      base_31_24 = ucast (drop_bit 24 base)\<rparr>"

text \<open>The fields of \<open>struct taskstate\<close> the kernel sets.\<close>

record taskstate =
  ts_esp0 :: uint
  ts_ss0 :: ushort
  ts_iomb :: ushort

section \<open>\<open>vm.c\<close>\<close>

record vm = kmem +
  kpgdir :: uint
  kdata :: uint
  cr3 :: "nat \<Rightarrow> uint"
  gdt :: "nat \<Rightarrow> segdesc list"
  gdtr :: "nat \<Rightarrow> segdesc list"
  gs :: "nat \<Rightarrow> ushort"
  ts :: "nat \<Rightarrow> taskstate"
  tr :: "nat \<Rightarrow> ushort"
  cpu_addr :: "nat \<Rightarrow> uint"
  ts_addr :: "nat \<Rightarrow> uint"
  klog :: "string list"

definition kprint :: "string \<Rightarrow> ('z vm_scheme, unit) kern" where
  "kprint msg = kmod (\<lambda>s. s\<lparr>klog := klog s @ [msg]\<rparr>)"

definition set_gdt :: "nat \<Rightarrow> segdesc \<Rightarrow> ('z vm_scheme, unit) kern" where
  "set_gdt i d = kmod (\<lambda>s. s\<lparr>gdt := (gdt s)(curcpu s := (gdt s (curcpu s))[i := d])\<rparr>)"

definition seginit :: "('z vm_scheme, unit) kern" where
  "seginit = kseq
     [set_gdt 1 (SEG (8 OR 2) 0 0xffffffff 0),
      set_gdt 2 (SEG 2 0 0xffffffff 0),
      set_gdt 4 (SEG (8 OR 2) 0 0xffffffff 3),
      set_gdt 5 (SEG 2 0 0xffffffff 3),
      (\<lambda>s. set_gdt 3 (SEG 2 (cpu_addr s (curcpu s)) 8 0) s),
      kmod (\<lambda>s. s\<lparr>gdtr := (gdtr s)(curcpu s := gdt s (curcpu s))\<rparr>),
      kmod (\<lambda>s. s\<lparr>gs := (gs s)(curcpu s := push_bit 3 3)\<rparr>),
      kmod (upd_mycpu (\<lambda>c. c\<lparr>cproc := None\<rparr>))]
     (kret ())"

definition walkpgdir :: "uint \<Rightarrow> uint \<Rightarrow> bool \<Rightarrow> ('z kmem_scheme, uint) kern" where
  "walkpgdir pgdir va alloc =
     kbind (kget (\<lambda>s. load32 (mem s) (pgdir + 4 * PDX va))) (\<lambda>pde.
     if pde AND PTE_P \<noteq> 0 then kret (P2V (PTE_ADDR pde) + 4 * PTX va)
     else if \<not> alloc then kret 0
     else kbind kalloc (\<lambda>pgtab.
       if pgtab = 0 then kret 0
       else kseq
         [kmod (\<lambda>s. s\<lparr>mem := memset (mem s) pgtab 0 PGSIZE\<rparr>),
          kmod (\<lambda>s. s\<lparr>mem := store32 (mem s) (pgdir + 4 * PDX va) (V2P pgtab OR PTE_P OR PTE_W OR PTE_U)\<rparr>)]
         (kret (pgtab + 4 * PTX va))))"

definition vm_rounds :: nat where "vm_rounds = 1048577"

fun mappages_body :: "uint \<Rightarrow> uint \<Rightarrow> uint \<Rightarrow> uint \<times> uint \<Rightarrow> ('z kmem_scheme, uint \<times> uint + int) kern" where
  "mappages_body pgdir lst perm (a, pa) =
     kbind (walkpgdir pgdir a True) (\<lambda>pte.
     if pte = 0 then kret (Inr (- 1))
     else kseq
       [kassert (\<lambda>s. \<not> load32 (mem s) pte AND PTE_P \<noteq> 0) ''remap'',
        kmod (\<lambda>s. s\<lparr>mem := store32 (mem s) pte (pa OR perm OR PTE_P)\<rparr>)]
       (kret (if a = lst then Inr 0 else Inl (a + PGSIZE, pa + PGSIZE))))"

definition mappages :: "uint \<Rightarrow> uint \<Rightarrow> uint \<Rightarrow> uint \<Rightarrow> uint \<Rightarrow> ('z kmem_scheme, int) kern" where
  "mappages pgdir va sz pa perm =
     kloop vm_rounds (mappages_body pgdir (PGROUNDDOWN (va + sz - 1)) perm) (PGROUNDDOWN va, pa)"

record kmap =
  km_virt :: uint
  km_phys_start :: uint
  km_phys_end :: uint
  km_perm :: uint

definition kmap_table :: "uint \<Rightarrow> kmap list" where
  "kmap_table data =
     [\<lparr>km_virt = KERNBASE, km_phys_start = 0, km_phys_end = EXTMEM, km_perm = PTE_W\<rparr>,
      \<lparr>km_virt = KERNLINK, km_phys_start = V2P KERNLINK, km_phys_end = V2P data, km_perm = 0\<rparr>,
      \<lparr>km_virt = data, km_phys_start = V2P data, km_phys_end = PHYSTOP, km_perm = PTE_W\<rparr>,
      \<lparr>km_virt = DEVSPACE, km_phys_start = DEVSPACE, km_phys_end = 0, km_perm = PTE_W\<rparr>]"

primrec setupkvm_loop :: "uint \<Rightarrow> kmap list \<Rightarrow> ('z kmem_scheme, uint) kern" where
  "setupkvm_loop pgdir [] = kret pgdir"
| "setupkvm_loop pgdir (k # ks) =
     kbind (mappages pgdir (km_virt k) (km_phys_end k - km_phys_start k) (km_phys_start k) (km_perm k)) (\<lambda>r.
     if r < 0 then kret 0 else setupkvm_loop pgdir ks)"

definition setupkvm :: "('z vm_scheme, uint) kern" where
  "setupkvm =
     kbind kalloc (\<lambda>pgdir.
     if pgdir = 0 then kret 0
     else kseq
       [kmod (\<lambda>s. s\<lparr>mem := memset (mem s) pgdir 0 PGSIZE\<rparr>),
        kassert (\<lambda>s. \<not> P2V PHYSTOP > DEVSPACE) ''PHYSTOP too high'']
       (kbind (kget kdata) (\<lambda>data. setupkvm_loop pgdir (kmap_table data))))"

definition lcr3 :: "uint \<Rightarrow> ('z vm_scheme, unit) kern" where
  "lcr3 v = kmod (\<lambda>s. s\<lparr>cr3 := (cr3 s)(curcpu s := v)\<rparr>)"

definition switchkvm :: "('z vm_scheme, unit) kern" where
  "switchkvm = kbind (kget kpgdir) (\<lambda>d. lcr3 (V2P d))"

definition kvmalloc :: "('z vm_scheme, unit) kern" where
  "kvmalloc = kbind setupkvm (\<lambda>d. kseq [kmod (\<lambda>s. s\<lparr>kpgdir := d\<rparr>), switchkvm] (kret ()))"

text \<open>\<open>switchuvm\<close> for a process with the given kernel stack and page directory.\<close>

definition switchuvm :: "uint \<Rightarrow> uint \<Rightarrow> ('z vm_scheme, unit) kern" where
  "switchuvm kstack pgdir = kseq
     [kassert (\<lambda>s. \<not> kstack = 0) ''switchuvm: no kstack'',
      kassert (\<lambda>s. \<not> pgdir = 0) ''switchuvm: no pgdir'',
      pushcli,
      (\<lambda>s. set_gdt 6 ((SEG16 9 (ts_addr s (curcpu s)) (104 - 1) 0)) s),
      (\<lambda>s. set_gdt 6 ((gdt s (curcpu s) ! 6)\<lparr>seg_s := 0\<rparr>) s),
      kmod (\<lambda>s. s\<lparr>ts := (ts s)(curcpu s := (ts s (curcpu s))\<lparr>ts_ss0 := push_bit 3 2\<rparr>)\<rparr>),
      kmod (\<lambda>s. s\<lparr>ts := (ts s)(curcpu s := (ts s (curcpu s))\<lparr>ts_esp0 := kstack + KSTACKSIZE\<rparr>)\<rparr>),
      kmod (\<lambda>s. s\<lparr>ts := (ts s)(curcpu s := (ts s (curcpu s))\<lparr>ts_iomb := 0xFFFF\<rparr>)\<rparr>),
      kmod (\<lambda>s. s\<lparr>tr := (tr s)(curcpu s := push_bit 3 6)\<rparr>),
      lcr3 (V2P pgdir),
      popcli]
     (kret ())"

definition inituvm :: "uint \<Rightarrow> uint \<Rightarrow> uint \<Rightarrow> ('z kmem_scheme, unit) kern" where
  "inituvm pgdir init sz =
     kbind (kassert (\<lambda>s. \<not> sz \<ge> PGSIZE) ''inituvm: more than a page'') (\<lambda>_.
     kbind kalloc (\<lambda>mem0. kseq
       [kmod (\<lambda>s. s\<lparr>mem := memset (mem s) mem0 0 PGSIZE\<rparr>),
        kbind (mappages pgdir 0 PGSIZE (V2P mem0) (PTE_W OR PTE_U)) (\<lambda>_. kret ()),
        kmod (\<lambda>s. s\<lparr>mem := memmove (mem s) mem0 init sz\<rparr>)]
       (kret ())))"

definition deallocuvm_body :: "uint \<Rightarrow> uint \<Rightarrow> uint \<Rightarrow> uint \<Rightarrow> ('z kmem_scheme, uint + uint) kern" where
  "deallocuvm_body pgdir oldsz newsz a =
     (if \<not> a < oldsz then kret (Inr newsz)
      else kbind (walkpgdir pgdir a False) (\<lambda>pte.
        if pte = 0 then kret (Inl (PGADDR (PDX a + 1) 0 0 - PGSIZE + PGSIZE))
        else kbind (kget (\<lambda>s. load32 (mem s) pte)) (\<lambda>e.
          if e AND PTE_P \<noteq> 0 then kseq
            [kassert (\<lambda>s. \<not> PTE_ADDR e = 0) ''kfree'',
             kfree (P2V (PTE_ADDR e)),
             kmod (\<lambda>s. s\<lparr>mem := store32 (mem s) pte 0\<rparr>)]
            (kret (Inl (a + PGSIZE)))
          else kret (Inl (a + PGSIZE)))))"

definition deallocuvm :: "uint \<Rightarrow> uint \<Rightarrow> uint \<Rightarrow> ('z kmem_scheme, uint) kern" where
  "deallocuvm pgdir oldsz newsz =
     (if newsz \<ge> oldsz then kret oldsz
      else kloop vm_rounds (deallocuvm_body pgdir oldsz newsz) (PGROUNDUP newsz))"

definition allocuvm_body :: "uint \<Rightarrow> uint \<Rightarrow> uint \<Rightarrow> uint \<Rightarrow> ('z vm_scheme, uint + uint) kern" where
  "allocuvm_body pgdir oldsz newsz a =
     (if \<not> a < newsz then kret (Inr newsz)
      else kbind kalloc (\<lambda>mem0.
        if mem0 = 0 then kseq
          [kprint ''allocuvm out of memory'',
           kbind (deallocuvm pgdir newsz oldsz) (\<lambda>_. kret ())]
          (kret (Inr 0))
        else kseq
          [kmod (\<lambda>s. s\<lparr>mem := memset (mem s) mem0 0 PGSIZE\<rparr>)]
          (kbind (mappages pgdir a PGSIZE (V2P mem0) (PTE_W OR PTE_U)) (\<lambda>r.
           if r < 0 then kseq
             [kprint ''allocuvm out of memory (2)'',
              kbind (deallocuvm pgdir newsz oldsz) (\<lambda>_. kret ()),
              kfree mem0]
             (kret (Inr 0))
           else kret (Inl (a + PGSIZE))))))"

definition allocuvm :: "uint \<Rightarrow> uint \<Rightarrow> uint \<Rightarrow> ('z vm_scheme, uint) kern" where
  "allocuvm pgdir oldsz newsz =
     (if newsz \<ge> KERNBASE then kret 0
      else if newsz < oldsz then kret oldsz
      else kloop vm_rounds (allocuvm_body pgdir oldsz newsz) (PGROUNDUP oldsz))"

definition freevm :: "uint \<Rightarrow> ('z kmem_scheme, unit) kern" where
  "freevm pgdir = kseq
     [kassert (\<lambda>s. \<not> pgdir = 0) ''freevm: no pgdir'',
      kbind (deallocuvm pgdir KERNBASE 0) (\<lambda>_. kret ()),
      kfor [0..<1024] (\<lambda>i.
        kbind (kget (\<lambda>s. load32 (mem s) (pgdir + 4 * of_nat i))) (\<lambda>e.
        if e AND PTE_P \<noteq> 0 then kfree (P2V (PTE_ADDR e)) else kret ())),
      kfree pgdir]
     (kret ())"

definition clearpteu :: "uint \<Rightarrow> uint \<Rightarrow> ('z kmem_scheme, unit) kern" where
  "clearpteu pgdir uva =
     kbind (walkpgdir pgdir uva False) (\<lambda>pte. kseq
       [kassert (\<lambda>s. \<not> pte = 0) ''clearpteu'',
        kmod (\<lambda>s. s\<lparr>mem := store32 (mem s) pte (load32 (mem s) pte AND NOT PTE_U)\<rparr>)]
       (kret ()))"

definition copyuvm_body :: "uint \<Rightarrow> uint \<Rightarrow> uint \<Rightarrow> uint \<Rightarrow> ('z vm_scheme, uint + uint) kern" where
  "copyuvm_body pgdir sz d i =
     (if \<not> i < sz then kret (Inr d)
      else kbind (walkpgdir pgdir i False) (\<lambda>pte.
        kbind (kassert (\<lambda>s. \<not> pte = 0) ''copyuvm: pte should exist'') (\<lambda>_.
        kbind (kget (\<lambda>s. load32 (mem s) pte)) (\<lambda>e.
        kbind (kassert (\<lambda>s. \<not> e AND PTE_P = 0) ''copyuvm: page not present'') (\<lambda>_.
        kbind kalloc (\<lambda>mem0.
        if mem0 = 0 then kbind (freevm d) (\<lambda>_. kret (Inr 0))
        else kbind (kmod (\<lambda>s. s\<lparr>mem := memmove (mem s) mem0 (P2V (PTE_ADDR e)) PGSIZE\<rparr>)) (\<lambda>_.
          kbind (mappages d i PGSIZE (V2P mem0) (PTE_FLAGS e)) (\<lambda>r.
          if r < 0 then kbind (freevm d) (\<lambda>_. kret (Inr 0))
          else kret (Inl (i + PGSIZE))))))))))"

definition copyuvm :: "uint \<Rightarrow> uint \<Rightarrow> ('z vm_scheme, uint) kern" where
  "copyuvm pgdir sz =
     kbind setupkvm (\<lambda>d.
     if d = 0 then kret 0
     else kloop vm_rounds (copyuvm_body pgdir sz d) 0)"

text \<open>
  \<open>uva2ka\<close> does not test the result of \<open>walkpgdir\<close>: without a page table it reads the word at
  address 0.
\<close>

definition uva2ka :: "uint \<Rightarrow> uint \<Rightarrow> ('z kmem_scheme, uint) kern" where
  "uva2ka pgdir uva =
     kbind (walkpgdir pgdir uva False) (\<lambda>pte.
     kbind (kget (\<lambda>s. load32 (mem s) pte)) (\<lambda>e.
     if e AND PTE_P = 0 then kret 0
     else if e AND PTE_U = 0 then kret 0
     else kret (P2V (PTE_ADDR e))))"

fun copyout_body :: "uint \<Rightarrow> uint \<times> uint \<times> uint \<Rightarrow> ('z kmem_scheme, uint \<times> uint \<times> uint + int) kern" where
  "copyout_body pgdir (va, buf, len) =
     (if \<not> len > 0 then kret (Inr 0)
      else
        let va0 = PGROUNDDOWN va in
        kbind (uva2ka pgdir va0) (\<lambda>pa0.
        if pa0 = 0 then kret (Inr (- 1))
        else
          let n = (if PGSIZE - (va - va0) > len then len else PGSIZE - (va - va0)) in
          kbind (kmod (\<lambda>s. s\<lparr>mem := memmove (mem s) (pa0 + (va - va0)) buf n\<rparr>)) (\<lambda>_.
          kret (Inl (va0 + PGSIZE, buf + n, len - n)))))"

definition copyout :: "uint \<Rightarrow> uint \<Rightarrow> uint \<Rightarrow> uint \<Rightarrow> ('z kmem_scheme, int) kern" where
  "copyout pgdir va p len = kloop vm_rounds (copyout_body pgdir) (va, p, len)"

end
