(* ===== verification/Pagetab.thy ===== *)
theory Pagetab
  imports Vm
begin

text \<open>
  Page tables as data: which page-table entry belongs to a page number, when a page table
  is well formed, and what the two kinds of writes (an entry, a new table) do to it.
\<close>

declare mod_0_imp_dvd [rule del]

section \<open>Page numbers and table indices\<close>

definition vpn :: "uint \<Rightarrow> nat" where
  "vpn va = unat va div 4096"

lemma vpn_lt [simp]: "vpn va < 1048576"
  using unsigned_less [of va, where 'a = nat] by (simp add: vpn_def less_mult_imp_div_less)

lemma unat_and_3FF: "unat (x AND 0x3FF :: uint) = unat x mod 1024"
proof -
  have "(x AND 0x3FF) = take_bit 10 x" by (simp add: take_bit_eq_mask mask_eq_exp_minus_1)
  then show ?thesis by (simp add: take_bit_eq_mod unat_mod)
qed

lemma PDX_vpn: "PDX va = word_of_nat (vpn va div 1024)"
proof -
  have lt: "vpn va div 1024 < 1024" using vpn_lt [of va] by (simp add: less_mult_imp_div_less)
  have "unat (PDX va) = unat (drop_bit 22 va) mod 1024" by (simp add: PDX_def unat_and_3FF)
  also have "unat (drop_bit 22 va) = unat va div 4194304" by (simp add: drop_bit_eq_div unat_div)
  also have "\<dots> = vpn va div 1024" by (simp add: vpn_def div_mult2_eq [symmetric])
  finally have "unat (PDX va) = vpn va div 1024" using lt by simp
  then show ?thesis using lt by (simp add: word_unat_eq_iff)
qed

lemma PTX_vpn: "PTX va = word_of_nat (vpn va mod 1024)"
proof -
  have "unat (PTX va) = unat (drop_bit 12 va) mod 1024" by (simp add: PTX_def unat_and_3FF)
  also have "unat (drop_bit 12 va) = vpn va" by (simp add: drop_bit_eq_div unat_div vpn_def)
  finally have "unat (PTX va) = vpn va mod 1024" .
  moreover have "vpn va mod 1024 < 1024" by simp
  ultimately show ?thesis by (simp add: word_unat_eq_iff)
qed

text \<open>The address of entry \<open>i\<close> of a table page.\<close>

abbreviation entry :: "uint \<Rightarrow> nat \<Rightarrow> uint" where
  "entry p i \<equiv> p + 4 * word_of_nat i"

lemma unat_entry:
  assumes "p mod PGSIZE = 0" "i < 1024"
  shows "unat (entry p i) = unat p + 4 * i"
proof -
  obtain k where k: "unat p = 4096 * k" "k < 1048576" using page_multiple [OF assms(1)] .
  have "4 * word_of_nat i = (word_of_nat (4 * i) :: uint)" by simp
  moreover have "unat (word_of_nat (4 * i) :: uint) = 4 * i" using assms(2) by (intro unat_word_of_nat) simp
  moreover have "unat p + 4 * i < 2 ^ 32" using k assms(2) by simp
  ultimately show ?thesis by (metis unat_plus_lt)
qed

lemma entry_page [simp]: "p mod PGSIZE = 0 \<Longrightarrow> i < 1024 \<Longrightarrow> in_page p (entry p i)"
proof -
  assume p: "p mod PGSIZE = 0" "i < 1024"
  obtain k where k: "unat p = 4096 * k" using page_multiple [OF p(1)] .
  then show ?thesis using p by (simp add: in_page_iff unat_entry div_page_iff)
qed

lemma entry_aligned [simp]: "p mod PGSIZE = 0 \<Longrightarrow> i < 1024 \<Longrightarrow> aligned4 (entry p i)"
proof -
  assume p: "p mod PGSIZE = 0" "i < 1024"
  obtain k where k: "unat p = 4096 * k" using page_multiple [OF p(1)] .
  then have "unat p + 4 * i = 4 * (1024 * k + i)" by simp
  then show ?thesis unfolding aligned4_def unat_entry [OF p] by (metis mod_mult_self1_is_0)
qed

lemma entry_inj: "p mod PGSIZE = 0 \<Longrightarrow> i < 1024 \<Longrightarrow> j < 1024 \<Longrightarrow> entry p i = entry p j \<longleftrightarrow> i = j"
  by (metis add_left_cancel mult_left_cancel unat_entry zero_neq_numeral)

lemma entry_neq: "p mod PGSIZE = 0 \<Longrightarrow> q mod PGSIZE = 0 \<Longrightarrow> p \<noteq> q \<Longrightarrow> i < 1024 \<Longrightarrow> j < 1024
    \<Longrightarrow> entry p i \<noteq> entry q j"
  by (metis entry_page in_page_disjoint)

lemma entry_nonzero: "p mod PGSIZE = 0 \<Longrightarrow> i < 1024 \<Longrightarrow> p \<noteq> 0 \<Longrightarrow> entry p i \<noteq> 0"
  by (metis add_is_0 unat_entry unat_eq_zero)

lemma entry_byte_page:
  assumes "p mod PGSIZE = 0" "i < 1024" "j < 4"
  shows "in_page p (entry p i + word_of_nat j)"
proof -
  obtain k where k: "unat p = 4096 * k" "k < 1048576" using page_multiple [OF assms(1)] .
  have "unat (entry p i + word_of_nat j) = unat p + 4 * i + j"
    using assms k by (subst unat_plus_lt) (simp_all add: unat_entry [OF assms(1,2)])
  with k assms show ?thesis by (simp add: in_page_iff [OF assms(1)] div_page_iff)
qed

lemma load32_cong_entry:
  assumes "p mod PGSIZE = 0" "i < 1024" "\<And>a. in_page p a \<Longrightarrow> m' a = m a"
  shows "load32 m' (entry p i) = load32 m (entry p i)"
  using entry_byte_page [OF assms(1,2), of 0] entry_byte_page [OF assms(1,2), of 1]
    entry_byte_page [OF assms(1,2), of 2] entry_byte_page [OF assms(1,2), of 3] assms(3)
  by (simp add: load32_def)

lemma store32_entry_outside:
  assumes "p mod PGSIZE = 0" "i < 1024" "\<not> in_page p a"
  shows "store32 m (entry p i) v a = m a"
  using entry_byte_page [OF assms(1,2), of 0] entry_byte_page [OF assms(1,2), of 1]
    entry_byte_page [OF assms(1,2), of 2] entry_byte_page [OF assms(1,2), of 3] assms(3)
  by (auto simp: store32_def)

section \<open>Page-table entries\<close>

lemma P2V_V2P [simp]: "P2V (V2P p) = p" "V2P (P2V p) = p"
  by (simp_all add: P2V_def V2P_def)

lemma and_FFF: "x AND 0xFFF = x mod PGSIZE" for x :: uint
proof -
  have "x AND 0xFFF = take_bit 12 x" by (simp add: take_bit_eq_mask mask_eq_exp_minus_1)
  then show ?thesis by (simp add: take_bit_eq_mod PGSIZE_def)
qed

lemma V2P_page: "p mod PGSIZE = 0 \<Longrightarrow> V2P p mod PGSIZE = 0"
proof (erule page_multiple)
  fix k assume k: "unat p = 4096 * k" "k < 1048576"
  have "unat (V2P p) = 4096 * (if k < 524288 then k + 524288 else k - 524288)"
    using k by (simp add: V2P_def KERNBASE_def unat_sub_if' word_le_nat_alt diff_mult_distrib2)
  then show ?thesis by (rule page_of_multiple)
qed

lemma P2V_page: "p mod PGSIZE = 0 \<Longrightarrow> P2V p mod PGSIZE = 0"
proof -
  have "P2V p = V2P p" by (simp add: P2V_def V2P_def KERNBASE_def)
  then show "p mod PGSIZE = 0 \<Longrightarrow> ?thesis" using V2P_page [of p] by simp
qed

lemma page_bits:
  assumes "x mod PGSIZE = 0"
  shows "x AND 0xFFF = 0" "x AND NOT 0xFFF = x"
proof -
  show 0: "x AND 0xFFF = 0" by (simp add: and_FFF assms)
  have "x = (x AND NOT 0xFFF) OR (x AND 0xFFF)" by (simp flip: bit.conj_disj_distrib)
  with 0 show "x AND NOT 0xFFF = x" by simp
qed

lemma PTE_ADDR_page [simp]: "PTE_ADDR e mod PGSIZE = 0"
proof -
  have "PTE_ADDR e AND 0xFFF = 0" by (simp add: PTE_ADDR_def and.assoc)
  then show ?thesis by (simp only: and_FFF)
qed

lemma pte_make:
  assumes "x mod PGSIZE = 0" "f AND NOT 0xFFF = 0"
  shows "PTE_ADDR (x OR f) = x" "PTE_FLAGS (x OR f) = f" "(x OR f) AND PTE_P = f AND PTE_P"
    "(x OR f) AND PTE_U = f AND PTE_U"
proof -
  note b = page_bits [OF assms(1)]
  show "PTE_ADDR (x OR f) = x" unfolding PTE_ADDR_def bit.conj_disj_distrib2 b assms(2) by simp
  have f: "f AND 0xFFF = f"
  proof -
    have "f = (f AND NOT 0xFFF) OR (f AND 0xFFF)" by (simp flip: bit.conj_disj_distrib)
    with assms(2) show ?thesis by simp
  qed
  then show "PTE_FLAGS (x OR f) = f" by (simp add: PTE_FLAGS_def bit.conj_disj_distrib2 b)
  have "x AND PTE_P = (x AND 0xFFF) AND PTE_P" "x AND PTE_U = (x AND 0xFFF) AND PTE_U"
    by (simp_all add: and.assoc PTE_P_def PTE_U_def)
  then show "(x OR f) AND PTE_P = f AND PTE_P" "(x OR f) AND PTE_U = f AND PTE_U"
    by (simp_all add: bit.conj_disj_distrib2 b)
qed

lemma load32_zero_page:
  assumes "p mod PGSIZE = 0" "i < 1024" "\<And>a. in_page p a \<Longrightarrow> m a = 0"
  shows "load32 m (entry p i) = 0"
  using entry_byte_page [OF assms(1,2), of 0] entry_byte_page [OF assms(1,2), of 1]
    entry_byte_page [OF assms(1,2), of 2] entry_byte_page [OF assms(1,2), of 3] assms(3)
  by (simp add: load32_def)

section \<open>Page tables in memory\<close>

text \<open>
  Entry \<open>i\<close> of a page directory, the page table it points to, and the entry of page
  number \<open>n\<close> (0 where there is no page table).
\<close>

definition pde :: "mem \<Rightarrow> uint \<Rightarrow> nat \<Rightarrow> uint" where
  "pde m pd i = load32 m (entry pd i)"

definition pde_present :: "mem \<Rightarrow> uint \<Rightarrow> nat \<Rightarrow> bool" where
  "pde_present m pd i \<longleftrightarrow> pde m pd i AND PTE_P \<noteq> 0"

definition ptab :: "mem \<Rightarrow> uint \<Rightarrow> nat \<Rightarrow> uint" where
  "ptab m pd i = P2V (PTE_ADDR (pde m pd i))"

definition pte_ptr :: "mem \<Rightarrow> uint \<Rightarrow> nat \<Rightarrow> uint" where
  "pte_ptr m pd n = entry (ptab m pd (n div 1024)) (n mod 1024)"

definition pte :: "mem \<Rightarrow> uint \<Rightarrow> nat \<Rightarrow> uint" where
  "pte m pd n = (if pde_present m pd (n div 1024) then load32 m (pte_ptr m pd n) else 0)"

text \<open>The pages that make up a page table: the directory and the tables below it.\<close>

definition tables :: "mem \<Rightarrow> uint \<Rightarrow> uint set" where
  "tables m pd = insert pd {ptab m pd i | i. i < 1024 \<and> pde_present m pd i}"

text \<open>
  A well-formed page table: all its pages are pages of the allocator and none of them is
  free; no two directory entries share a table.
\<close>

definition pt_ok :: "'z kmem_scheme \<Rightarrow> uint list \<Rightarrow> uint \<Rightarrow> bool" where
  "pt_ok s ps pd \<longleftrightarrow> page_ok s pd \<and> pd \<notin> set ps
     \<and> (\<forall>i < 1024. pde_present (mem s) pd i \<longrightarrow>
          page_ok s (ptab (mem s) pd i) \<and> ptab (mem s) pd i \<noteq> pd \<and> ptab (mem s) pd i \<notin> set ps)
     \<and> (\<forall>i < 1024. \<forall>j < 1024. pde_present (mem s) pd i \<longrightarrow> pde_present (mem s) pd j \<longrightarrow>
          ptab (mem s) pd i = ptab (mem s) pd j \<longrightarrow> i = j)"

lemma ptab_page [simp]: "ptab m pd i mod PGSIZE = 0"
  by (simp add: ptab_def P2V_page)

lemma pt_okD:
  assumes "pt_ok s ps pd"
  shows "page_ok s pd" "pd mod PGSIZE = 0" "pd \<notin> set ps"
    "i < 1024 \<Longrightarrow> pde_present (mem s) pd i \<Longrightarrow>
      page_ok s (ptab (mem s) pd i) \<and> ptab (mem s) pd i \<noteq> pd \<and> ptab (mem s) pd i \<notin> set ps"
    "i < 1024 \<Longrightarrow> j < 1024 \<Longrightarrow> pde_present (mem s) pd i \<Longrightarrow> pde_present (mem s) pd j \<Longrightarrow>
      ptab (mem s) pd i = ptab (mem s) pd j \<Longrightarrow> i = j"
  using assms by (simp_all add: pt_ok_def page_ok_def)

lemma tables_page: "pt_ok s ps pd \<Longrightarrow> q \<in> tables (mem s) pd \<Longrightarrow> page_ok s q \<and> q \<notin> set ps"
  by (auto simp: tables_def pt_ok_def)

lemma page_index: "n < 1048576 \<Longrightarrow> n div 1024 < 1024" "n mod 1024 < (1024 :: nat)"
  by (simp_all add: less_mult_imp_div_less)

text \<open>Memory that agrees on the pages of a page table gives the same page table.\<close>

lemma pde_cong:
  assumes "pd mod PGSIZE = 0" "i < 1024" "\<And>a. in_page pd a \<Longrightarrow> m' a = m a"
  shows "pde m' pd i = pde m pd i" "pde_present m' pd i = pde_present m pd i" "ptab m' pd i = ptab m pd i"
proof -
  show "pde m' pd i = pde m pd i" unfolding pde_def by (rule load32_cong_entry [OF assms])
  then show "pde_present m' pd i = pde_present m pd i" "ptab m' pd i = ptab m pd i"
    by (simp_all add: pde_present_def ptab_def)
qed

lemma pt_cong:
  assumes "pd mod PGSIZE = 0" "\<And>q a. q \<in> tables m pd \<Longrightarrow> in_page q a \<Longrightarrow> m' a = m a" "n < 1048576"
  shows "pte m' pd n = pte m pd n"
proof -
  have i: "n div 1024 < 1024" "n mod 1024 < 1024" using page_index assms(3) by simp_all
  have pg: "m' a = m a" if "in_page pd a" for a
    using that by (rule assms(2) [rotated]) (simp add: tables_def)
  note d = pde_cong(2,3) [OF assms(1) i(1) pg]
  have "load32 m' (pte_ptr m pd n) = load32 m (pte_ptr m pd n)" if "pde_present m pd (n div 1024)"
    unfolding pte_ptr_def
  proof (rule load32_cong_entry [OF ptab_page i(2)])
    have "ptab m pd (n div 1024) \<in> tables m pd" using that i(1) by (auto simp: tables_def)
    then show "in_page (ptab m pd (n div 1024)) a \<Longrightarrow> m' a = m a" for a by (rule assms(2))
  qed
  with d show ?thesis by (simp add: pte_def pte_ptr_def)
qed

lemma tables_cong:
  assumes "pd mod PGSIZE = 0" "\<And>a. in_page pd a \<Longrightarrow> m' a = m a"
  shows "tables m' pd = tables m pd"
proof -
  have "pde_present m' pd i = pde_present m pd i" "ptab m' pd i = ptab m pd i" if "i < 1024" for i
    using pde_cong [OF assms(1) that assms(2)] by simp_all
  then show ?thesis unfolding tables_def by (metis (no_types, lifting))
qed

lemma pt_ok_cong:
  assumes "pt_ok s ps pd" "\<And>a. in_page pd a \<Longrightarrow> mem t a = mem s a" "page_ok t = page_ok s" "set qs \<subseteq> set ps"
  shows "pt_ok t qs pd"
proof -
  have "pde_present (mem t) pd i = pde_present (mem s) pd i" "ptab (mem t) pd i = ptab (mem s) pd i"
    if "i < 1024" for i
    using pde_cong [OF pt_okD(2) [OF assms(1)] that assms(2)] by simp_all
  moreover have "x \<notin> set qs" if "x \<notin> set ps" for x using that assms(4) by blast
  ultimately show ?thesis using assms(1,3) by (simp add: pt_ok_def)
qed

section \<open>Changing a page table\<close>

lemma set_pte:
  fixes v :: uint
  assumes ok: "pt_ok s ps pd" and n: "n < 1048576" "pde_present (mem s) pd (n div 1024)"
  defines "m' \<equiv> store32 (mem s) (pte_ptr (mem s) pd n) v"
  shows "\<And>a. in_page pd a \<Longrightarrow> m' a = mem s a"
    and "k < 1048576 \<Longrightarrow> pte m' pd k = (if k = n then v else pte (mem s) pd k)"
proof -
  let ?m = "mem s" and ?T = "ptab (mem s) pd (n div 1024)"
  note i = page_index(1) [OF n(1)] page_index(2) [of n]
  have T: "page_ok s ?T \<and> ?T \<noteq> pd" using pt_okD(4) [OF ok i(1) n(2)] by simp
  have out: "m' a = ?m a" if "\<not> in_page ?T a" for a
    unfolding m'_def pte_ptr_def using i(2) that by (intro store32_entry_outside) simp_all
  show pg: "m' a = ?m a" if "in_page pd a" for a
    using that T in_page_disjoint [OF ptab_page pt_okD(2) [OF ok] _ that] by (intro out) blast
  assume k: "k < 1048576"
  note j = page_index(1) [OF k] page_index(2) [of k]
  note d = pde_cong [OF pt_okD(2) [OF ok] j(1) pg]
  have ptr: "pte_ptr m' pd k = pte_ptr ?m pd k" by (simp add: pte_ptr_def d)
  show "pte m' pd k = (if k = n then v else pte ?m pd k)"
  proof (cases "k = n \<or> \<not> pde_present ?m pd (k div 1024)")
    case True
    then show ?thesis using n(2) d ptr unfolding pte_def by (auto simp: m'_def)
  next
    case False
    have "pte_ptr ?m pd n \<noteq> pte_ptr ?m pd k"
    proof (cases "k div 1024 = n div 1024")
      case True
      then have "k mod 1024 \<noteq> n mod 1024" using False by (metis div_mult_mod_eq)
      with True show ?thesis unfolding pte_ptr_def using entry_inj [OF ptab_page i(2) j(2)] by auto
    next
      case neq: False
      then have "?T \<noteq> ptab ?m pd (k div 1024)" using pt_okD(5) [OF ok i(1) j(1) n(2)] False by auto
      then show ?thesis unfolding pte_ptr_def using i j by (intro entry_neq) simp_all
    qed
    then have "load32 m' (pte_ptr ?m pd k) = load32 ?m (pte_ptr ?m pd k)"
      unfolding m'_def using i j by (intro load32_store32_other) (simp_all add: pte_ptr_def)
    then show ?thesis using False d ptr by (simp add: pte_def)
  qed
qed

definition pde_flags :: uint where
  "pde_flags = PTE_P OR PTE_W OR PTE_U"

lemma pde_flags [simp]: "pde_flags AND NOT 0xFFF = 0" "pde_flags AND PTE_P \<noteq> 0"
  by (simp_all add: pde_flags_def PTE_P_def PTE_W_def PTE_U_def)

lemma new_table:
  assumes ok: "pt_ok s ps pd" and p: "p mod PGSIZE = 0" "p \<notin> tables (mem s) pd"
    and i0: "i0 < 1024" "\<not> pde_present (mem s) pd i0"
  defines "m' \<equiv> store32 (memset (mem s) p 0 PGSIZE) (entry pd i0) (V2P p OR pde_flags)"
  shows "\<And>i. i < 1024 \<Longrightarrow> pde_present m' pd i \<longleftrightarrow> i = i0 \<or> pde_present (mem s) pd i"
    and "\<And>i. i < 1024 \<Longrightarrow> ptab m' pd i = (if i = i0 then p else ptab (mem s) pd i)"
    and "\<And>a. \<not> in_page p a \<Longrightarrow> \<not> in_page pd a \<Longrightarrow> m' a = mem s a"
    and "\<And>k. k < 1048576 \<Longrightarrow> pte m' pd k = pte (mem s) pd k"
proof -
  let ?m = "mem s"
  have pd: "pd mod PGSIZE = 0" using ok by (rule pt_okD)
  have ne: "p \<noteq> pd" using p by (auto simp: tables_def)
  have out: "m' a = ?m a" if "\<not> in_page p a" "\<not> in_page pd a" for a
    unfolding m'_def using that i0 pd by (simp add: store32_entry_outside memset_page_outside)
  then show "\<And>a. \<not> in_page p a \<Longrightarrow> \<not> in_page pd a \<Longrightarrow> m' a = mem s a" .
  have pde': "pde m' pd i = (if i = i0 then V2P p OR pde_flags else pde ?m pd i)" if "i < 1024" for i
  proof -
    have "pde (memset ?m p 0 PGSIZE) pd i = pde ?m pd i"
      using that ne p in_page_disjoint [OF p(1) pd] by (intro pde_cong [OF pd]) (auto intro!: memset_page_outside)
    then show ?thesis
      using that i0 pd entry_inj [OF pd i0(1) that] by (simp add: pde_def m'_def)
  qed
  note mk = pte_make [OF V2P_page [OF p(1)] pde_flags(1)]
  show pres: "pde_present m' pd i \<longleftrightarrow> i = i0 \<or> pde_present ?m pd i" if "i < 1024" for i
    using pde' [OF that] mk(3) pde_flags(2) by (simp add: pde_present_def)
  show tab: "ptab m' pd i = (if i = i0 then p else ptab ?m pd i)" if "i < 1024" for i
    using pde' [OF that] mk(1) by (simp add: ptab_def)
  show "pte m' pd k = pte ?m pd k" if k: "k < 1048576" for k
  proof -
    note j = page_index(1) [OF k] page_index(2) [of k]
    show ?thesis
    proof (cases "k div 1024 = i0")
      case True
      have "load32 m' (entry p (k mod 1024)) = 0"
      proof (rule load32_zero_page [OF p(1) j(2)])
        fix a assume a: "in_page p a"
        then have "\<not> in_page pd a" using ne in_page_disjoint [OF p(1) pd] by auto
        then show "m' a = 0" unfolding m'_def using i0 pd a
          by (simp add: store32_entry_outside memset_page_inside)
      qed
      then show ?thesis using True i0 j by (simp add: pte_def pte_ptr_def pres tab)
    next
      case False
      have "load32 m' (entry T (k mod 1024)) = load32 ?m (entry T (k mod 1024))"
        if T: "T = ptab ?m pd (k div 1024)" "pde_present ?m pd (k div 1024)" for T
      proof (rule load32_cong_entry)
        have "T \<noteq> pd" "T \<in> tables ?m pd" using pt_okD(4) [OF ok j(1) T(2)] T j by (auto simp: tables_def)
        with p(2) have "T \<noteq> p" by auto
        then show "m' a = ?m a" if "in_page T a" for a
          using that \<open>T \<noteq> pd\<close> T(1) in_page_disjoint [OF _ p(1) that] in_page_disjoint [OF _ pd that]
          by (intro out) auto
      qed (use T j in simp_all)
      then show ?thesis using False j by (simp add: pte_def pte_ptr_def pres tab)
    qed
  qed
qed

end
