(* ===== verification/Uvm.thy ===== *)
theory Uvm
  imports Pagetab
begin

text \<open>
  What the routines of \<open>vm.c\<close> do to page tables, free pages and memory.
\<close>

section \<open>\<open>walkpgdir\<close>\<close>

lemma walkpgdir_present:
  "pde_present (mem s) pd (vpn va div 1024) \<Longrightarrow> walkpgdir pd va al s = Ok (pte_ptr (mem s) pd (vpn va)) s"
  by (simp add: walkpgdir_def PDX_vpn PTX_vpn pde_present_def pde_def pte_ptr_def ptab_def)

lemma walkpgdir_absent:
  "\<not> pde_present (mem s) pd (vpn va div 1024) \<Longrightarrow> walkpgdir pd va False s = Ok 0 s"
  by (simp add: walkpgdir_def PDX_vpn PTX_vpn pde_present_def pde_def)

lemma walkpgdir_noalloc:
  "walkpgdir pd va False s = Ok (if pde_present (mem s) pd (vpn va div 1024) then pte_ptr (mem s) pd (vpn va) else 0) s"
  by (simp add: walkpgdir_present walkpgdir_absent)

text \<open>
  \<open>pt_frame s ps t ps' pd\<close>: between \<open>s\<close> and \<open>t\<close> pages only moved from the free list \<open>ps\<close> to the
  page table \<open>pd\<close>, and no other memory has changed.
\<close>

definition pt_frame :: "'z kmem_scheme \<Rightarrow> uint list \<Rightarrow> 'z kmem_scheme \<Rightarrow> uint list \<Rightarrow> uint \<Rightarrow> bool" where
  "pt_frame s ps t ps' pd \<longleftrightarrow> kmem_frame s t \<and> kmem_inv t ps' \<and> pt_ok t ps' pd
     \<and> tables (mem s) pd \<subseteq> tables (mem t) pd \<and> set ps' \<subseteq> set ps
     \<and> tables (mem t) pd \<union> set ps' = tables (mem s) pd \<union> set ps
     \<and> (\<forall>a. (\<forall>q \<in> tables (mem s) pd \<union> set ps. \<not> in_page q a) \<longrightarrow> mem t a = mem s a)"

lemma pt_frame_refl: "kmem_inv s ps \<Longrightarrow> pt_ok s ps pd \<Longrightarrow> pt_frame s ps s ps pd"
  by (simp add: pt_frame_def)

lemma pt_frame_trans: "pt_frame s ps t qs pd \<Longrightarrow> pt_frame t qs u rs pd \<Longrightarrow> pt_frame s ps u rs pd"
  unfolding pt_frame_def by (auto intro: kmem_frame_trans)

lemma pt_frameD:
  assumes "pt_frame s ps t ps' pd"
  shows "kmem_inv t ps'" "pt_ok t ps' pd" "kmem_frame s t" "page_ok t = page_ok s"
    "set ps' \<subseteq> set ps" "tables (mem s) pd \<subseteq> tables (mem t) pd"
    "tables (mem t) pd \<subseteq> tables (mem s) pd \<union> set ps"
  using assms page_ok_frame [of s t] by (auto simp: pt_frame_def fun_eq_iff)

lemma pt_frame_mem:
  "pt_frame s ps t ps' pd \<Longrightarrow> (\<And>q. q \<in> tables (mem s) pd \<union> set ps \<Longrightarrow> \<not> in_page q a) \<Longrightarrow> mem t a = mem s a"
  unfolding pt_frame_def by blast

lemma in_tables: "i < 1024 \<Longrightarrow> pde_present m pd i \<Longrightarrow> ptab m pd i \<in> tables m pd" "pd \<in> tables m pd"
  by (auto simp: tables_def)

lemma tables_image: "tables m pd = insert pd (ptab m pd ` {i. i < 1024 \<and> pde_present m pd i})"
  by (auto simp: tables_def)

lemma walkpgdir_new:
  assumes inv: "kmem_inv s (p # ps)" and ok: "pt_ok s (p # ps) pd"
    and ab: "\<not> pde_present (mem s) pd (vpn va div 1024)"
  shows "\<exists>t. walkpgdir pd va True s = Ok (pte_ptr (mem t) pd (vpn va)) t \<and> pte_ptr (mem t) pd (vpn va) \<noteq> 0
    \<and> pt_frame s (p # ps) t ps pd \<and> pde_present (mem t) pd (vpn va div 1024)
    \<and> (\<forall>k < 1048576. pte (mem t) pd k = pte (mem s) pd k)"
proof -
  define i where "i = vpn va div 1024"
  have i: "i < 1024" using page_index(1) [OF vpn_lt] by (simp add: i_def)
  define m' where "m' = store32 (memset (mem s) p 0 PGSIZE) (entry pd i) (V2P p OR pde_flags)"
  define t where "t = (allocated s)\<lparr>mem := m'\<rparr>"
  have p: "p mod PGSIZE = 0" "page_ok s p" "p \<noteq> 0" "p \<notin> set ps"
    using inv by (auto simp: kmem_inv_def page_ok_def)
  have pt: "p \<notin> tables (mem s) pd" using tables_page [OF ok, of p] by auto
  note nt = new_table [OF ok p(1) pt i ab [folded i_def], folded m'_def]
  have al: "kalloc s = Ok p (allocated s)" using inv kmem_inv_allocated [OF inv] by (simp add: kalloc_eq kmem_inv_def)
  have run: "walkpgdir pd va True s = Ok (entry p (vpn va mod 1024)) t"
    using ab al p(3) unfolding walkpgdir_def t_def m'_def pde_flags_def
    by (simp add: PDX_vpn PTX_vpn i_def pde_present_def pde_def kbind_apply)
  have ptr: "pte_ptr (mem t) pd (vpn va) = entry p (vpn va mod 1024)"
    using nt(2) [OF i] by (simp add: pte_ptr_def t_def i_def)
  have fr0: "kmem_frame s (allocated s)" using inv by (intro allocated_frame) (simp add: kmem_inv_def)
  have fr: "kmem_frame s t"
    using fr0 lock_frame_ctl [of t "allocated s"] unfolding kmem_frame_def t_def
    by (auto intro: lock_frame_trans)
  have pk: "page_ok t = page_ok s" using page_ok_frame [OF fr] by (simp add: fun_eq_iff)
  have pd: "pd mod PGSIZE = 0" "pd \<noteq> p" "pd \<notin> set ps" using pt_okD [OF ok] by auto
  have inv': "kmem_inv t ps"
    unfolding t_def
  proof (rule kmem_inv_write)
    show "kmem_inv (allocated s) ps" using kmem_inv_allocated [OF inv] by simp
    fix q a assume q: "q \<in> set ps" "in_page q a"
    have "q mod PGSIZE = 0" using inv q by (auto simp: kmem_inv_def page_ok_def)
    moreover have "q \<noteq> p" "q \<noteq> pd" using q p pd by auto
    ultimately have "\<not> in_page p a" "\<not> in_page pd a" using q(2) in_page_disjoint p(1) pd(1) by blast+
    then show "m' a = mem (allocated s) a" using nt(3) by simp
  qed
  have ok': "pt_ok t ps pd"
  proof -
    have "ptab (mem s) pd j \<noteq> p" if "j < 1024" "pde_present (mem s) pd j" for j
      using pt in_tables(1) [OF that] by auto
    then show ?thesis
      using ok pk p pd nt(1,2) i unfolding pt_ok_def by (simp add: t_def) metis
  qed
  have tabs: "tables (mem t) pd = insert p (tables (mem s) pd)"
  proof -
    have "{j. j < 1024 \<and> pde_present m' pd j} = insert i {j. j < 1024 \<and> pde_present (mem s) pd j}"
      using nt(1) i by auto
    moreover have "ptab m' pd ` {j. j < 1024 \<and> pde_present (mem s) pd j}
        = ptab (mem s) pd ` {j. j < 1024 \<and> pde_present (mem s) pd j}"
      using nt(2) ab by (intro image_cong) (auto simp: i_def)
    ultimately show ?thesis using nt(2) [OF i] by (simp add: tables_image t_def insert_commute)
  qed
  show ?thesis
    using run ptr fr inv' ok' tabs nt(3,4) entry_nonzero [OF p(1) page_index(2) p(3)] nt(1) [OF i]
    by (intro exI [of _ t]) (auto simp: pt_frame_def t_def i_def tables_def)
qed

lemma walkpgdir_alloc:
  assumes inv: "kmem_inv s ps" and ok: "pt_ok s ps pd"
  shows "\<exists>r t ps'. walkpgdir pd va True s = Ok r t \<and> pt_frame s ps t ps' pd
    \<and> (\<forall>k < 1048576. pte (mem t) pd k = pte (mem s) pd k)
    \<and> (if r = 0 then ps = [] \<and> ps' = [] else r = pte_ptr (mem t) pd (vpn va) \<and> pde_present (mem t) pd (vpn va div 1024))"
proof (cases "pde_present (mem s) pd (vpn va div 1024)")
  case True
  have "page_ok s (ptab (mem s) pd (vpn va div 1024))"
    using pt_okD(4) [OF ok page_index(1) True] by simp
  then have "pte_ptr (mem s) pd (vpn va) \<noteq> 0"
    unfolding pte_ptr_def using inv by (intro entry_nonzero) (auto simp: page_ok_def kmem_inv_def)
  with True show ?thesis using pt_frame_refl [OF inv ok]
    by (intro exI [of _ "pte_ptr (mem s) pd (vpn va)"] exI [of _ s] exI [of _ ps]) (simp add: walkpgdir_present)
next
  case ab: False
  show ?thesis
  proof (cases ps)
    case Nil
    have al: "kalloc s = Ok 0 (allocated s)" "kmem_inv (allocated s) []"
      using inv kmem_inv_allocated [OF inv] Nil by (simp_all add: kalloc_eq kmem_inv_def)
    have fr: "kmem_frame s (allocated s)" using inv by (intro allocated_frame) (simp add: kmem_inv_def)
    have pk: "page_ok (allocated s) = page_ok s" using page_ok_frame [OF fr] by (simp add: fun_eq_iff)
    have "walkpgdir pd va True s = Ok 0 (allocated s)"
      using ab al(1) by (simp add: walkpgdir_def PDX_vpn pde_present_def pde_def kbind_apply)
    moreover have "pt_ok (allocated s) [] pd" by (rule pt_ok_cong [OF ok]) (simp_all add: pk)
    ultimately show ?thesis using fr al(2) Nil
      by (intro exI [of _ 0] exI [of _ "allocated s"] exI [of _ "[]"]) (simp add: pt_frame_def)
  next
    case (Cons p qs)
    with walkpgdir_new [OF inv [unfolded Cons] ok [unfolded Cons] ab] show ?thesis by metis
  qed
qed
section \<open>\<open>mappages\<close>\<close>

lemma kmem_frame_mem: "kmem_frame s (s\<lparr>mem := m\<rparr>)"
  by (simp add: kmem_frame_def lock_frame_ctl)

text \<open>Writing one page-table entry.\<close>

lemma set_pte_frame:
  fixes v :: uint
  assumes inv: "kmem_inv s ps" and ok: "pt_ok s ps pd"
    and n: "n < 1048576" "pde_present (mem s) pd (n div 1024)"
  defines "t \<equiv> s\<lparr>mem := store32 (mem s) (pte_ptr (mem s) pd n) v\<rparr>"
  shows "pt_frame s ps t ps pd" "tables (mem t) pd = tables (mem s) pd"
    "\<forall>k < 1048576. pte (mem t) pd k = (if k = n then v else pte (mem s) pd k)"
    "\<And>a. \<not> in_page (ptab (mem s) pd (n div 1024)) a \<Longrightarrow> mem t a = mem s a"
proof -
  let ?T = "ptab (mem s) pd (n div 1024)"
  have T: "?T \<in> tables (mem s) pd" "?T \<notin> set ps" "page_ok s ?T"
    using pt_okD(4) [OF ok page_index(1) [OF n(1)] n(2)] in_tables(1) [OF page_index(1) [OF n(1)] n(2)] by auto
  show out: "mem t a = mem s a" if "\<not> in_page ?T a" for a
    unfolding t_def pte_ptr_def using that by (simp add: store32_entry_outside)
  have "kmem_inv t ps"
    unfolding t_def
  proof (rule kmem_inv_write [OF inv])
    fix q a assume q: "q \<in> set ps" "in_page q a"
    have "q mod PGSIZE = 0" "q \<noteq> ?T" using inv q T(2) by (auto simp: kmem_inv_def page_ok_def)
    then have "\<not> in_page ?T a" using q(2) in_page_disjoint [OF _ ptab_page] by blast
    then show "store32 (mem s) (pte_ptr (mem s) pd n) v a = mem s a" using out by (simp add: t_def)
  qed
  moreover have "pt_ok t ps pd" using set_pte(1) [OF ok n] by (intro pt_ok_cong [OF ok]) (simp_all add: t_def fun_eq_iff)
  moreover show tabs: "tables (mem t) pd = tables (mem s) pd"
    using set_pte(1) [OF ok n] by (intro tables_cong pt_okD(2) [OF ok]) (simp add: t_def)
  ultimately show "pt_frame s ps t ps pd"
    using out T(1) kmem_frame_mem by (auto simp: pt_frame_def t_def)
  show "\<forall>k < 1048576. pte (mem t) pd k = (if k = n then v else pte (mem s) pd k)"
    using set_pte(2) [OF ok n] by (simp add: t_def)
qed

lemma map_step:
  assumes inv: "kmem_inv s ps" and ok: "pt_ok s ps pd" and free: "pte (mem s) pd (vpn a) AND PTE_P = 0"
  shows "\<exists>x t ps'. mappages_body pd lst perm (a, pa) s = Ok x t \<and> pt_frame s ps t ps' pd
    \<and> (x = Inr (- 1) \<and> ps = [] \<and> ps' = [] \<and> (\<forall>k < 1048576. pte (mem t) pd k = pte (mem s) pd k)
     \<or> x = (if a = lst then Inr 0 else Inl (a + PGSIZE, pa + PGSIZE))
       \<and> (\<forall>k < 1048576. pte (mem t) pd k = (if k = vpn a then pa OR perm OR PTE_P else pte (mem s) pd k)))"
proof -
  obtain r u qs where w: "walkpgdir pd a True s = Ok r u" "pt_frame s ps u qs pd"
    "\<forall>k < 1048576. pte (mem u) pd k = pte (mem s) pd k"
    "if r = 0 then ps = [] \<and> qs = [] else r = pte_ptr (mem u) pd (vpn a) \<and> pde_present (mem u) pd (vpn a div 1024)"
    using walkpgdir_alloc [OF inv ok, of a] by blast
  show ?thesis
  proof (cases "r = 0")
    case True
    with w show ?thesis by (intro exI [of _ "Inr (- 1)"] exI [of _ u] exI [of _ qs]) simp
  next
    case False
    with w(4) have r: "r = pte_ptr (mem u) pd (vpn a)" "pde_present (mem u) pd (vpn a div 1024)" by simp_all
    have fr: "load32 (mem u) r AND PTE_P = 0"
    proof -
      have "pte (mem u) pd (vpn a) AND PTE_P = 0" using free w(3) by simp
      then show ?thesis using r by (simp add: pte_def)
    qed
    note sp = set_pte_frame [OF pt_frameD(1,2) [OF w(2)] vpn_lt r(2), of "pa OR perm OR PTE_P"]
    let ?t = "u\<lparr>mem := store32 (mem u) (pte_ptr (mem u) pd (vpn a)) (pa OR perm OR PTE_P)\<rparr>"
    have run: "mappages_body pd lst perm (a, pa) s = Ok (if a = lst then Inr 0 else Inl (a + PGSIZE, pa + PGSIZE)) ?t"
      using w(1) False fr r(1) by (simp add: kbind_apply)
    show ?thesis
      using run pt_frame_trans [OF w(2) sp(1)] sp(3) w(3)
      by (intro exI [of _ "if a = lst then Inr 0 else Inl (a + PGSIZE, pa + PGSIZE)"] exI [of _ ?t] exI [of _ qs]) simp
  qed
qed

lemma mappages_loop:
  assumes "kmem_inv s ps" "pt_ok s ps pd" "unat a = 4096 * j" "unat lst = 4096 * (j + n)" "n < N"
    and "\<And>k. j \<le> k \<Longrightarrow> k \<le> j + n \<Longrightarrow> pte (mem s) pd k AND PTE_P = 0"
  shows "\<exists>r t ps'. kloop N (mappages_body pd lst perm) (a, pa) s = Ok r t \<and> pt_frame s ps t ps' pd
    \<and> (\<forall>k < 1048576. k < j \<or> j + n < k \<longrightarrow> pte (mem t) pd k = pte (mem s) pd k)
    \<and> (r = - 1 \<and> ps' = [] \<or> r = 0 \<and> (\<forall>k. j \<le> k \<longrightarrow> k \<le> j + n \<longrightarrow>
         pte (mem t) pd k = (pa + word_of_nat (k - j) * PGSIZE) OR perm OR PTE_P))"
  using assms
proof (induction n arbitrary: s ps a pa j N)
  case 0
  have va: "vpn a = j" "a = lst" using 0 by (simp_all add: vpn_def word_unat_eq_iff)
  obtain M where N: "N = Suc M" using 0 by (cases N) auto
  have jlt: "j < 1048576" using va vpn_lt [of a] by simp
  have "pte (mem s) pd (vpn a) AND PTE_P = 0" using 0 va by simp
  from map_step [OF 0(1,2) this, of lst perm pa] show ?case
    using va jlt by (elim exE conjE disjE) (auto simp: N kbind_apply)
next
  case (Suc n)
  obtain M where N: "N = Suc M" using Suc.prems by (cases N) auto
  have va: "vpn a = j" "a \<noteq> lst" using Suc.prems by (auto simp: vpn_def)
  have jlt: "j + Suc n < 1048576" using Suc.prems(4) vpn_lt [of lst] by (simp add: vpn_def)
  have free: "pte (mem s) pd (vpn a) AND PTE_P = 0" using Suc.prems va by simp
  have a': "unat (a + PGSIZE) = 4096 * Suc j" using Suc.prems(3) jlt by (simp add: unat_plus_lt PGSIZE_def)
  obtain x u qs where st: "mappages_body pd lst perm (a, pa) s = Ok x u" "pt_frame s ps u qs pd"
    "x = Inr (- 1) \<and> qs = [] \<and> (\<forall>k < 1048576. pte (mem u) pd k = pte (mem s) pd k)
     \<or> x = Inl (a + PGSIZE, pa + PGSIZE)
       \<and> (\<forall>k < 1048576. pte (mem u) pd k = (if k = j then pa OR perm OR PTE_P else pte (mem s) pd k))"
    using map_step [OF Suc.prems(1,2) free, of lst perm pa] va by auto
  from st(3) show ?case
  proof (elim disjE conjE)
    assume "x = Inr (- 1)" "qs = []" "\<forall>k < 1048576. pte (mem u) pd k = pte (mem s) pd k"
    then show ?thesis using st(1,2) N by (intro exI [of _ "- 1"] exI [of _ u] exI [of _ qs]) (simp add: kbind_apply)
  next
    assume x: "x = Inl (a + PGSIZE, pa + PGSIZE)"
      and pu: "\<forall>k < 1048576. pte (mem u) pd k = (if k = j then pa OR perm OR PTE_P else pte (mem s) pd k)"
    have "\<exists>r t ps'. kloop M (mappages_body pd lst perm) (a + PGSIZE, pa + PGSIZE) u = Ok r t \<and> pt_frame u qs t ps' pd
      \<and> (\<forall>k < 1048576. k < Suc j \<or> Suc j + n < k \<longrightarrow> pte (mem t) pd k = pte (mem u) pd k)
      \<and> (r = - 1 \<and> ps' = [] \<or> r = 0 \<and> (\<forall>k. Suc j \<le> k \<longrightarrow> k \<le> Suc j + n \<longrightarrow>
           pte (mem t) pd k = (pa + PGSIZE + word_of_nat (k - Suc j) * PGSIZE) OR perm OR PTE_P))"
      using Suc.prems N a' pu jlt by (intro Suc.IH pt_frameD(1,2) [OF st(2)]) auto
    then obtain r t ps' where t: "kloop M (mappages_body pd lst perm) (a + PGSIZE, pa + PGSIZE) u = Ok r t"
      "pt_frame u qs t ps' pd"
      "\<forall>k < 1048576. k < Suc j \<or> Suc j + n < k \<longrightarrow> pte (mem t) pd k = pte (mem u) pd k"
      "r = - 1 \<and> ps' = [] \<or> r = 0 \<and> (\<forall>k. Suc j \<le> k \<longrightarrow> k \<le> Suc j + n \<longrightarrow>
           pte (mem t) pd k = (pa + PGSIZE + word_of_nat (k - Suc j) * PGSIZE) OR perm OR PTE_P)" by blast
    have run: "kloop N (mappages_body pd lst perm) (a, pa) s = Ok r t"
      using st(1) t(1) by (simp add: N x kbind_apply)
    have low: "pte (mem t) pd k = pte (mem s) pd k" if "k < 1048576" "k < j \<or> j + Suc n < k" for k
      using that t(3) pu by auto
    have "pte (mem t) pd k = (pa + word_of_nat (k - j) * PGSIZE) OR perm OR PTE_P"
      if "r = 0" "j \<le> k" "k \<le> j + Suc n" for k
    proof (cases "k = j")
      case True
      then show ?thesis using t(3) pu jlt by simp
    next
      case False
      then have k: "k - j = Suc (k - Suc j)" "Suc j \<le> k" "k \<le> Suc j + n" using that by simp_all
      have "pa + word_of_nat (k - j) * PGSIZE = pa + PGSIZE + word_of_nat (k - Suc j) * PGSIZE"
        unfolding k(1) by (simp add: algebra_simps)
      moreover have "pte (mem t) pd k = (pa + PGSIZE + word_of_nat (k - Suc j) * PGSIZE) OR perm OR PTE_P"
        using t(4) k(2,3) that(1) by auto
      ultimately show ?thesis by (simp only:)
    qed
    then show ?thesis using run low pt_frame_trans [OF st(2) t(2)] t(4)
      by (intro exI [of _ r] exI [of _ t] exI [of _ ps']) auto
  qed
qed
lemma mappages_spec:
  assumes "kmem_inv s ps" "pt_ok s ps pd" "unat (PGROUNDDOWN va) = 4096 * j"
    and "unat (PGROUNDDOWN (va + sz - 1)) = 4096 * (j + n)"
    and "\<And>k. j \<le> k \<Longrightarrow> k \<le> j + n \<Longrightarrow> pte (mem s) pd k AND PTE_P = 0"
  shows "\<exists>r t ps'. mappages pd va sz pa perm s = Ok r t \<and> pt_frame s ps t ps' pd
    \<and> (\<forall>k < 1048576. k < j \<or> j + n < k \<longrightarrow> pte (mem t) pd k = pte (mem s) pd k)
    \<and> (r = - 1 \<and> ps' = [] \<or> r = 0 \<and> (\<forall>k. j \<le> k \<longrightarrow> k \<le> j + n \<longrightarrow>
         pte (mem t) pd k = (pa + word_of_nat (k - j) * PGSIZE) OR perm OR PTE_P))"
proof -
  have "n < vm_rounds"
    using assms(4) vpn_lt [of "PGROUNDDOWN (va + sz - 1)"] by (simp add: vpn_def vm_rounds_def)
  then show ?thesis unfolding mappages_def by (intro mappages_loop assms)
qed

lemma mappages_page:
  assumes "kmem_inv s ps" "pt_ok s ps pd" "va mod PGSIZE = 0" "pte (mem s) pd (vpn va) AND PTE_P = 0"
  shows "\<exists>r t ps'. mappages pd va PGSIZE pa perm s = Ok r t \<and> pt_frame s ps t ps' pd
    \<and> (r = - 1 \<and> ps = [] \<and> ps' = [] \<and> (\<forall>k < 1048576. pte (mem t) pd k = pte (mem s) pd k)
     \<or> r = 0 \<and> (\<forall>k < 1048576. pte (mem t) pd k = (if k = vpn va then pa OR perm OR PTE_P else pte (mem s) pd k)))"
proof -
  obtain k where k: "unat va = 4096 * k" "k < 1048576" using page_multiple [OF assms(3)] .
  have down: "PGROUNDDOWN va = va" by (simp add: word_unat_eq_iff unat_PGROUNDDOWN k)
  have "unat (va + PGSIZE - 1) = 4096 * k + 4095"
  proof -
    have e: "va + PGSIZE - 1 = va + 4095" by (simp add: PGSIZE_def)
    show ?thesis unfolding e using k by (simp add: unat_plus_lt)
  qed
  then have "unat (va + PGSIZE - 1) div 4096 = k" by (simp add: div_page_iff)
  then have last: "PGROUNDDOWN (va + PGSIZE - 1) = va" by (simp add: word_unat_eq_iff unat_PGROUNDDOWN k)
  obtain M where N: "vm_rounds = Suc M" by (cases vm_rounds) (simp_all add: vm_rounds_def)
  from map_step [OF assms(1,2,4), of va perm pa] show ?thesis
    unfolding mappages_def down last N
    by (elim exE conjE disjE) (auto simp: kbind_apply simp del: mappages_body.simps)
qed

section \<open>User address spaces\<close>

definition mapped :: "mem \<Rightarrow> uint \<Rightarrow> nat \<Rightarrow> bool" where
  "mapped m pd n \<longleftrightarrow> pte m pd n AND PTE_P \<noteq> 0"

definition upage :: "mem \<Rightarrow> uint \<Rightarrow> nat \<Rightarrow> uint" where
  "upage m pd n = P2V (PTE_ADDR (pte m pd n))"

text \<open>The number of pages below \<open>KERNBASE\<close>.\<close>

definition user_pages :: nat where "user_pages = 524288"

text \<open>
  A well-formed user address space: distinct user pages map to distinct pages of the
  allocator, none of them free and none a page of the page table.
\<close>

definition uvm_ok :: "'z kmem_scheme \<Rightarrow> uint list \<Rightarrow> uint \<Rightarrow> bool" where
  "uvm_ok s ps pd \<longleftrightarrow> kmem_inv s ps \<and> pt_ok s ps pd \<and> KERNBASE < kend s
     \<and> (\<forall>n < user_pages. mapped (mem s) pd n \<longrightarrow> page_ok s (upage (mem s) pd n)
          \<and> upage (mem s) pd n \<notin> set ps \<and> upage (mem s) pd n \<notin> tables (mem s) pd)
     \<and> inj_on (upage (mem s) pd) {n. n < user_pages \<and> mapped (mem s) pd n}"

lemma upage_page [simp]: "upage m pd n mod PGSIZE = 0"
  by (simp add: upage_def P2V_page)

lemma uvm_okD:
  assumes "uvm_ok s ps pd"
  shows "kmem_inv s ps" "pt_ok s ps pd" "KERNBASE < kend s"
    "n < user_pages \<Longrightarrow> mapped (mem s) pd n \<Longrightarrow> page_ok s (upage (mem s) pd n)
      \<and> upage (mem s) pd n \<notin> set ps \<and> upage (mem s) pd n \<notin> tables (mem s) pd"
    "inj_on (upage (mem s) pd) {n. n < user_pages \<and> mapped (mem s) pd n}"
  using assms by (simp_all add: uvm_ok_def)

text \<open>Address spaces whose page-table entries agree are both well formed, if the second one
  has a well-formed page table and allocator.\<close>

lemma uvm_ok_transfer:
  assumes ok: "uvm_ok s ps pd" and inv: "kmem_inv t qs" "pt_ok t qs pd" and fr: "kmem_frame s t"
    and pte: "\<And>k. k < user_pages \<Longrightarrow> mapped (mem t) pd k \<Longrightarrow> pte (mem t) pd k = pte (mem s) pd k"
    and pages: "\<And>k. k < user_pages \<Longrightarrow> mapped (mem t) pd k \<Longrightarrow> upage (mem s) pd k \<notin> set qs \<union> tables (mem t) pd"
  shows "uvm_ok t qs pd"
proof -
  have up: "upage (mem t) pd k = upage (mem s) pd k" "mapped (mem s) pd k" if "k < user_pages" "mapped (mem t) pd k" for k
    using pte [OF that] that(2) by (simp_all add: upage_def mapped_def)
  have "inj_on (upage (mem t) pd) {n. n < user_pages \<and> mapped (mem t) pd n}"
    using uvm_okD(5) [OF ok] up by (auto simp: inj_on_def)
  moreover have "page_ok t = page_ok s" using page_ok_frame [OF fr] by (simp add: fun_eq_iff)
  ultimately show ?thesis
    using inv up uvm_okD(3,4) [OF ok] pages fr by (auto simp: uvm_ok_def kmem_frame_def)
qed

section \<open>\<open>deallocuvm\<close>\<close>

text \<open>
  \<open>uvm_freed s ps t qs pd R\<close>: from \<open>s\<close> to \<open>t\<close> exactly the mapped pages with numbers in \<open>R\<close> were
  unmapped and put on the free list.
\<close>

definition uvm_freed :: "'z kmem_scheme \<Rightarrow> uint list \<Rightarrow> 'z kmem_scheme \<Rightarrow> uint list \<Rightarrow> uint \<Rightarrow> nat set \<Rightarrow> bool" where
  "uvm_freed s ps t qs pd R \<longleftrightarrow> kmem_frame s t \<and> uvm_ok t (qs @ ps) pd
     \<and> set qs = upage (mem s) pd ` {k \<in> R. mapped (mem s) pd k}
     \<and> tables (mem t) pd = tables (mem s) pd
     \<and> (\<forall>k < 1048576. pte (mem t) pd k = (if k \<in> R \<and> mapped (mem s) pd k then 0 else pte (mem s) pd k))
     \<and> (\<forall>a. (\<forall>q \<in> tables (mem s) pd \<union> set qs. \<not> in_page q a) \<longrightarrow> mem t a = mem s a)"

lemma uvm_freed_refl: "uvm_ok s ps pd \<Longrightarrow> (\<And>k. k \<in> R \<Longrightarrow> \<not> mapped (mem s) pd k) \<Longrightarrow> uvm_freed s ps s [] pd R"
  by (auto simp: uvm_freed_def)

lemma uvm_freedD:
  assumes "uvm_freed s ps t qs pd R"
  shows "kmem_frame s t" "uvm_ok t (qs @ ps) pd" "tables (mem t) pd = tables (mem s) pd"
    "set qs = upage (mem s) pd ` {k \<in> R. mapped (mem s) pd k}"
    "k < 1048576 \<Longrightarrow> pte (mem t) pd k = (if k \<in> R \<and> mapped (mem s) pd k then 0 else pte (mem s) pd k)"
    "(\<And>q. q \<in> tables (mem s) pd \<union> set qs \<Longrightarrow> \<not> in_page q a) \<Longrightarrow> mem t a = mem s a"
  using assms unfolding uvm_freed_def by blast+

lemma uvm_freed_trans:
  assumes 1: "uvm_freed s ps t qs pd R1" and 2: "uvm_freed t (qs @ ps) u rs pd R2"
    and R: "R1 \<inter> R2 = {}" "R1 \<union> R2 \<subseteq> {..<1048576}"
  shows "uvm_freed s ps u (rs @ qs) pd (R1 \<union> R2)"
proof -
  have same: "pte (mem t) pd k = pte (mem s) pd k" if "k \<in> R2" for k
  proof -
    have "k < 1048576" "k \<notin> R1" using that R by auto
    then show ?thesis using 1 by (simp add: uvm_freed_def)
  qed
  have m2: "mapped (mem t) pd k = mapped (mem s) pd k" "upage (mem t) pd k = upage (mem s) pd k" if "k \<in> R2" for k
    using same [OF that] by (simp_all add: mapped_def upage_def)
  have "{k \<in> R2. mapped (mem t) pd k} = {k \<in> R2. mapped (mem s) pd k}" using m2 by auto
  then have rs: "set rs = upage (mem s) pd ` {k \<in> R2. mapped (mem s) pd k}"
    using 2 m2 by (auto simp: uvm_freed_def)
  have pte: "pte (mem u) pd k = (if k \<in> R1 \<union> R2 \<and> mapped (mem s) pd k then 0 else pte (mem s) pd k)" if "k < 1048576" for k
  proof (cases "k \<in> R2")
    case True
    then show ?thesis using 2 m2 same that by (simp add: uvm_freed_def)
  next
    case False
    then show ?thesis using 1 2 that by (simp add: uvm_freed_def)
  qed
  have "set (rs @ qs) = upage (mem s) pd ` {k \<in> R1 \<union> R2. mapped (mem s) pd k}"
    using rs 1 by (auto simp: uvm_freed_def)
  moreover have "uvm_ok u ((rs @ qs) @ ps) pd" using 2 by (simp add: uvm_freed_def)
  moreover have "mem u a = mem s a" if "\<forall>q \<in> tables (mem s) pd \<union> set (rs @ qs). \<not> in_page q a" for a
  proof -
    have "mem t a = mem s a" by (rule uvm_freedD(6) [OF 1]) (use that in auto)
    moreover have "mem u a = mem t a" by (rule uvm_freedD(6) [OF 2]) (use that uvm_freedD(3) [OF 1] in auto)
    ultimately show ?thesis by simp
  qed
  ultimately show ?thesis using 1 2 pte by (auto simp: uvm_freed_def intro: kmem_frame_trans)
qed

lemma uvm_unmap:
  assumes ok: "uvm_ok s ps pd" and n: "n < user_pages" "mapped (mem s) pd n"
  defines "v \<equiv> upage (mem s) pd n"
  defines "t \<equiv> (freed v s)\<lparr>mem := store32 (mem (freed v s)) (pte_ptr (mem s) pd n) 0\<rparr>"
  shows "uvm_freed s ps t [v] pd {n}"
proof -
  let ?u = "freed v s"
  have n': "n < 1048576" using n(1) by (simp add: user_pages_def)
  note inv = uvm_okD(1) [OF ok] and pt = uvm_okD(2) [OF ok]
  have v: "page_ok s v" "v \<notin> set ps" "v \<notin> tables (mem s) pd" "v mod PGSIZE = 0"
    using uvm_okD(4) [OF ok n] by (simp_all add: v_def)
  have pres: "pde_present (mem s) pd (n div 1024)" using n(2) by (auto simp: mapped_def pte_def split: if_splits)
  have invu: "kmem_inv ?u (v # ps)" by (rule kmem_inv_freed [OF inv v(1,2)])
  have fru: "kmem_frame s ?u" using inv by (intro freed_frame) (simp add: kmem_inv_def)
  have pku: "page_ok ?u = page_ok s" using page_ok_frame [OF fru] by (simp add: fun_eq_iff)
  have tabmem: "mem ?u a = mem s a" if "q \<in> tables (mem s) pd" "in_page q a" for q a
  proof (rule freed_mem)
    have "q mod PGSIZE = 0" "q \<noteq> v" using tables_page [OF pt that(1)] v(3) that(1) by (auto simp: page_ok_def)
    then show "\<not> in_page v a" using that(2) in_page_disjoint v(4) by blast
  qed
  have pdmem: "\<And>a. in_page pd a \<Longrightarrow> mem ?u a = mem s a" using tabmem in_tables(2) by blast
  have ptu: "pt_ok ?u (v # ps) pd"
  proof -
    have "pt_ok ?u ps pd" by (rule pt_ok_cong [OF pt pdmem pku]) simp_all
    moreover have "v \<noteq> pd" using v(3) in_tables(2) by blast
    moreover have "ptab (mem ?u) pd i \<noteq> v" if "i < 1024" "pde_present (mem ?u) pd i" for i
      using in_tables(1) [OF that] v(3) tables_cong [OF pt_okD(2) [OF pt] pdmem] by auto
    ultimately show ?thesis by (simp add: pt_ok_def)
  qed
  have d: "pde_present (mem ?u) pd (n div 1024)" "pte_ptr (mem ?u) pd n = pte_ptr (mem s) pd n"
    using pde_cong [OF pt_okD(2) [OF pt] page_index(1) [OF n'] pdmem] pres by (simp_all add: pte_ptr_def)
  note sp = set_pte_frame [OF invu ptu n' d(1), where v = 0, unfolded d(2), folded t_def]
  have pteu: "pte (mem ?u) pd k = pte (mem s) pd k" if "k < 1048576" for k
    by (rule pt_cong [OF pt_okD(2) [OF pt] tabmem that])
  have tabs: "tables (mem t) pd = tables (mem s) pd"
    using sp(2) tables_cong [OF pt_okD(2) [OF pt] pdmem] by simp
  have pte: "\<forall>k < 1048576. pte (mem t) pd k = (if k = n then 0 else pte (mem s) pd k)"
    using sp(3) pteu by simp
  have fr: "kmem_frame s t" using fru pt_frameD(3) [OF sp(1)] by (rule kmem_frame_trans)
  have "uvm_ok t (v # ps) pd"
  proof (rule uvm_ok_transfer [OF ok pt_frameD(1,2) [OF sp(1)] fr])
    fix k assume k: "k < user_pages" "mapped (mem t) pd k"
    then have kn: "k \<noteq> n" "pte (mem t) pd k = pte (mem s) pd k"
      using pte n' by (auto simp: mapped_def user_pages_def)
    then show "pte (mem t) pd k = pte (mem s) pd k" by simp
    have mk: "mapped (mem s) pd k" using k(2) kn(2) by (simp add: mapped_def)
    have "upage (mem s) pd k \<noteq> v"
      using inj_onD [OF uvm_okD(5) [OF ok], of k n] n k(1) mk kn(1) by (auto simp: v_def)
    then show "upage (mem s) pd k \<notin> set (v # ps) \<union> tables (mem t) pd"
      using uvm_okD(4) [OF ok k(1) mk] tabs by simp
  qed
  moreover have "mem t a = mem s a" if "\<forall>q \<in> tables (mem s) pd \<union> {v}. \<not> in_page q a" for a
  proof -
    have "\<not> in_page (ptab (mem ?u) pd (n div 1024)) a"
      using that in_tables(1) [OF page_index(1) [OF n'] pres] pde_cong(3) [OF pt_okD(2) [OF pt] page_index(1) [OF n'] pdmem] by simp
    then show ?thesis using sp(4) [of a] freed_mem [of v a s] that by simp
  qed
  ultimately show ?thesis
    using n(2) fr pte tabs by (auto simp: uvm_freed_def v_def)
qed

lemma PGADDR_next:
  assumes "vpn a < user_pages"
  shows "PGADDR (PDX a + 1) 0 0 = word_of_nat (4194304 * (vpn a div 1024 + 1))"
proof -
  have "PDX a + 1 = word_of_nat (vpn a div 1024 + 1)" by (simp add: PDX_vpn add.commute)
  then have "PGADDR (PDX a + 1) 0 0 = push_bit 22 (word_of_nat (vpn a div 1024 + 1))"
    unfolding PGADDR_def by (simp only: push_bit_of_0 or.right_neutral)
  then show ?thesis by (simp add: push_bit_eq_mult)
qed

lemma uvm_freed_cong:
  assumes "\<And>k. mapped (mem s) pd k \<Longrightarrow> k \<in> R \<longleftrightarrow> k \<in> R'" "uvm_freed s ps t qs pd R"
  shows "uvm_freed s ps t qs pd R'"
proof -
  have "{k \<in> R. mapped (mem s) pd k} = {k \<in> R'. mapped (mem s) pd k}" using assms(1) by blast
  moreover have "(k \<in> R \<and> mapped (mem s) pd k) = (k \<in> R' \<and> mapped (mem s) pd k)" for k using assms(1) by blast
  ultimately show ?thesis using assms(2) by (simp add: uvm_freed_def)
qed

lemma upage_nonzero:
  assumes "uvm_ok s ps pd" "n < user_pages" "mapped (mem s) pd n"
  shows "PTE_ADDR (pte (mem s) pd n) \<noteq> 0"
proof
  assume "PTE_ADDR (pte (mem s) pd n) = 0"
  then have "upage (mem s) pd n = KERNBASE" by (simp add: upage_def P2V_def)
  then have "\<not> KERNBASE < kend s" using uvm_okD(4) [OF assms] by (simp add: page_ok_def)
  with uvm_okD(3) [OF assms(1)] show False by simp
qed

lemma deallocuvm_step:
  assumes ok: "uvm_ok s ps pd" and a: "unat a = 4096 * j" "j < user_pages" "a < oldsz"
  shows "\<exists>a' j' t qs. deallocuvm_body pd oldsz newsz a s = Ok (Inl a') t \<and> unat a' = 4096 * j' \<and> j < j'
    \<and> (\<forall>k. j < k \<and> k < j' \<longrightarrow> \<not> mapped (mem s) pd k) \<and> uvm_freed s ps t qs pd {j}"
proof -
  have va: "vpn a = j" using a(1) by (simp add: vpn_def)
  have nx: "unat (a + PGSIZE) = 4096 * Suc j"
    using a by (simp add: unat_plus_lt PGSIZE_def user_pages_def)
  let ?pres = "pde_present (mem s) pd (j div 1024)"
  have tab: "page_ok s (ptab (mem s) pd (j div 1024))" if ?pres
    using pt_okD(4) [OF uvm_okD(2) [OF ok] page_index(1) that] a(2) by (simp add: user_pages_def)
  have ptr: "pte_ptr (mem s) pd j \<noteq> 0" if ?pres
    unfolding pte_ptr_def using tab [OF that] uvm_okD(1) [OF ok]
    by (intro entry_nonzero) (auto simp: page_ok_def kmem_inv_def)
  consider (skip) "\<not> ?pres" | (hole) "?pres" "\<not> mapped (mem s) pd j" | (free) "?pres" "mapped (mem s) pd j" by blast
  then show ?thesis
  proof cases
    case skip
    define j' where "j' = 1024 * (j div 1024 + 1)"
    have "j div 1024 < 512" using a(2) by (simp add: user_pages_def less_mult_imp_div_less)
    then have un: "unat (word_of_nat (4194304 * (j div 1024 + 1)) :: uint) = 4096 * j'"
      unfolding j'_def by (subst unat_word_of_nat) simp_all
    have "deallocuvm_body pd oldsz newsz a s = Ok (Inl (word_of_nat (4194304 * (j div 1024 + 1)))) s"
      using skip a va PGADDR_next [of a] by (simp add: deallocuvm_body_def walkpgdir_noalloc kbind_apply)
    moreover have "j < j'" unfolding j'_def using dividend_less_times_div [of 1024 j] by simp
    moreover have "\<not> mapped (mem s) pd k" if "j \<le> k" "k < j'" for k
    proof -
      have "k div 1024 = j div 1024"
      proof (rule antisym)
        show "k div 1024 \<le> j div 1024" using that(2) unfolding j'_def
          by (metis Suc_eq_plus1 less_Suc_eq_le less_mult_imp_div_less mult.commute)
        show "j div 1024 \<le> k div 1024" using that(1) by (rule div_le_mono)
      qed
      then show ?thesis using skip by (simp add: mapped_def pte_def)
    qed
    ultimately show ?thesis using un uvm_freed_refl [OF ok, of "{j}"]
      by (intro exI [of _ "word_of_nat (4194304 * (j div 1024 + 1))"] exI [of _ j'] exI [of _ s] exI [of _ "[]"]) simp
  next
    case hole
    then have "deallocuvm_body pd oldsz newsz a s = Ok (Inl (a + PGSIZE)) s"
      using a va ptr by (simp add: deallocuvm_body_def walkpgdir_noalloc kbind_apply mapped_def pte_def)
    then show ?thesis using nx hole(2) uvm_freed_refl [OF ok, of "{j}"]
      by (intro exI [of _ "a + PGSIZE"] exI [of _ "Suc j"] exI [of _ s] exI [of _ "[]"]) auto
  next
    case free
    define v where "v = upage (mem s) pd j"
    have e: "load32 (mem s) (pte_ptr (mem s) pd j) = pte (mem s) pd j" using free by (simp add: pte_def)
    have kf: "kfree v s = Ok () (freed v s)"
      using uvm_okD(4) [OF ok a(2) free(2)] uvm_okD(1) [OF ok] by (intro kfree_eq) (simp_all add: v_def kmem_inv_def)
    have nz: "PTE_ADDR (pte (mem s) pd j) \<noteq> 0" using upage_nonzero [OF ok a(2) free(2)] .
    have "deallocuvm_body pd oldsz newsz a s
        = Ok (Inl (a + PGSIZE)) ((freed v s)\<lparr>mem := store32 (mem (freed v s)) (pte_ptr (mem s) pd j) 0\<rparr>)"
      using free a va ptr e kf nz
      by (simp add: deallocuvm_body_def walkpgdir_noalloc kbind_apply mapped_def v_def upage_def)
    then show ?thesis using nx uvm_unmap [OF ok a(2) free(2), folded v_def]
      by (intro exI [of _ "a + PGSIZE"] exI [of _ "Suc j"] exI [of _ "[v]"] exI conjI) (assumption | auto)+
  qed
qed

lemma deallocuvm_loop:
  assumes "uvm_ok s ps pd" "unat a = 4096 * j" "unat oldsz \<le> 2147483648"
    and "M = (unat oldsz + 4095) div 4096" "M - j < N"
  shows "\<exists>t qs. kloop N (deallocuvm_body pd oldsz newsz) a s = Ok newsz t \<and> uvm_freed s ps t qs pd {j..<M}"
  using assms
proof (induction N arbitrary: s ps a j)
  case 0
  then show ?case by simp
next
  case (Suc N)
  have M: "4096 * M \<le> unat oldsz + 4095" "unat oldsz + 4095 < 4096 * M + 4096"
    using div_page_iff [of "unat oldsz + 4095" M] Suc.prems(4) by simp_all
  have alt: "a < oldsz \<longleftrightarrow> j < M"
  proof -
    have "unat a < unat oldsz \<longleftrightarrow> j < M" using M unfolding Suc.prems(2) by (auto simp: not_less)
    then show ?thesis by (simp add: word_less_nat_alt)
  qed
  have va: "vpn a = j" using Suc.prems(2) by (simp add: vpn_def)
  show ?case
  proof (cases "j < M")
    case False
    then show ?thesis
      using Suc.prems(1) uvm_freed_refl [of s ps pd "{j..<M}"] by (simp add: deallocuvm_body_def alt) auto
  next
    case True
    have jM: "j < user_pages" using True M Suc.prems(3) by (simp add: user_pages_def)
    obtain a' j' t qs where st: "deallocuvm_body pd oldsz newsz a s = Ok (Inl a') t" "unat a' = 4096 * j'" "j < j'"
      "\<forall>k. j < k \<and> k < j' \<longrightarrow> \<not> mapped (mem s) pd k" "uvm_freed s ps t qs pd {j}"
      using deallocuvm_step [OF Suc.prems(1,2) jM, of oldsz newsz] alt True by blast
    have "M - j' < N" using st(3) Suc.prems(5) True by simp
    from Suc.IH [OF uvm_freedD(2) [OF st(5)] st(2) Suc.prems(3,4) this] obtain u rs where
      u: "kloop N (deallocuvm_body pd oldsz newsz) a' t = Ok newsz u" "uvm_freed t (qs @ ps) u rs pd {j'..<M}" by blast
    have "M \<le> 1048576" using M Suc.prems(3) by simp
    then have fr: "uvm_freed s ps u (rs @ qs) pd ({j} \<union> {j'..<M})"
      using st(3) jM by (intro uvm_freed_trans [OF st(5) u(2)]) (auto simp: user_pages_def)
    have "uvm_freed s ps u (rs @ qs) pd {j..<M}"
    proof (rule uvm_freed_cong [OF _ fr])
      fix k assume "mapped (mem s) pd k"
      with st(4) have "\<not> (j < k \<and> k < j')" by blast
      with st(3) True show "k \<in> {j} \<union> {j'..<M} \<longleftrightarrow> k \<in> {j..<M}" by auto
    qed
    then show ?thesis using st(1) u(1) by (auto simp: kbind_apply)
  qed
qed

text \<open>\<open>deallocuvm\<close> frees the mapped pages of its range, and nothing else.\<close>

lemma deallocuvm_spec:
  assumes ok: "uvm_ok s ps pd" and sz: "newsz < oldsz" "unat oldsz \<le> 2147483648"
  shows "\<exists>t qs. deallocuvm pd oldsz newsz s = Ok newsz t
    \<and> uvm_freed s ps t qs pd {(unat newsz + 4095) div 4096 ..< (unat oldsz + 4095) div 4096}"
proof -
  have "unat newsz + 4095 < 2 ^ 32" using sz by (simp add: word_less_nat_alt)
  then have "unat (PGROUNDUP newsz) = 4096 * ((unat newsz + 4095) div 4096)" by (rule unat_PGROUNDUP)
  moreover have "(unat oldsz + 4095) div 4096 - (unat newsz + 4095) div 4096 < vm_rounds"
    using sz(2) by (simp add: vm_rounds_def)
  moreover have "deallocuvm pd oldsz newsz s = kloop vm_rounds (deallocuvm_body pd oldsz newsz) (PGROUNDUP newsz) s"
    using sz(1) by (simp add: deallocuvm_def not_le [symmetric])
  ultimately show ?thesis using deallocuvm_loop [OF ok _ sz(2) refl] by simp
qed

end
