(* ===== verification/Ualloc.thy ===== *)
theory Ualloc
  imports Uvm
begin

text \<open>
  Growing and shrinking a user address space: \<open>allocuvm\<close> maps fresh zeroed pages, and when
  memory runs out it undoes what it did.
\<close>

section \<open>\<open>allocuvm\<close>\<close>

text \<open>A page that is neither free nor part of the address space \<open>pd\<close>.\<close>

definition fresh_for :: "'z kmem_scheme \<Rightarrow> uint list \<Rightarrow> uint \<Rightarrow> uint \<Rightarrow> bool" where
  "fresh_for s ps pd p \<longleftrightarrow> page_ok s p \<and> p \<noteq> 0 \<and> p \<notin> set ps \<and> p \<notin> tables (mem s) pd
     \<and> (\<forall>k < user_pages. mapped (mem s) pd k \<longrightarrow> upage (mem s) pd k \<noteq> p)"

text \<open>Changing memory outside the page table keeps the address space.\<close>

lemma uvm_ok_outside:
  assumes ok: "uvm_ok s ps pd" and inv: "kmem_inv t qs" and fr: "kmem_frame s t"
    and same: "\<And>q a. q \<in> tables (mem s) pd \<Longrightarrow> in_page q a \<Longrightarrow> mem t a = mem s a"
    and qs: "\<And>q. q \<in> set qs \<Longrightarrow> q \<in> set ps \<or> fresh_for s ps pd q"
  shows "uvm_ok t qs pd" "tables (mem t) pd = tables (mem s) pd"
    "\<forall>k < 1048576. pte (mem t) pd k = pte (mem s) pd k"
proof -
  note pt = uvm_okD(2) [OF ok]
  have pdmem: "\<And>a. in_page pd a \<Longrightarrow> mem t a = mem s a" using same in_tables(2) by blast
  have pk: "page_ok t = page_ok s" using page_ok_frame [OF fr] by (simp add: fun_eq_iff)
  show tabs: "tables (mem t) pd = tables (mem s) pd" by (rule tables_cong [OF pt_okD(2) [OF pt] pdmem])
  show pte: "\<forall>k < 1048576. pte (mem t) pd k = pte (mem s) pd k"
    by (intro allI impI pt_cong [OF pt_okD(2) [OF pt]]) (auto intro: same)
  have notin: "q \<notin> set qs" if "q \<in> tables (mem s) pd" for q
    using qs [of q] tables_page [OF pt that] that by (auto simp: fresh_for_def)
  have "pt_ok t [] pd" by (rule pt_ok_cong [OF pt pdmem pk]) simp_all
  then have ptt: "pt_ok t qs pd"
    using notin tabs in_tables(1) [of _ "mem t" pd] in_tables(2) [of pd "mem t"] unfolding pt_ok_def by auto
  show "uvm_ok t qs pd"
  proof (rule uvm_ok_transfer [OF ok inv ptt fr])
    fix k assume k: "k < user_pages" "mapped (mem t) pd k"
    then have e: "pte (mem t) pd k = pte (mem s) pd k" using pte by (simp add: user_pages_def)
    then show "pte (mem t) pd k = pte (mem s) pd k" .
    have "mapped (mem s) pd k" using k(2) e by (simp add: mapped_def)
    then show "upage (mem s) pd k \<notin> set qs \<union> tables (mem t) pd"
      using uvm_okD(4) [OF ok k(1)] qs k(1) tabs by (auto simp: fresh_for_def)
  qed
qed

lemma page_outside: "p mod PGSIZE = 0 \<Longrightarrow> q mod PGSIZE = 0 \<Longrightarrow> p \<noteq> q \<Longrightarrow> in_page q a \<Longrightarrow> \<not> in_page p a"
  using in_page_disjoint by blast

text \<open>Taking a page off the free list and filling it.\<close>

lemma uvm_take:
  assumes ok: "uvm_ok s (p # ps) pd" and m': "\<And>a. \<not> in_page p a \<Longrightarrow> m' a = mem s a"
  defines "u \<equiv> (allocated s)\<lparr>mem := m'\<rparr>"
  shows "kalloc s = Ok p (allocated s)" "kmem_frame s u" "uvm_ok u ps pd"
    "tables (mem u) pd = tables (mem s) pd" "\<forall>k < 1048576. pte (mem u) pd k = pte (mem s) pd k"
    "fresh_for u ps pd p"
proof -
  note inv = uvm_okD(1) [OF ok] and pt = uvm_okD(2) [OF ok]
  show "kalloc s = Ok p (allocated s)" using inv kmem_inv_allocated [OF inv] by (simp add: kalloc_eq kmem_inv_def)
  have p: "page_ok s p" "p mod PGSIZE = 0" "p \<noteq> 0" "p \<notin> set ps"
    using inv by (auto simp: kmem_inv_def page_ok_def)
  have "kmem_frame s (allocated s)" using inv by (intro allocated_frame) (simp add: kmem_inv_def)
  then show fr: "kmem_frame s u" unfolding u_def by (rule kmem_frame_trans [OF _ kmem_frame_mem])
  have pk: "page_ok u = page_ok s" using page_ok_frame [OF fr] by (simp add: fun_eq_iff)
  have invu: "kmem_inv u ps"
    unfolding u_def
  proof (rule kmem_inv_write)
    show "kmem_inv (allocated s) ps" using kmem_inv_allocated [OF inv] by simp
    show "m' a = mem (allocated s) a" if "q \<in> set ps" "in_page q a" for q a
    proof -
      have "q mod PGSIZE = 0" "q \<noteq> p" using inv that p(4) by (auto simp: kmem_inv_def page_ok_def)
      then show ?thesis using m' page_outside [OF p(2) _ _ that(2)] by simp
    qed
  qed
  have pt_p: "p \<notin> tables (mem s) pd" using tables_page [OF pt, of p] by auto
  have same: "mem u a = mem s a" if "q \<in> tables (mem s) pd" "in_page q a" for q a
  proof -
    have "q mod PGSIZE = 0" "q \<noteq> p" using tables_page [OF pt that(1)] that(1) pt_p by (auto simp: page_ok_def)
    then show ?thesis using m' page_outside [OF p(2) _ _ that(2)] by (simp add: u_def)
  qed
  have sub: "\<And>q. q \<in> set ps \<Longrightarrow> q \<in> set (p # ps) \<or> fresh_for s (p # ps) pd q" by simp
  show "uvm_ok u ps pd" by (rule uvm_ok_outside(1) [OF ok invu fr]) (use same sub in blast)+
  show tabs: "tables (mem u) pd = tables (mem s) pd" by (rule uvm_ok_outside(2) [OF ok invu fr]) (use same sub in blast)+
  show pte: "\<forall>k < 1048576. pte (mem u) pd k = pte (mem s) pd k" by (rule uvm_ok_outside(3) [OF ok invu fr]) (use same sub in blast)+
  have "upage (mem u) pd k \<noteq> p" if "k < user_pages" "mapped (mem u) pd k" for k
    using that pte uvm_okD(4) [OF ok, of k] by (auto simp: mapped_def upage_def user_pages_def)
  then show "fresh_for u ps pd p" using p pk pt_p tabs by (simp add: fresh_for_def)
qed

text \<open>Freeing a page that the address space does not use.\<close>

lemma uvm_give:
  assumes ok: "uvm_ok s ps pd" and p: "fresh_for s ps pd p"
  shows "kfree p s = Ok () (freed p s)" "kmem_frame s (freed p s)" "uvm_ok (freed p s) (p # ps) pd"
    "tables (mem (freed p s)) pd = tables (mem s) pd"
    "\<forall>k < 1048576. pte (mem (freed p s)) pd k = pte (mem s) pd k"
proof -
  note inv = uvm_okD(1) [OF ok] and pt = uvm_okD(2) [OF ok]
  have p': "page_ok s p" "p mod PGSIZE = 0" "p \<notin> set ps" "p \<notin> tables (mem s) pd"
    using p by (auto simp: fresh_for_def page_ok_def)
  show "kfree p s = Ok () (freed p s)" using inv p' by (intro kfree_eq) (simp_all add: kmem_inv_def)
  show fr: "kmem_frame s (freed p s)" using inv by (intro freed_frame) (simp add: kmem_inv_def)
  have invu: "kmem_inv (freed p s) (p # ps)" by (rule kmem_inv_freed [OF inv p'(1,3)])
  have same: "mem (freed p s) a = mem s a" if "q \<in> tables (mem s) pd" "in_page q a" for q a
  proof (rule freed_mem)
    have "q mod PGSIZE = 0" "q \<noteq> p" using tables_page [OF pt that(1)] that(1) p' by (auto simp: page_ok_def)
    then show "\<not> in_page p a" using page_outside [OF p'(2) _ _ that(2)] by simp
  qed
  have sub: "\<And>q. q \<in> set (p # ps) \<Longrightarrow> q \<in> set ps \<or> fresh_for s ps pd q" using p by auto
  show "uvm_ok (freed p s) (p # ps) pd" by (rule uvm_ok_outside(1) [OF ok invu fr]) (use same sub in blast)+
  show "tables (mem (freed p s)) pd = tables (mem s) pd" by (rule uvm_ok_outside(2) [OF ok invu fr]) (use same sub in blast)+
  show "\<forall>k < 1048576. pte (mem (freed p s)) pd k = pte (mem s) pd k" by (rule uvm_ok_outside(3) [OF ok invu fr]) (use same sub in blast)+
qed

lemma PTE_P_bits [simp]: "PTE_P AND NOT 0xFFF = 0" "PTE_P \<noteq> 0"
  by (simp_all add: PTE_P_def)

lemma or_PTE_P_bits: "f AND NOT 0xFFF = 0 \<Longrightarrow> (f OR PTE_P) AND NOT 0xFFF = 0" "(f OR PTE_P) AND PTE_P \<noteq> 0"
proof -
  assume f: "f AND NOT 0xFFF = 0"
  show "(f OR PTE_P) AND NOT 0xFFF = 0" unfolding bit.conj_disj_distrib2 f by (simp add: PTE_P_def)
next
  have "bit ((f OR PTE_P) AND PTE_P) 0" by (simp add: bit_simps PTE_P_def)
  then show "(f OR PTE_P) AND PTE_P \<noteq> 0" by (metis bit_0_eq bot_apply bot_bool_def)
qed

lemma mapped_pte_make:
  assumes "p mod PGSIZE = 0" "perm AND NOT 0xFFF = 0" "pte m pd j = V2P p OR perm OR PTE_P"
  shows "upage m pd j = p" "mapped m pd j"
proof -
  have e: "pte m pd j = V2P p OR (perm OR PTE_P)" using assms(3) by (simp add: or.assoc)
  note mk = pte_make [OF V2P_page [OF assms(1)] or_PTE_P_bits(1) [OF assms(2)]]
  show "upage m pd j = p" unfolding upage_def e mk(1) by simp
  show "mapped m pd j" unfolding mapped_def e mk(3) by (rule or_PTE_P_bits(2))
qed

text \<open>Mapping a fresh page into the address space.\<close>

lemma uvm_map:
  assumes ok: "uvm_ok s ps pd" and p: "fresh_for s ps pd p" and j: "j < user_pages" "\<not> mapped (mem s) pd j"
    and perm: "perm AND NOT 0xFFF = 0" and va: "unat va = 4096 * j"
  shows "\<exists>r t ps'. mappages pd va PGSIZE (V2P p) perm s = Ok r t \<and> pt_frame s ps t ps' pd \<and> uvm_ok t ps' pd
    \<and> (r = - 1 \<and> ps = [] \<and> ps' = [] \<and> fresh_for t [] pd p \<and> (\<forall>k < 1048576. pte (mem t) pd k = pte (mem s) pd k)
     \<or> r = 0 \<and> (\<forall>k < 1048576. pte (mem t) pd k = (if k = j then V2P p OR perm OR PTE_P else pte (mem s) pd k)))"
proof -
  have pp: "page_ok s p" "p mod PGSIZE = 0" "p \<noteq> 0" "p \<notin> set ps" "p \<notin> tables (mem s) pd"
    "\<And>k. k < user_pages \<Longrightarrow> mapped (mem s) pd k \<Longrightarrow> upage (mem s) pd k \<noteq> p"
    using p by (auto simp: fresh_for_def page_ok_def)
  have v: "vpn va = j" "va mod PGSIZE = 0" using va page_of_multiple by (simp_all add: vpn_def)
  have fr: "pte (mem s) pd (vpn va) AND PTE_P = 0" using j v by (simp add: mapped_def)
  from mappages_page [OF uvm_okD(1,2) [OF ok] v(2) fr, of "V2P p" perm] obtain r t ps' where
    t: "mappages pd va PGSIZE (V2P p) perm s = Ok r t" "pt_frame s ps t ps' pd"
      "r = - 1 \<and> ps = [] \<and> ps' = [] \<and> (\<forall>k < 1048576. pte (mem t) pd k = pte (mem s) pd k)
       \<or> r = 0 \<and> (\<forall>k < 1048576. pte (mem t) pd k = (if k = j then V2P p OR perm OR PTE_P else pte (mem s) pd k))"
    unfolding v by blast
  note d = pt_frameD [OF t(2)]
  have tp: "p \<notin> tables (mem t) pd" "p \<notin> set ps'" "page_ok t p" using pp d by auto
  have old: "upage (mem t) pd k = upage (mem s) pd k \<and> mapped (mem s) pd k \<and> upage (mem s) pd k \<notin> set ps' \<union> tables (mem t) pd
      \<and> page_ok t (upage (mem s) pd k)"
    if "k < user_pages" "mapped (mem t) pd k" "pte (mem t) pd k = pte (mem s) pd k" for k
    using that uvm_okD(4) [OF ok that(1)] d by (auto simp: mapped_def upage_def)
  have ku: "k < 1048576" if "k < user_pages" for k using that by (simp add: user_pages_def)
  from t(3) show ?thesis
  proof (elim disjE conjE)
    assume r: "r = - 1" "ps = []" "ps' = []" and same: "\<forall>k < 1048576. pte (mem t) pd k = pte (mem s) pd k"
    have "uvm_ok t ps' pd" using old same ku by (intro uvm_ok_transfer [OF ok d(1,2,3)]) auto
    moreover have "fresh_for t [] pd p" using tp pp(3,6) old same ku by (auto simp: fresh_for_def)
    ultimately show ?thesis using t(1,2) r same by (intro exI [of _ r] exI [of _ t] exI [of _ ps']) simp
  next
    assume r: "r = 0"
      and new: "\<forall>k < 1048576. pte (mem t) pd k = (if k = j then V2P p OR perm OR PTE_P else pte (mem s) pd k)"
    have mj: "upage (mem t) pd j = p" "mapped (mem t) pd j"
      using mapped_pte_make [OF pp(2) perm, of "mem t" pd j] new ku [OF j(1)] by simp_all
    have oth: "pte (mem t) pd k = pte (mem s) pd k" if "k < user_pages" "k \<noteq> j" for k using new ku that by simp
    have "inj_on (upage (mem t) pd) {n. n < user_pages \<and> mapped (mem t) pd n}"
    proof (rule inj_onI)
      fix k l assume kl: "k \<in> {n. n < user_pages \<and> mapped (mem t) pd n}" "l \<in> {n. n < user_pages \<and> mapped (mem t) pd n}"
        and eq: "upage (mem t) pd k = upage (mem t) pd l"
      have ne: "upage (mem t) pd n \<noteq> p" if "n < user_pages" "mapped (mem t) pd n" "n \<noteq> j" for n
        using old [OF that(1,2) oth [OF that(1,3)]] pp(6) [OF that(1)] by auto
      show "k = l"
      proof (cases "k = j \<or> l = j")
        case True
        then show ?thesis using ne [of k] ne [of l] kl eq mj by (cases "k = j"; cases "l = j") auto
      next
        case False
        then show ?thesis
          using old [of k] old [of l] oth kl eq inj_onD [OF uvm_okD(5) [OF ok], of k l] by auto
      qed
    qed
    moreover have "page_ok t (upage (mem t) pd n) \<and> upage (mem t) pd n \<notin> set ps' \<and> upage (mem t) pd n \<notin> tables (mem t) pd"
      if "n < user_pages" "mapped (mem t) pd n" for n
      using mj tp old [OF that oth [OF that(1)]] by (cases "n = j") auto
    moreover have "KERNBASE < kend t" using uvm_okD(3) [OF ok] d(3) by (simp add: kmem_frame_def)
    ultimately have "uvm_ok t ps' pd" using d(1,2) by (simp add: uvm_ok_def)
    then show ?thesis using t(1,2) r new by (intro exI [of _ r] exI [of _ t] exI [of _ ps']) simp
  qed
qed

text \<open>
  \<open>uvm_grown s ps t ps' pd R X\<close>: from \<open>s\<close> to \<open>t\<close> the pages with numbers in \<open>R\<close> were mapped to pages
  that were free and are filled with zeros; the rest of the address space is as before. The
  pages \<open>X\<close> are off the free list and not mapped yet.
\<close>

definition uvm_grown :: "'z kmem_scheme \<Rightarrow> uint list \<Rightarrow> 'z kmem_scheme \<Rightarrow> uint list \<Rightarrow> uint
    \<Rightarrow> nat set \<Rightarrow> uint set \<Rightarrow> bool" where
  "uvm_grown s ps t ps' pd R X \<longleftrightarrow> kmem_frame s t \<and> uvm_ok t ps' pd
     \<and> tables (mem s) pd \<subseteq> tables (mem t) pd \<and> set ps' \<subseteq> set ps
     \<and> tables (mem t) pd \<union> set ps' \<union> upage (mem t) pd ` R \<union> X = tables (mem s) pd \<union> set ps
     \<and> (\<forall>k < 1048576. k \<notin> R \<longrightarrow> pte (mem t) pd k = pte (mem s) pd k)
     \<and> (\<forall>k \<in> R. pte (mem t) pd k = V2P (upage (mem t) pd k) OR (PTE_W OR PTE_U) OR PTE_P)
     \<and> (\<forall>k \<in> R. \<forall>a. in_page (upage (mem t) pd k) a \<longrightarrow> mem t a = 0)
     \<and> (\<forall>p \<in> X. fresh_for t ps' pd p \<and> (\<forall>a. in_page p a \<longrightarrow> mem t a = 0))
     \<and> (\<forall>a. (\<forall>q \<in> tables (mem s) pd \<union> set ps. \<not> in_page q a) \<longrightarrow> mem t a = mem s a)"

lemma uvm_grownD:
  assumes "uvm_grown s ps t ps' pd R X"
  shows "kmem_frame s t" "uvm_ok t ps' pd" "tables (mem s) pd \<subseteq> tables (mem t) pd" "set ps' \<subseteq> set ps"
    "tables (mem t) pd \<union> set ps' \<union> upage (mem t) pd ` R \<union> X = tables (mem s) pd \<union> set ps"
    "k < 1048576 \<Longrightarrow> k \<notin> R \<Longrightarrow> pte (mem t) pd k = pte (mem s) pd k"
    "k \<in> R \<Longrightarrow> pte (mem t) pd k = V2P (upage (mem t) pd k) OR (PTE_W OR PTE_U) OR PTE_P"
    "k \<in> R \<Longrightarrow> in_page (upage (mem t) pd k) a \<Longrightarrow> mem t a = 0"
    "p \<in> X \<Longrightarrow> fresh_for t ps' pd p" "p \<in> X \<Longrightarrow> in_page p a \<Longrightarrow> mem t a = 0"
    "(\<And>q. q \<in> tables (mem s) pd \<union> set ps \<Longrightarrow> \<not> in_page q a) \<Longrightarrow> mem t a = mem s a"
  using assms unfolding uvm_grown_def by blast+

lemma uvm_grown_refl: "uvm_ok s ps pd \<Longrightarrow> uvm_grown s ps s ps pd {} {}"
  by (simp add: uvm_grown_def)

lemma WU_bits: "(PTE_W OR PTE_U) AND NOT 0xFFF = 0"
  by (simp add: PTE_W_def PTE_U_def)

lemma uvm_grown_mapped: "uvm_grown s ps t ps' pd R X \<Longrightarrow> k \<in> R \<Longrightarrow> mapped (mem t) pd k"
  using mapped_pte_make(2) [OF upage_page WU_bits] uvm_grownD(7) by blast

lemma uvm_grown_take:
  assumes g: "uvm_grown s ps t (p # qs) pd R {}" and R: "R \<subseteq> {..<user_pages}"
  defines "u \<equiv> (allocated t)\<lparr>mem := memset (mem t) p 0 PGSIZE\<rparr>"
  shows "kalloc t = Ok p (allocated t)" "uvm_grown s ps u qs pd R {p}"
proof -
  note d = uvm_grownD [OF g]
  have p: "page_ok t p" "p mod PGSIZE = 0" using uvm_okD(1) [OF d(2)] by (auto simp: kmem_inv_def page_ok_def)
  have out: "\<And>a. \<not> in_page p a \<Longrightarrow> memset (mem t) p 0 PGSIZE a = mem t a" by (rule memset_page_outside)
  note tk = uvm_take [OF d(2) out, folded u_def]
  show "kalloc t = Ok p (allocated t)" by (rule tk(1)) simp_all
  have pteR: "pte (mem u) pd k = pte (mem t) pd k" "upage (mem u) pd k = upage (mem t) pd k" if "k \<in> R" for k
    using tk(5) that R by (auto simp: upage_def user_pages_def subset_iff)
  have "mem u a = 0" if "k \<in> R" "in_page (upage (mem t) pd k) a" for k a
  proof -
    have "upage (mem t) pd k \<noteq> p"
      using uvm_okD(4) [OF d(2), of k] that R uvm_grown_mapped [OF g that(1)] by auto
    then have "\<not> in_page p a" using page_outside [OF p(2) upage_page _ that(2)] by blast
    then show ?thesis using out d(8) [OF that] by (simp add: u_def)
  qed
  moreover have "mem u a = 0" if "in_page p a" for a using that by (simp add: u_def memset_page_inside)
  moreover have "mem u a = mem s a" if "\<forall>q \<in> tables (mem s) pd \<union> set ps. \<not> in_page q a" for a
  proof -
    have "p \<in> set ps" using d(4) by simp
    then have "mem u a = mem t a" using that out by (auto simp: u_def)
    also have "\<dots> = mem s a" by (rule d(11)) (use that in blast)
    finally show ?thesis .
  qed
  moreover have "upage (mem u) pd ` R = upage (mem t) pd ` R" using pteR by auto
  moreover have "set (p # qs) = insert p (set qs)" by simp
  ultimately show "uvm_grown s ps u qs pd R {p}"
    using tk(2-6) d(1,3-7) pteR by (auto simp: uvm_grown_def intro: kmem_frame_trans)
qed

lemma uvm_grown_map:
  assumes g: "uvm_grown s ps u qs pd R {p}" and R: "R \<subseteq> {..<user_pages}" "j \<notin> R" "j < user_pages"
    and new: "\<not> mapped (mem s) pd j" and va: "unat va = 4096 * j"
  shows "\<exists>r v qs'. mappages pd va PGSIZE (V2P p) (PTE_W OR PTE_U) u = Ok r v
    \<and> (r = - 1 \<and> qs' = [] \<and> uvm_grown s ps v qs' pd R {p} \<or> r = 0 \<and> uvm_grown s ps v qs' pd (insert j R) {})"
proof -
  note d = uvm_grownD [OF g]
  have fp: "fresh_for u qs pd p" by (rule d(9)) simp
  have pz: "mem u a = 0" if "in_page p a" for a by (rule d(10) [OF _ that]) simp
  have jn: "\<not> mapped (mem u) pd j" using new d(6) [of j] R by (simp add: mapped_def user_pages_def)
  obtain r v qs' where v: "mappages pd va PGSIZE (V2P p) (PTE_W OR PTE_U) u = Ok r v" "pt_frame u qs v qs' pd" "uvm_ok v qs' pd"
      "r = - 1 \<and> qs = [] \<and> qs' = [] \<and> fresh_for v [] pd p \<and> (\<forall>k < 1048576. pte (mem v) pd k = pte (mem u) pd k)
       \<or> r = 0 \<and> (\<forall>k < 1048576. pte (mem v) pd k = (if k = j then V2P p OR (PTE_W OR PTE_U) OR PTE_P else pte (mem u) pd k))"
    using uvm_map [OF d(2) fp R(3) jn WU_bits va] by blast
  note f = pt_frameD [OF v(2)]
  have accv: "tables (mem v) pd \<union> set qs' = tables (mem u) pd \<union> set qs" using v(2) by (simp add: pt_frame_def)
  have keep: "mem v a = mem u a" if "in_page q a" "q mod PGSIZE = 0" "q \<notin> tables (mem u) pd \<union> set qs" for q a
  proof -
    have "\<not> in_page q' a" if "q' \<in> tables (mem u) pd \<union> set qs" for q'
    proof -
      have "q' mod PGSIZE = 0" using that uvm_okD(1) [OF d(2)] tables_page [OF uvm_okD(2) [OF d(2)]]
        by (auto simp: kmem_inv_def page_ok_def)
      then show ?thesis using page_outside [of q' q a] \<open>q mod PGSIZE = 0\<close> \<open>in_page q a\<close> that \<open>q \<notin> _\<close> by blast
    qed
    then show ?thesis by (rule pt_frame_mem [OF v(2)])
  qed
  have pv: "mem v a = 0" if "in_page p a" for a
    using keep [OF that] pz [OF that] fp by (auto simp: fresh_for_def page_ok_def)
  have Rv: "pte (mem v) pd k = pte (mem u) pd k" "upage (mem v) pd k = upage (mem u) pd k" if "k \<in> R" for k
    using v(4) that R by (auto simp: upage_def user_pages_def subset_iff)
  have Rz: "mem v a = 0" if "k \<in> R" "in_page (upage (mem u) pd k) a" for k a
    using keep [OF that(2) upage_page] d(8) [OF that] uvm_okD(4) [OF d(2), of k] uvm_grown_mapped [OF g that(1)] R that by auto
  have out: "mem v a = mem s a" if "\<forall>q \<in> tables (mem s) pd \<union> set ps. \<not> in_page q a" for a
  proof -
    have "tables (mem u) pd \<union> set qs \<subseteq> tables (mem s) pd \<union> set ps" using d(5) by blast
    then have "mem v a = mem u a" using that by (intro pt_frame_mem [OF v(2)]) blast
    also have "\<dots> = mem s a" by (rule d(11)) (use that in blast)
    finally show ?thesis .
  qed
  have img: "upage (mem v) pd ` R = upage (mem u) pd ` R" using Rv(2) by (rule image_cong [OF refl])
  have acc: "tables (mem v) pd \<union> set qs' \<union> upage (mem v) pd ` R \<union> {p} = tables (mem s) pd \<union> set ps"
    unfolding accv img by (rule d(5))
  have fr: "kmem_frame s v" using d(1) f(3) by (rule kmem_frame_trans)
  from v(4) show ?thesis
  proof (elim disjE conjE)
    assume r: "r = - 1" "qs = []" "qs' = []" "fresh_for v [] pd p" and same: "\<forall>k < 1048576. pte (mem v) pd k = pte (mem u) pd k"
    have "uvm_grown s ps v qs' pd R {p}"
      unfolding uvm_grown_def using fr v(3) d(3-7) f(5,6) acc same r Rv Rz pv out by auto
    then show ?thesis using v(1) r by blast
  next
    assume r: "r = 0"
      and pte: "\<forall>k < 1048576. pte (mem v) pd k = (if k = j then V2P p OR (PTE_W OR PTE_U) OR PTE_P else pte (mem u) pd k)"
    have pj: "pte (mem v) pd j = V2P p OR (PTE_W OR PTE_U) OR PTE_P" using pte R(3) by (simp add: user_pages_def)
    then have uj: "upage (mem v) pd j = p"
      using mapped_pte_make(1) [OF _ WU_bits] fp by (auto simp: fresh_for_def page_ok_def)
    have "uvm_grown s ps v qs' pd (insert j R) {}"
      unfolding uvm_grown_def using fr v(3) d(3-7) f(5,6) acc pte Rv Rz pv out pj uj by auto
    then show ?thesis using v(1) r by blast
  qed
qed

text \<open>\<open>alloc_undone\<close>: a failed allocation leaves the address space as it was, apart from page-table
  pages it had to add; the pages \<open>X\<close> are still to be freed.\<close>

definition alloc_undone :: "'z kmem_scheme \<Rightarrow> uint list \<Rightarrow> 'z kmem_scheme \<Rightarrow> uint list \<Rightarrow> uint
    \<Rightarrow> nat set \<Rightarrow> uint set \<Rightarrow> bool" where
  "alloc_undone s ps t qs pd R X \<longleftrightarrow> kmem_frame s t \<and> uvm_ok t qs pd
     \<and> tables (mem s) pd \<subseteq> tables (mem t) pd \<and> tables (mem t) pd \<union> set qs \<union> X = tables (mem s) pd \<union> set ps
     \<and> (\<forall>k < 1048576. k \<notin> R \<longrightarrow> pte (mem t) pd k = pte (mem s) pd k)
     \<and> (\<forall>k \<in> R. \<not> mapped (mem t) pd k) \<and> (\<forall>p \<in> X. fresh_for t qs pd p)
     \<and> (\<forall>a. (\<forall>q \<in> tables (mem s) pd \<union> set ps. \<not> in_page q a) \<longrightarrow> mem t a = mem s a)"

lemma uvm_grown_undo:
  assumes g: "uvm_grown s ps t qs pd R X" and f: "uvm_freed t qs u rs pd R'"
    and R: "R \<subseteq> R'" "R' \<subseteq> {..<user_pages}" "\<And>k. k \<in> R' \<Longrightarrow> \<not> mapped (mem s) pd k"
  shows "alloc_undone s ps u (rs @ qs) pd R' X"
proof -
  note d = uvm_grownD [OF g] and e = uvm_freedD [OF f]
  have lt: "k < 1048576" if "k \<in> R'" for k using that R(2) by (auto simp: user_pages_def)
  have mt: "mapped (mem t) pd k \<longleftrightarrow> k \<in> R" if "k \<in> R'" for k
    using uvm_grown_mapped [OF g, of k] d(6) [OF lt [OF that]] R(3) [OF that] by (cases "k \<in> R") (auto simp: mapped_def)
  have rs: "set rs = upage (mem t) pd ` R" unfolding e(4) using mt R(1) by (intro arg_cong [where f = "image _"]) auto
  have unm: "\<not> mapped (mem u) pd k" if "k \<in> R'" for k
    using e(5) [OF lt [OF that]] that by (auto simp: mapped_def)
  have mu: "mapped (mem t) pd k \<and> upage (mem u) pd k = upage (mem t) pd k" if "k < 1048576" "mapped (mem u) pd k" for k
    using e(5) [OF that(1)] that(2) by (auto simp: mapped_def upage_def split: if_splits)
  have "fresh_for u (rs @ qs) pd p" if "p \<in> X" for p
  proof -
    have fp: "fresh_for t qs pd p" by (rule d(9) [OF that])
    have "p \<notin> set rs"
      using fp uvm_grown_mapped [OF g] R(1,2) unfolding rs by (auto simp: fresh_for_def)
    moreover have "page_ok u p" using fp page_ok_frame [OF e(1)] by (simp add: fresh_for_def)
    ultimately show ?thesis using fp mu e(3) by (auto simp: fresh_for_def user_pages_def)
  qed
  moreover have "mem u a = mem s a" if "\<forall>q \<in> tables (mem s) pd \<union> set ps. \<not> in_page q a" for a
  proof -
    have "tables (mem t) pd \<union> set rs \<subseteq> tables (mem s) pd \<union> set ps" using d(5) rs by blast
    then have "mem u a = mem t a" using that by (intro e(6)) blast
    also have "\<dots> = mem s a" by (rule d(11)) (use that in blast)
    finally show ?thesis .
  qed
  moreover have "tables (mem u) pd \<union> set (rs @ qs) \<union> X = tables (mem s) pd \<union> set ps"
    using d(5) rs e(3) by auto
  moreover have "pte (mem u) pd k = pte (mem s) pd k" if "k < 1048576" "k \<notin> R'" for k
    using e(5) [OF that(1)] d(6) [OF that(1)] that(2) R(1) by auto
  ultimately show ?thesis
    using kmem_frame_trans [OF d(1) e(1)] e(2,3) d(3) unm by (simp add: alloc_undone_def)
qed

lemma alloc_undone_give:
  assumes u: "alloc_undone s ps t qs pd R {p}" and R: "R \<subseteq> {..<user_pages}"
  shows "kfree p t = Ok () (freed p t)" "alloc_undone s ps (freed p t) (p # qs) pd R {}"
proof -
  have t: "uvm_ok t qs pd" "fresh_for t qs pd p" "kmem_frame s t" using u by (simp_all add: alloc_undone_def)
  note g = uvm_give [OF t(1,2)]
  show "kfree p t = Ok () (freed p t)" by (rule g(1))
  have m: "mapped (mem (freed p t)) pd k = mapped (mem t) pd k" if "k \<in> R" for k
    using g(5) that R by (auto simp: mapped_def user_pages_def subset_iff)
  have "p \<in> tables (mem s) pd \<union> set ps" using u unfolding alloc_undone_def by blast
  then have "mem (freed p t) a = mem s a" if "\<forall>q \<in> tables (mem s) pd \<union> set ps. \<not> in_page q a" for a
    using freed_mem [of p a t] u that by (simp add: alloc_undone_def)
  moreover have "kmem_frame s (freed p t)" using t(3) g(2) by (rule kmem_frame_trans)
  ultimately show "alloc_undone s ps (freed p t) (p # qs) pd R {}"
    using u g(3-5) m by (simp add: alloc_undone_def)
qed

text \<open>Printing a message touches none of this.\<close>

lemma klog_simps [simp]:
  "lock_ctl (s\<lparr>klog := l\<rparr>) = lock_ctl s" "page_ok (s\<lparr>klog := l\<rparr>) p = page_ok s p"
  by (simp_all add: lock_ctl_def page_ok_def)

lemma lock_free_klog [simp]: "lock_free k (s\<lparr>klog := l\<rparr>) = lock_free k s"
  by (rule spin.ctl_free) simp

lemma kmem_inv_klog [simp]: "kmem_inv (s\<lparr>klog := l\<rparr>) ps = kmem_inv s ps"
  by (simp add: kmem_inv_def)

lemma pt_ok_klog [simp]: "pt_ok (s\<lparr>klog := l\<rparr>) ps pd = pt_ok s ps pd"
  by (simp add: pt_ok_def)

lemma uvm_ok_klog [simp]: "uvm_ok (s\<lparr>klog := l\<rparr>) ps pd = uvm_ok s ps pd"
  by (simp add: uvm_ok_def)

lemma fresh_for_klog [simp]: "fresh_for (s\<lparr>klog := l\<rparr>) ps pd p = fresh_for s ps pd p"
  by (simp add: fresh_for_def)

lemma kmem_frame_klog: "kmem_frame s t \<Longrightarrow> kmem_frame (s\<lparr>klog := l\<rparr>) (t\<lparr>klog := l\<rparr>)"
  by (cases s; cases t) (simp add: kmem_frame_def lock_frame_def kmem.defs)

lemma uvm_grown_klog: "uvm_grown s ps t qs pd R X \<Longrightarrow> uvm_grown (s\<lparr>klog := l\<rparr>) ps (t\<lparr>klog := l\<rparr>) qs pd R X"
  by (simp add: uvm_grown_def kmem_frame_klog)

section \<open>The loop of \<open>allocuvm\<close>\<close>

definition pages_of :: "uint \<Rightarrow> nat" where
  "pages_of sz = (unat sz + 4095) div 4096"

lemma pages_of_iff: "unat a = 4096 * j \<Longrightarrow> a < sz \<longleftrightarrow> j < pages_of sz"
proof -
  assume a: "unat a = 4096 * j"
  have "4096 * pages_of sz \<le> unat sz + 4095" "unat sz + 4095 < 4096 * pages_of sz + 4096"
    using div_page_iff [of "unat sz + 4095" "pages_of sz"] by (simp_all add: pages_of_def)
  then have "unat a < unat sz \<longleftrightarrow> j < pages_of sz" unfolding a by (auto simp: not_less)
  then show ?thesis by (simp add: word_less_nat_alt)
qed

lemma pages_of_user: "sz < KERNBASE \<Longrightarrow> pages_of sz \<le> user_pages"
  by (simp add: word_less_nat_alt KERNBASE_def pages_of_def user_pages_def)

text \<open>What a call of \<open>allocuvm\<close> that had mapped the pages \<open>R\<close> does when memory runs out.\<close>

lemma allocuvm_fail:
  assumes g: "uvm_grown s ps t qs pd R X" and sz: "oldsz < newsz" "newsz < KERNBASE"
    and R: "R \<subseteq> {pages_of oldsz ..< pages_of newsz}"
    and un: "\<And>k. pages_of oldsz \<le> k \<Longrightarrow> k < pages_of newsz \<Longrightarrow> \<not> mapped (mem s) pd k"
  shows "\<exists>u rs. kseq [kprint msg, kbind (deallocuvm pd newsz oldsz) (\<lambda>_. kret ())] r t = r u
    \<and> alloc_undone (s\<lparr>klog := klog t @ [msg]\<rparr>) ps u rs pd {pages_of oldsz ..< pages_of newsz} X"
proof -
  let ?l = "klog t @ [msg]"
  note g' = uvm_grown_klog [OF g, of ?l]
  have "unat newsz \<le> 2147483648" using sz(2) by (simp add: word_less_nat_alt KERNBASE_def)
  from deallocuvm_spec [OF uvm_grownD(2) [OF g'] sz(1) this] obtain u rs where
    u: "deallocuvm pd newsz oldsz (t\<lparr>klog := ?l\<rparr>) = Ok oldsz u"
      "uvm_freed (t\<lparr>klog := ?l\<rparr>) qs u rs pd {pages_of oldsz ..< pages_of newsz}"
    by (auto simp: pages_of_def)
  have "alloc_undone (s\<lparr>klog := ?l\<rparr>) ps u (rs @ qs) pd {pages_of oldsz ..< pages_of newsz} X"
    using R un pages_of_user [OF sz(2)] by (intro uvm_grown_undo [OF g' u(2)]) auto
  then show ?thesis using u(1) by (auto simp: kprint_def kbind_apply)
qed

lemma uvm_grown_none:
  assumes g: "uvm_grown s ps t [] pd R X"
  shows "kalloc t = Ok 0 (allocated t)" "uvm_grown s ps (allocated t) [] pd R X"
proof -
  note d = uvm_grownD [OF g]
  have inv: "kmem_inv t []" using uvm_okD(1) [OF d(2)] .
  show "kalloc t = Ok 0 (allocated t)" using inv kmem_inv_allocated [OF inv] by (simp add: kalloc_eq kmem_inv_def)
  have fr: "kmem_frame t (allocated t)" using inv by (intro allocated_frame) (simp add: kmem_inv_def)
  have inv': "kmem_inv (allocated t) []" using kmem_inv_allocated [OF inv] by simp
  have "uvm_ok (allocated t) [] pd" by (rule uvm_ok_outside(1) [OF d(2) inv' fr]) simp_all
  moreover have "fresh_for (allocated t) [] pd p = fresh_for t [] pd p" for p
    using page_ok_frame [OF fr] by (simp add: fresh_for_def)
  ultimately show "uvm_grown s ps (allocated t) [] pd R X"
    using g kmem_frame_trans [OF d(1) fr] by (simp add: uvm_grown_def)
qed

lemma allocuvm_loop:
  assumes "uvm_grown s ps t qs pd {pages_of oldsz ..< j} {}" "unat a = 4096 * j"
    and "pages_of oldsz \<le> j" "newsz < KERNBASE" "oldsz < newsz \<or> pages_of newsz \<le> j" "pages_of newsz - j < N"
    and "j \<le> pages_of newsz"
    and "\<And>k. pages_of oldsz \<le> k \<Longrightarrow> k < pages_of newsz \<Longrightarrow> \<not> mapped (mem s) pd k"
  shows "\<exists>r u rs. kloop N (allocuvm_body pd oldsz newsz) a t = Ok r u
    \<and> (r = newsz \<and> uvm_grown s ps u rs pd {pages_of oldsz ..< pages_of newsz} {}
     \<or> r = 0 \<and> (\<exists>l. alloc_undone (s\<lparr>klog := l\<rparr>) ps u rs pd {pages_of oldsz ..< pages_of newsz} {}))"
  using assms
proof (induction N arbitrary: t qs a j)
  case 0
  then show ?case by simp
next
  case (Suc N)
  let ?L = "pages_of oldsz" and ?M = "pages_of newsz"
  note alt = pages_of_iff [OF Suc.prems(2), of newsz]
  show ?case
  proof (cases "j < ?M")
    case False
    then have e: "j = ?M" using Suc.prems(7) by simp
    from False alt have "kloop (Suc N) (allocuvm_body pd oldsz newsz) a t = Ok newsz t"
      by (simp add: allocuvm_body_def)
    moreover have "uvm_grown s ps t qs pd {?L..<?M} {}" using Suc.prems(1) e by simp
    ultimately show ?thesis by blast
  next
    case True
    have sz: "oldsz < newsz" using Suc.prems(5) True by simp
    have ju: "j < user_pages" using True pages_of_user [OF Suc.prems(4)] by simp
    have RR: "{?L..<j} \<subseteq> {..<user_pages}" using ju by auto
    have Rsub: "{?L..<j} \<subseteq> {?L..<?M}" using True by auto
    note fail = allocuvm_fail [OF _ sz Suc.prems(4) Rsub Suc.prems(8)]
    show ?thesis
    proof (cases qs)
      case Nil
      note none = uvm_grown_none [OF Suc.prems(1) [unfolded Nil]]
      obtain u rs where u: "kseq [kprint ''allocuvm out of memory'', kbind (deallocuvm pd newsz oldsz) (\<lambda>_. kret ())]
          (kret (Inr 0 :: uint + uint)) (allocated t) = Ok (Inr 0) u"
        "alloc_undone (s\<lparr>klog := klog (allocated t) @ [''allocuvm out of memory'']\<rparr>) ps u rs pd {?L..<?M} {}"
        using fail [OF none(2), of "''allocuvm out of memory''" "kret (Inr 0 :: uint + uint)"] by auto
      have "kloop (Suc N) (allocuvm_body pd oldsz newsz) a t = Ok 0 u"
        using none(1) u(1) True alt by (simp add: allocuvm_body_def kbind_apply)
      with u(2) show ?thesis by blast
    next
      case (Cons p rs)
      note tk = uvm_grown_take [OF Suc.prems(1) [unfolded Cons] RR]
      let ?u = "(allocated t)\<lparr>mem := memset (mem t) p 0 PGSIZE\<rparr>"
      have p0: "p \<noteq> 0" using uvm_grownD(9) [OF tk(2), of p] by (simp add: fresh_for_def)
      obtain r v qs' where v: "mappages pd a PGSIZE (V2P p) (PTE_W OR PTE_U) ?u = Ok r v"
        "r = - 1 \<and> qs' = [] \<and> uvm_grown s ps v qs' pd {?L..<j} {p} \<or> r = 0 \<and> uvm_grown s ps v qs' pd (insert j {?L..<j}) {}"
        using uvm_grown_map [OF tk(2) RR _ ju _ Suc.prems(2)] Suc.prems(8) [OF Suc.prems(3) True] by auto
      have step: "allocuvm_body pd oldsz newsz a t = (if r < 0
          then kseq [kprint ''allocuvm out of memory (2)'', kbind (deallocuvm pd newsz oldsz) (\<lambda>_. kret ()), kfree p] (kret (Inr 0)) v
          else Ok (Inl (a + PGSIZE)) v)"
        using tk(1) v(1) p0 True alt by (simp add: allocuvm_body_def kbind_apply)
      from v(2) show ?thesis
      proof (elim disjE conjE)
        assume r: "r = - 1" and gv: "uvm_grown s ps v qs' pd {?L..<j} {p}"
        obtain w ws where w: "kseq [kprint ''allocuvm out of memory (2)'', kbind (deallocuvm pd newsz oldsz) (\<lambda>_. kret ())]
            (kseq [kfree p] (kret (Inr 0))) v = kseq [kfree p] (kret (Inr 0 :: uint + uint)) w"
          "alloc_undone (s\<lparr>klog := klog v @ [''allocuvm out of memory (2)'']\<rparr>) ps w ws pd {?L..<?M} {p}"
          using fail [OF gv, of "''allocuvm out of memory (2)''" "kseq [kfree p] (kret (Inr 0))"] by auto
        have "{?L..<?M} \<subseteq> {..<user_pages}" using pages_of_user [OF Suc.prems(4)] by auto
        note gi = alloc_undone_give [OF w(2) this]
        have "kseq [kprint ''allocuvm out of memory (2)'', kbind (deallocuvm pd newsz oldsz) (\<lambda>_. kret ()), kfree p] (kret (Inr 0 :: uint + uint)) v
            = Ok (Inr 0) (freed p w)"
          using w(1) gi(1) by (simp add: kbind_apply)
        with step r have "kloop (Suc N) (allocuvm_body pd oldsz newsz) a t = Ok 0 (freed p w)" by (simp add: kbind_apply)
        with gi(2) show ?thesis by blast
      next
        assume r: "r = 0" and gv: "uvm_grown s ps v qs' pd (insert j {?L..<j}) {}"
        have "insert j {?L..<j} = {?L..<Suc j}" using Suc.prems(3) by auto
        note gv' = gv [unfolded this]
        have a': "unat (a + PGSIZE) = 4096 * Suc j"
          using Suc.prems(2) ju by (simp add: unat_plus_lt PGSIZE_def user_pages_def)
        have "kloop (Suc N) (allocuvm_body pd oldsz newsz) a t = kloop N (allocuvm_body pd oldsz newsz) (a + PGSIZE) v"
          using step r by (simp add: kbind_apply)
        moreover have "?M - Suc j < N" "?L \<le> Suc j" "oldsz < newsz \<or> ?M \<le> Suc j" "Suc j \<le> ?M"
          using Suc.prems(3,6) sz True by simp_all
        ultimately show ?thesis
          using Suc.IH [OF gv' a' _ Suc.prems(4) _ _ _ Suc.prems(8)] by simp
      qed
    qed
  qed
qed

lemma allocuvm_spec:
  assumes ok: "uvm_ok s ps pd" and sz: "oldsz \<le> newsz" "newsz < KERNBASE"
    and un: "\<And>k. pages_of oldsz \<le> k \<Longrightarrow> k < pages_of newsz \<Longrightarrow> \<not> mapped (mem s) pd k"
  shows "\<exists>r t rs. allocuvm pd oldsz newsz s = Ok r t
    \<and> (r = newsz \<and> uvm_grown s ps t rs pd {pages_of oldsz ..< pages_of newsz} {}
     \<or> r = 0 \<and> (\<exists>l. alloc_undone (s\<lparr>klog := l\<rparr>) ps t rs pd {pages_of oldsz ..< pages_of newsz} {}))"
proof -
  have old: "unat oldsz + 4095 < 2 ^ 32" using sz by (simp add: word_less_nat_alt word_le_nat_alt KERNBASE_def)
  have a: "unat (PGROUNDUP oldsz) = 4096 * pages_of oldsz" unfolding pages_of_def by (rule unat_PGROUNDUP [OF old])
  have "pages_of newsz < vm_rounds" using pages_of_user [OF sz(2)] by (simp add: user_pages_def vm_rounds_def)
  moreover have "oldsz < newsz \<or> pages_of newsz \<le> pages_of oldsz" using sz(1) by (cases "oldsz = newsz") auto
  moreover have "allocuvm pd oldsz newsz s = kloop vm_rounds (allocuvm_body pd oldsz newsz) (PGROUNDUP oldsz) s"
    using sz by (auto simp: allocuvm_def)
  moreover have "{pages_of oldsz ..< pages_of oldsz} = ({} :: nat set)" by simp
  moreover have "pages_of oldsz \<le> pages_of newsz"
    unfolding pages_of_def using sz(1) by (intro div_le_mono) (simp add: word_le_nat_alt)
  ultimately show ?thesis
    using allocuvm_loop [of s ps s ps pd oldsz "pages_of oldsz" "PGROUNDUP oldsz" newsz vm_rounds]
      uvm_grown_refl [OF ok] a sz(2) un by auto
qed

section \<open>Properties\<close>

text \<open>A kernel state with three free pages and an empty page directory at \<open>0x80200000\<close>.\<close>

definition boot_vm :: vm where
  "boot_vm =
     \<lparr>curcpu = 0, cpus = cpus boot_machine, locks = locks boot_machine, mem = (\<lambda>_. 0), argp = 0,
      use_lock = False, freelist = 0, kend = 0x80115000,
      kpgdir = 0, kdata = 0x80108000, cr3 = (\<lambda>_. 0), gdt = (\<lambda>_. []), gdtr = (\<lambda>_. []), gs = (\<lambda>_. 0),
      ts = (\<lambda>_. \<lparr>ts_esp0 = 0, ts_ss0 = 0, ts_iomb = 0\<rparr>), tr = (\<lambda>_. 0), cpu_addr = (\<lambda>_. 0),
      ts_addr = (\<lambda>_. 0), klog = []\<rparr>"

definition vm3 :: vm where
  "vm3 = freed 0x80300000 (freed 0x80301000 (freed 0x80302000 boot_vm))"

definition pd3 :: uint where "pd3 = 0x80200000"

definition free3 :: "uint list" where "free3 = [0x80300000, 0x80301000, 0x80302000]"

lemma boot_vm_simps:
  "freelist boot_vm = 0" "kend boot_vm = 0x80115000" "use_lock boot_vm = False" "mem boot_vm = (\<lambda>_. 0)"
  by (simp_all add: boot_vm_def)

lemma boot_vm_page_ok: "page_ok boot_vm p \<longleftrightarrow> p mod 4096 = 0 \<and> 0x80115000 \<le> p \<and> p - KERNBASE < PHYSTOP"
  by (auto simp: page_ok_def boot_vm_def V2P_def PGSIZE_def)

lemma vm3_frame: "kmem_frame boot_vm vm3" "kmem_inv vm3 free3"
proof -
  let ?s1 = "freed 0x80302000 boot_vm" and ?s2 = "freed 0x80301000 (freed 0x80302000 boot_vm)"
  have i0: "kmem_inv boot_vm []" by (simp add: kmem_inv_def boot_vm_simps)
  have f1: "kmem_frame boot_vm ?s1" by (rule freed_frame) (simp add: boot_vm_simps)
  have i1: "kmem_inv ?s1 [0x80302000]"
    by (rule kmem_inv_freed [OF i0]) (simp_all add: boot_vm_page_ok KERNBASE_def PHYSTOP_def)
  have f2: "kmem_frame ?s1 ?s2" using i1 by (intro freed_frame) (simp add: kmem_inv_def)
  have i2: "kmem_inv ?s2 [0x80301000, 0x80302000]"
    by (rule kmem_inv_freed [OF i1])
      (simp_all add: page_ok_frame [OF f1] boot_vm_page_ok KERNBASE_def PHYSTOP_def)
  have f3: "kmem_frame ?s2 vm3" unfolding vm3_def using i2 by (intro freed_frame) (simp add: kmem_inv_def)
  show "kmem_inv vm3 free3"
    unfolding vm3_def free3_def
    by (rule kmem_inv_freed [OF i2])
      (simp_all add: page_ok_frame [OF kmem_frame_trans [OF f1 f2]] boot_vm_page_ok KERNBASE_def PHYSTOP_def)
  show "kmem_frame boot_vm vm3" by (rule kmem_frame_trans [OF kmem_frame_trans [OF f1 f2] f3])
qed

lemma vm3_pd: "in_page pd3 a \<Longrightarrow> mem vm3 a = 0"
proof -
  assume a: "in_page pd3 a"
  have "\<not> in_page q a" if "q mod PGSIZE = 0" "q \<noteq> pd3" for q
    using that a page_outside [of q pd3 a] by (simp add: pd3_def PGSIZE_def)
  then show ?thesis by (simp add: vm3_def freed_mem boot_vm_simps pd3_def PGSIZE_def)
qed

lemma vm3_empty: "i < 1024 \<Longrightarrow> \<not> pde_present (mem vm3) pd3 i" "k < 1048576 \<Longrightarrow> \<not> mapped (mem vm3) pd3 k"
proof -
  have al: "pd3 mod PGSIZE = 0" by (simp add: pd3_def PGSIZE_def)
  show np: "\<not> pde_present (mem vm3) pd3 i" if "i < 1024" for i
    using load32_zero_page [OF al that vm3_pd] by (simp add: pde_present_def pde_def)
  show "\<not> mapped (mem vm3) pd3 k" if "k < 1048576"
    using np [OF page_index(1) [OF that]] by (simp add: mapped_def pte_def)
qed

lemma vm3_uvm_ok: "uvm_ok vm3 free3 pd3"
proof -
  have "kend vm3 = 0x80115000" using vm3_frame(1) by (simp add: kmem_frame_def boot_vm_simps)
  moreover have "pt_ok vm3 free3 pd3"
    using vm3_empty(1) page_ok_frame [OF vm3_frame(1), of pd3]
    by (simp add: pt_ok_def boot_vm_page_ok pd3_def free3_def KERNBASE_def PHYSTOP_def)
  moreover have "inj_on f {n. n < user_pages \<and> mapped (mem vm3) pd3 n}" for f :: "nat \<Rightarrow> uint"
    using vm3_empty(2) by (auto simp: user_pages_def inj_on_def)
  ultimately show ?thesis
    using vm3_frame(2) vm3_empty(2) by (auto simp: uvm_ok_def user_pages_def KERNBASE_def)
qed

text \<open>
  C15: \<open>deallocuvm(pgdir, oldsz, newsz)\<close> always returns: it gives exactly the mapped pages
  between the two sizes back to the allocator, clears their entries, and leaves every other
  page-table entry, the set of page-table pages and all other memory unchanged.
\<close>

theorem deallocuvm_frees:
  assumes "uvm_ok s ps pd" "newsz < oldsz" "oldsz \<le> KERNBASE"
  shows "\<exists>t qs. deallocuvm pd oldsz newsz s = Ok newsz t \<and> uvm_freed s ps t qs pd {pages_of newsz ..< pages_of oldsz}"
proof -
  have "unat oldsz \<le> 2147483648" using assms(3) by (simp add: word_le_nat_alt KERNBASE_def)
  then show ?thesis unfolding pages_of_def by (rule deallocuvm_spec [OF assms(1,2)])
qed

theorem deallocuvm_frees_witness:
  "\<exists>t qs. deallocuvm pd3 0x3000 0x1000 vm3 = Ok 0x1000 t \<and> uvm_freed vm3 free3 t qs pd3 {1 ..< 3}"
  using deallocuvm_frees [OF vm3_uvm_ok, of "0x1000" "0x3000"] by (simp add: KERNBASE_def pages_of_def)

text \<open>
  C4: \<open>allocuvm(pgdir, oldsz, newsz)\<close> always returns, and there are two outcomes. It returns
  \<open>newsz\<close>: every page between the sizes is mapped, writable and for user mode, to a distinct
  page that was free and is all zero, and nothing else has changed. Or it returns 0: the pages
  between the sizes are unmapped as before, and every page it took is free again or became
  a page-table page.
\<close>

theorem allocuvm_grows_or_undoes:
  assumes "uvm_ok s ps pd" "oldsz \<le> newsz" "newsz < KERNBASE"
    and "\<And>k. pages_of oldsz \<le> k \<Longrightarrow> k < pages_of newsz \<Longrightarrow> \<not> mapped (mem s) pd k"
  shows "\<exists>r t rs. allocuvm pd oldsz newsz s = Ok r t
    \<and> (r = newsz \<and> uvm_grown s ps t rs pd {pages_of oldsz ..< pages_of newsz} {}
     \<or> r = 0 \<and> (\<exists>l. alloc_undone (s\<lparr>klog := l\<rparr>) ps t rs pd {pages_of oldsz ..< pages_of newsz} {}))"
  by (rule allocuvm_spec [OF assms])

theorem allocuvm_grows_or_undoes_witness:
  "\<exists>r t rs. allocuvm pd3 0 0x2000 vm3 = Ok r t
    \<and> (r = 0x2000 \<and> uvm_grown vm3 free3 t rs pd3 {0 ..< 2} {}
     \<or> r = 0 \<and> (\<exists>l. alloc_undone (vm3\<lparr>klog := l\<rparr>) free3 t rs pd3 {0 ..< 2} {}))"
proof -
  have "\<not> mapped (mem vm3) pd3 k" if "k < pages_of 0x2000" for k
    using that vm3_empty(2) [of k] by (simp add: pages_of_def)
  then show ?thesis
    using allocuvm_grows_or_undoes [OF vm3_uvm_ok, of 0 "0x2000"] by (simp add: KERNBASE_def pages_of_def)
qed

lemma alloc_undone_freed:
  assumes a: "alloc_undone s ps t qs pd R {}" and f: "uvm_freed t qs u rs pd R" and R: "R \<subseteq> {..<user_pages}"
  shows "alloc_undone s ps u (rs @ qs) pd R {}"
proof -
  note e = uvm_freedD [OF f]
  have un: "\<not> mapped (mem t) pd k" if "k \<in> R" for k using a that by (simp add: alloc_undone_def)
  then have none: "{k \<in> R. mapped (mem t) pd k} = {}" by blast
  have rs: "rs = []" using e(4) unfolding none by simp
  have pte: "pte (mem u) pd k = pte (mem t) pd k" if "k < 1048576" for k using e(5) [OF that] un by auto
  have "\<not> mapped (mem u) pd k" if "k \<in> R" for k
    using pte [of k] un [OF that] that R by (auto simp: mapped_def user_pages_def subset_iff)
  moreover have "mem u a = mem s a" if "\<forall>q \<in> tables (mem s) pd \<union> set ps. \<not> in_page q a" for a
  proof -
    have "tables (mem t) pd \<subseteq> tables (mem s) pd \<union> set ps" using a by (auto simp: alloc_undone_def)
    then have "mem u a = mem t a" using that rs by (intro e(6)) auto
    with a that show ?thesis by (simp add: alloc_undone_def)
  qed
  ultimately show ?thesis
    using a e(1-3) pte rs kmem_frame_trans [OF _ e(1)] by (simp add: alloc_undone_def)
qed

text \<open>
  C14: shrinking undoes growing. Whether or not \<open>allocuvm\<close> succeeds in growing a process,
  \<open>deallocuvm\<close> with the sizes swapped succeeds afterwards; then the pages between the sizes
  are unmapped, the rest of the address space is as before, and every page that was
  allocated is back on the free list, except those that became page-table pages.
\<close>

theorem alloc_dealloc_roundtrip:
  assumes "uvm_ok s ps pd" "oldsz < newsz" "newsz < KERNBASE"
    and "\<And>k. pages_of oldsz \<le> k \<Longrightarrow> k < pages_of newsz \<Longrightarrow> \<not> mapped (mem s) pd k"
  shows "\<exists>r t u qs l. allocuvm pd oldsz newsz s = Ok r t \<and> deallocuvm pd newsz oldsz t = Ok oldsz u
    \<and> alloc_undone (s\<lparr>klog := l\<rparr>) ps u qs pd {pages_of oldsz ..< pages_of newsz} {}"
proof -
  let ?R = "{pages_of oldsz ..< pages_of newsz}"
  have R: "?R \<subseteq> {..<user_pages}" using pages_of_user [OF assms(3)] by auto
  have sz: "unat newsz \<le> 2147483648" using assms(3) by (simp add: word_less_nat_alt KERNBASE_def)
  have le: "oldsz \<le> newsz" using assms(2) by simp
  obtain r t rs where t: "allocuvm pd oldsz newsz s = Ok r t"
    "uvm_grown s ps t rs pd ?R {} \<or> (\<exists>l. alloc_undone (s\<lparr>klog := l\<rparr>) ps t rs pd ?R {})"
    using allocuvm_spec [of s ps pd oldsz newsz] assms le by blast
  have ok: "uvm_ok t rs pd" using t(2) uvm_grownD(2) by (auto simp: alloc_undone_def)
  obtain u qs where u: "deallocuvm pd newsz oldsz t = Ok oldsz u" "uvm_freed t rs u qs pd ?R"
    using deallocuvm_spec [OF ok assms(2) sz] by (auto simp: pages_of_def)
  from t(2) have "\<exists>l. alloc_undone (s\<lparr>klog := l\<rparr>) ps u (qs @ rs) pd ?R {}"
  proof
    assume g: "uvm_grown s ps t rs pd ?R {}"
    have "alloc_undone s ps u (qs @ rs) pd ?R {}"
      using R assms(4) by (intro uvm_grown_undo [OF g u(2)]) auto
    moreover have "s\<lparr>klog := klog s\<rparr> = s" by simp
    ultimately show ?thesis by metis
  next
    assume "\<exists>l. alloc_undone (s\<lparr>klog := l\<rparr>) ps t rs pd ?R {}"
    then show ?thesis using alloc_undone_freed [OF _ u(2) R] by blast
  qed
  with t(1) u(1) show ?thesis by blast
qed

theorem alloc_dealloc_roundtrip_witness:
  "\<exists>r t u qs l. allocuvm pd3 0x1000 0x3000 vm3 = Ok r t \<and> deallocuvm pd3 0x3000 0x1000 t = Ok 0x1000 u
    \<and> alloc_undone (vm3\<lparr>klog := l\<rparr>) free3 u qs pd3 {1 ..< 3} {}"
proof -
  have "\<not> mapped (mem vm3) pd3 k" if "k < pages_of 0x3000" for k
    using that vm3_empty(2) [of k] by (simp add: pages_of_def)
  then show ?thesis
    using alloc_dealloc_roundtrip [OF vm3_uvm_ok, of "0x1000" "0x3000"] by (simp add: KERNBASE_def pages_of_def)
qed

end
