(* ===== verification/Ucopy.thy ===== *)
theory Ucopy
  imports Ualloc
begin

text \<open>
  Copying between the kernel and user address spaces: \<open>uva2ka\<close> and \<open>copyout\<close>.
\<close>

section \<open>Translation of user addresses\<close>

text \<open>The kernel address of the byte at user address \<open>va\<close>.\<close>

definition uaddr :: "mem \<Rightarrow> uint \<Rightarrow> uint \<Rightarrow> uint" where
  "uaddr m pd va = upage m pd (vpn va) + va mod PGSIZE"

text \<open>The page of \<open>va\<close> is mapped and accessible in user mode.\<close>

definition user_ok :: "mem \<Rightarrow> uint \<Rightarrow> uint \<Rightarrow> bool" where
  "user_ok m pd va \<longleftrightarrow> vpn va < user_pages \<and> mapped m pd (vpn va) \<and> pte m pd (vpn va) AND PTE_U \<noteq> 0"

lemma uva2ka_ok:
  assumes "user_ok (mem s) pd va"
  shows "uva2ka pd va s = Ok (upage (mem s) pd (vpn va)) s"
proof -
  have "pde_present (mem s) pd (vpn va div 1024)"
    using assms by (auto simp: user_ok_def mapped_def pte_def split: if_splits)
  then show ?thesis
    using assms by (simp add: uva2ka_def walkpgdir_noalloc kbind_apply user_ok_def mapped_def pte_def upage_def)
qed

lemma uva2ka_refuses:
  assumes "pde_present (mem s) pd (vpn va div 1024)" "\<not> (mapped (mem s) pd (vpn va) \<and> pte (mem s) pd (vpn va) AND PTE_U \<noteq> 0)"
  shows "uva2ka pd va s = Ok 0 s"
  using assms by (auto simp: uva2ka_def walkpgdir_noalloc kbind_apply mapped_def pte_def)

lemma vpn_PGROUNDDOWN [simp]: "vpn (PGROUNDDOWN va) = vpn va"
  by (simp add: vpn_def unat_PGROUNDDOWN)

lemma page_offset: "va - PGROUNDDOWN va = va mod PGSIZE"
  by (simp add: PGROUNDDOWN_eq)

lemma unat_mod_PGSIZE: "unat (va mod PGSIZE) = unat va mod 4096"
  by (simp add: unat_mod PGSIZE_def)

lemma uaddr_in_page: "in_page (upage m pd (vpn va)) (uaddr m pd va)"
  by (simp add: in_page_def uaddr_def unat_mod_PGSIZE)

text \<open>Addresses within the page of \<open>va\<close>.\<close>

lemma uaddr_within:
  assumes "unat va mod 4096 + i < 4096"
  shows "vpn (va + word_of_nat i) = vpn va" "uaddr m pd (va + word_of_nat i) = uaddr m pd va + word_of_nat i"
proof -
  define r where "r = unat va mod 4096"
  have r: "r + i < 4096" using assms by (simp add: r_def)
  have q: "unat va = 4096 * vpn va + r" by (simp add: vpn_def r_def)
  have "4096 * vpn va \<le> 4096 * 1048575" using vpn_lt [of va] by linarith
  then have lt: "unat va + i < 2 ^ 32" using r q by simp
  then have u: "unat (va + word_of_nat i) = 4096 * vpn va + (r + i)" using q by (subst unat_plus_lt) simp_all
  have "(4096 * vpn va + (r + i)) div 4096 = vpn va" using r by (simp add: div_page_iff)
  then show v: "vpn (va + word_of_nat i) = vpn va" unfolding vpn_def [of "va + word_of_nat i"] u .
  have "unat (va + word_of_nat i) mod 4096 = unat va mod 4096 + i" using r by (simp add: u r_def)
  moreover have "unat (va mod PGSIZE + word_of_nat i) = r + i"
    using r by (subst unat_plus_lt) (simp_all add: unat_mod_PGSIZE r_def)
  ultimately have "unat ((va + word_of_nat i) mod PGSIZE) = unat (va mod PGSIZE + word_of_nat i)"
    by (simp only: unat_mod_PGSIZE r_def)
  then have "(va + word_of_nat i) mod PGSIZE = va mod PGSIZE + word_of_nat i" by (simp add: word_unat_eq_iff)
  then show "uaddr m pd (va + word_of_nat i) = uaddr m pd va + word_of_nat i"
    by (simp add: uaddr_def v)
qed

text \<open>Different user addresses have different kernel addresses.\<close>

lemma uaddr_inj:
  assumes ok: "uvm_ok s ps pd" and v: "user_ok (mem s) pd va" "user_ok (mem s) pd vb"
    and eq: "uaddr (mem s) pd va = uaddr (mem s) pd vb"
  shows "va = vb"
proof -
  have "in_page (upage (mem s) pd (vpn vb)) (uaddr (mem s) pd va)" unfolding eq by (rule uaddr_in_page)
  then have up: "upage (mem s) pd (vpn va) = upage (mem s) pd (vpn vb)"
    by (rule in_page_disjoint [OF upage_page upage_page uaddr_in_page])
  then have p: "vpn va = vpn vb"
    using inj_onD [OF uvm_okD(5) [OF ok], of "vpn va" "vpn vb"] v by (simp add: user_ok_def)
  have "va mod PGSIZE = vb mod PGSIZE" using eq up by (simp add: uaddr_def)
  then have md: "unat va mod 4096 = unat vb mod 4096" by (simp only: unat_mod_PGSIZE [symmetric])
  have dv: "unat va div 4096 = unat vb div 4096" using p by (simp only: vpn_def)
  have "unat va = unat va div 4096 * 4096 + unat va mod 4096" by (simp only: div_mult_mod_eq)
  also have "\<dots> = unat vb" by (simp only: md dv div_mult_mod_eq)
  finally have "unat va = unat vb" .
  then show ?thesis by (simp add: word_unat_eq_iff)
qed

section \<open>\<open>copyout\<close>\<close>

lemma blit_outside: "n \<le> unat (a - d) \<Longrightarrow> blit m d s n a = m a"
  by (simp add: blit_def)

lemma blit_inside: "i < n \<Longrightarrow> n \<le> 2 ^ 32 \<Longrightarrow> blit m d s n (d + word_of_nat i) = m (s + word_of_nat i)"
  by (simp add: blit_def)

text \<open>A write into the user pages keeps the address space and its page table.\<close>

lemma uvm_ok_user_write:
  assumes ok: "uvm_ok s ps pd" and m: "\<And>a. (\<And>k. k < user_pages \<Longrightarrow> mapped (mem s) pd k \<Longrightarrow> \<not> in_page (upage (mem s) pd k) a) \<Longrightarrow> m a = mem s a"
  shows "uvm_ok (s\<lparr>mem := m\<rparr>) ps pd" "k < 1048576 \<Longrightarrow> pte m pd k = pte (mem s) pd k"
proof -
  note inv = uvm_okD(1) [OF ok] and pt = uvm_okD(2) [OF ok]
  have keep: "m a = mem s a" if "q \<in> tables (mem s) pd \<union> set ps" "in_page q a" for q a
  proof (rule m)
    fix k assume k: "k < user_pages" "mapped (mem s) pd k"
    have "q mod PGSIZE = 0" using that(1) inv tables_page [OF pt] by (auto simp: kmem_inv_def page_ok_def)
    moreover have "q \<noteq> upage (mem s) pd k" using that(1) uvm_okD(4) [OF ok k] by auto
    ultimately show "\<not> in_page (upage (mem s) pd k) a" using page_outside [of "upage (mem s) pd k" q a] that(2) by simp
  qed
  have inv': "kmem_inv (s\<lparr>mem := m\<rparr>) ps" by (rule kmem_inv_write [OF inv]) (use keep in blast)
  have same: "mem (s\<lparr>mem := m\<rparr>) a = mem s a" if "q \<in> tables (mem s) pd" "in_page q a" for q a
    using keep [OF UnI1 [OF that(1)] that(2)] by simp
  show "uvm_ok (s\<lparr>mem := m\<rparr>) ps pd" by (rule uvm_ok_outside(1) [OF ok inv' kmem_frame_mem]) (use same in blast)+
  show "pte m pd k = pte (mem s) pd k" if "k < 1048576"
    by (rule pt_cong [OF pt_okD(2) [OF pt] _ that]) (use keep in blast)
qed

definition chunk :: "uint \<Rightarrow> uint \<Rightarrow> nat" where
  "chunk va len = min (4096 - unat va mod 4096) (unat len)"

lemma copyout_step:
  assumes ok: "uvm_ok s ps pd" and u: "user_ok (mem s) pd va" and len: "0 < len" "unat buf + unat len < 2 ^ 32"
  shows "\<exists>n. unat n = chunk va len \<and> copyout_body pd (va, buf, len) s
    = Ok (Inl (PGROUNDDOWN va + PGSIZE, buf + n, len - n)) (s\<lparr>mem := blit (mem s) (uaddr (mem s) pd va) buf (chunk va len)\<rparr>)"
proof -
  define n where "n = (if PGSIZE - va mod PGSIZE > len then len else PGSIZE - va mod PGSIZE)"
  have m: "unat va mod 4096 < 4096" by simp
  have P: "unat PGSIZE = 4096" by (simp add: PGSIZE_def)
  have "va mod PGSIZE \<le> PGSIZE" unfolding word_le_nat_alt unat_mod_PGSIZE P using m by simp
  then have r: "unat (PGSIZE - va mod PGSIZE) = 4096 - unat va mod 4096"
    by (simp only: unat_sub unat_mod_PGSIZE P)
  have n: "unat n = chunk va len" by (simp add: n_def chunk_def r word_less_nat_alt)
  have pg: "page_ok s (upage (mem s) pd (vpn va))"
    using uvm_okD(4) [OF ok] u by (simp add: user_ok_def)
  have p0: "upage (mem s) pd (vpn va) \<noteq> 0"
    using pg uvm_okD(1) [OF ok] by (auto simp: page_ok_def kmem_inv_def)
  have u0: "user_ok (mem s) pd (PGROUNDDOWN va)" using u by (simp add: user_ok_def)
  have "unat (uaddr (mem s) pd va) + unat n \<le> 2 ^ 32"
  proof -
    obtain k where k: "unat (upage (mem s) pd (vpn va)) = 4096 * k" "k < 1048576"
      using page_multiple [OF upage_page] .
    have "unat (uaddr (mem s) pd va) = 4096 * k + unat va mod 4096"
      using k m unfolding uaddr_def by (subst unat_plus_lt) (simp_all add: unat_mod_PGSIZE)
    moreover have "unat n + unat va mod 4096 \<le> 4096" using m by (simp add: n chunk_def)
    ultimately show ?thesis using k(2) by simp
  qed
  moreover have "unat buf + unat n < 2 ^ 32" using len(2) by (simp add: n chunk_def)
  ultimately have mm: "memmove (mem s) (uaddr (mem s) pd va) buf n = blit (mem s) (uaddr (mem s) pd va) buf (chunk va len)"
    by (simp only: memmove_blit n)
  have "copyout_body pd (va, buf, len) s
      = Ok (Inl (PGROUNDDOWN va + PGSIZE, buf + n, len - n)) (s\<lparr>mem := memmove (mem s) (uaddr (mem s) pd va) buf n\<rparr>)"
    using len(1) p0 uva2ka_ok [OF u0] by (auto simp: Let_def kbind_apply page_offset n_def uaddr_def)
  with n mm show ?thesis by metis
qed

lemma pte_user_cong:
  assumes "pte m' pd (vpn v) = pte m pd (vpn v)"
  shows "user_ok m' pd v = user_ok m pd v" "uaddr m' pd v = uaddr m pd v"
  using assms by (simp_all add: user_ok_def mapped_def uaddr_def upage_def)

lemma chunk_bounds: "0 < len \<Longrightarrow> 0 < chunk va len" "chunk va len \<le> unat len" "unat va mod 4096 + chunk va len \<le> 4096"
proof -
  have m: "unat va mod 4096 < 4096" by simp
  show "0 < chunk va len" if "0 < len" using that m by (simp add: chunk_def word_less_nat_alt)
  show "chunk va len \<le> unat len" by (simp add: chunk_def)
  show "unat va mod 4096 + chunk va len \<le> 4096" using m by (simp add: chunk_def)
qed

text \<open>The user addresses of one chunk are consecutive kernel addresses.\<close>

lemma chunk_uaddr:
  assumes "i < chunk va len"
  shows "uaddr m pd (va + word_of_nat i) = uaddr m pd va + word_of_nat i" "vpn (va + word_of_nat i) = vpn va"
proof -
  have "unat va mod 4096 + i < 4096" using chunk_bounds(3) [of va len] assms by simp
  then show "uaddr m pd (va + word_of_nat i) = uaddr m pd va + word_of_nat i" "vpn (va + word_of_nat i) = vpn va"
    by (rule uaddr_within)+
qed

lemma next_page:
  assumes "unat va + unat len \<le> 2147483648" "chunk va len < unat len"
  shows "PGROUNDDOWN va + PGSIZE = va + word_of_nat (chunk va len)"
    "unat (PGROUNDDOWN va + PGSIZE) = unat va + chunk va len" "unat (PGROUNDDOWN va + PGSIZE) mod 4096 = 0"
proof -
  have m: "unat va mod 4096 < 4096" by simp
  have c: "chunk va len = 4096 - unat va mod 4096" using assms(2) by (simp add: chunk_def)
  have q: "4096 * (unat va div 4096) + unat va mod 4096 = unat va" by simp
  have a: "unat (PGROUNDDOWN va + PGSIZE) = 4096 * (unat va div 4096) + 4096"
    using assms(1) q by (subst unat_plus_lt) (simp_all add: unat_PGROUNDDOWN PGSIZE_def)
  then show b: "unat (PGROUNDDOWN va + PGSIZE) = unat va + chunk va len" using q m c by linarith
  show "unat (PGROUNDDOWN va + PGSIZE) mod 4096 = 0" unfolding a by simp
  have "unat (va + word_of_nat (chunk va len)) = unat va + chunk va len"
  proof -
    have "unat (word_of_nat (chunk va len) :: uint) = chunk va len"
      using assms by (intro unat_word_of_nat) simp
    then show ?thesis using assms by (subst unat_plus_lt) simp_all
  qed
  with b show "PGROUNDDOWN va + PGSIZE = va + word_of_nat (chunk va len)" by (simp only: word_unat_eq_iff)
qed

text \<open>One chunk written: what the memory holds afterwards.\<close>

lemma chunk_blit:
  fixes buf len :: uint
  assumes "uvm_ok s ps pd" "user_ok (mem s) pd va"
  defines "m1 \<equiv> blit (mem s) (uaddr (mem s) pd va) buf (chunk va len)"
  shows "\<And>i. i < chunk va len \<Longrightarrow> m1 (uaddr (mem s) pd (va + word_of_nat i)) = mem s (buf + word_of_nat i)"
    and "\<And>a. (\<And>i. i < chunk va len \<Longrightarrow> a \<noteq> uaddr (mem s) pd (va + word_of_nat i)) \<Longrightarrow> m1 a = mem s a"
    and "\<And>a. (\<And>k. k < user_pages \<Longrightarrow> mapped (mem s) pd k \<Longrightarrow> \<not> in_page (upage (mem s) pd k) a) \<Longrightarrow> m1 a = mem s a"
proof -
  let ?u = "uaddr (mem s) pd"
  have c32: "chunk va len \<le> 2 ^ 32" using chunk_bounds(3) [of va len] by simp
  show "m1 (?u (va + word_of_nat i)) = mem s (buf + word_of_nat i)" if "i < chunk va len" for i
    unfolding m1_def chunk_uaddr(1) [OF that] using that c32 by (rule blit_inside)
  show out: "m1 a = mem s a" if a: "\<And>i. i < chunk va len \<Longrightarrow> a \<noteq> ?u (va + word_of_nat i)" for a
    unfolding m1_def
  proof (rule blit_outside, rule ccontr)
    assume "\<not> chunk va len \<le> unat (a - ?u va)"
    then have i: "unat (a - ?u va) < chunk va len" by simp
    have "?u (va + word_of_nat (unat (a - ?u va))) = a" unfolding chunk_uaddr(1) [OF i] by simp
    with a [OF i] show False by simp
  qed
  show "m1 a = mem s a" if a: "\<And>k. k < user_pages \<Longrightarrow> mapped (mem s) pd k \<Longrightarrow> \<not> in_page (upage (mem s) pd k) a" for a
  proof (rule out)
    fix i assume i: "i < chunk va len"
    have "\<not> in_page (upage (mem s) pd (vpn va)) a" using a assms(2) by (simp add: user_ok_def)
    then show "a \<noteq> ?u (va + word_of_nat i)"
      using uaddr_in_page [of "mem s" pd "va + word_of_nat i"] chunk_uaddr(2) [OF i] by auto
  qed
qed

lemma copyout_loop:
  assumes "uvm_ok s ps pd" "\<And>i. i < unat len \<Longrightarrow> user_ok (mem s) pd (va + word_of_nat i)"
    and "unat va + unat len \<le> 2147483648" "unat buf + unat len < 2 ^ 32"
    and "\<And>i k. i < unat len \<Longrightarrow> k < user_pages \<Longrightarrow> mapped (mem s) pd k \<Longrightarrow> \<not> in_page (upage (mem s) pd k) (buf + word_of_nat i)"
    and "(unat va mod 4096 + unat len + 4095) div 4096 < N"
  shows "\<exists>m. kloop N (copyout_body pd) (va, buf, len) s = Ok 0 (s\<lparr>mem := m\<rparr>) \<and> uvm_ok (s\<lparr>mem := m\<rparr>) ps pd
    \<and> (\<forall>i < unat len. m (uaddr (mem s) pd (va + word_of_nat i)) = mem s (buf + word_of_nat i))
    \<and> (\<forall>a. (\<forall>i < unat len. a \<noteq> uaddr (mem s) pd (va + word_of_nat i)) \<longrightarrow> m a = mem s a)"
  using assms
proof (induction N arbitrary: s va buf len)
  case 0
  then show ?case by simp
next
  case (Suc N)
  note ok = Suc.prems(1) and usr = Suc.prems(2) and src = Suc.prems(5)
  show ?case
  proof (cases "len = 0")
    case True
    then have "kloop (Suc N) (copyout_body pd) (va, buf, len) s = Ok 0 (s\<lparr>mem := mem s\<rparr>)" by simp
    with True ok show ?thesis by (intro exI [of _ "mem s"]) simp
  next
    case False
    then have len: "0 < len" by (simp add: word_neq_0_conv)
    define c where "c = chunk va len"
    note cb = chunk_bounds [where va = va and len = len, folded c_def]
    have u0: "user_ok (mem s) pd va" using usr [of 0] len by (simp add: word_less_nat_alt)
    obtain n where n: "unat n = c" and st: "copyout_body pd (va, buf, len) s
        = Ok (Inl (PGROUNDDOWN va + PGSIZE, buf + n, len - n)) (s\<lparr>mem := blit (mem s) (uaddr (mem s) pd va) buf c\<rparr>)"
      using copyout_step [OF ok u0 len Suc.prems(4)] unfolding c_def by blast
    define m1 where "m1 = blit (mem s) (uaddr (mem s) pd va) buf c"
    let ?u = "uaddr (mem s) pd" and ?s = "s\<lparr>mem := m1\<rparr>"
    note cbl = chunk_blit [OF ok u0, where buf = buf and len = len, folded c_def, folded m1_def]
    have ok1: "uvm_ok ?s ps pd" and pte1: "\<And>k. k < 1048576 \<Longrightarrow> pte m1 pd k = pte (mem s) pd k"
      using uvm_ok_user_write [OF ok, of m1] cbl(3) by blast+
    note usame = pte_user_cong [OF pte1 [OF vpn_lt]]
    have n': "n = word_of_nat c" using n by (simp flip: n)
    have run: "kloop (Suc N) (copyout_body pd) (va, buf, len) s
        = kloop N (copyout_body pd) (PGROUNDDOWN va + PGSIZE, buf + n, len - n) ?s"
      using st by (simp add: kbind_apply m1_def)
    have ln: "unat (len - n) = unat len - c" using n cb(2) by (simp add: unat_sub word_le_nat_alt)
    show ?thesis
    proof (cases "c = unat len")
      case True
      obtain M where M: "N = Suc M"
        using Suc.prems(6) len by (cases N) (auto simp: word_less_nat_alt)
      have z: "len - n = 0" using ln True by (simp add: word_unat_eq_iff)
      have "kloop N (copyout_body pd) (PGROUNDDOWN va + PGSIZE, buf + n, len - n) ?s = Ok 0 ?s" unfolding z M by simp
      then have "kloop (Suc N) (copyout_body pd) (va, buf, len) s = Ok 0 ?s" by (simp only: run)
      with ok1 cbl(1,2) True show ?thesis by (intro exI [of _ m1]) auto
    next
      case False
      with cb(2) have lt: "c < unat len" by simp
      note np = next_page [OF Suc.prems(3) lt [unfolded c_def], folded c_def]
      have add: "PGROUNDDOWN va + PGSIZE + word_of_nat i = va + word_of_nat (c + i)"
        "buf + n + word_of_nat i = buf + word_of_nat (c + i)" for i by (simp_all add: np(1) n' add.assoc)
      have fuel: "(unat (PGROUNDDOWN va + PGSIZE) mod 4096 + unat (len - n) + 4095) div 4096 < N"
      proof -
        have "chunk va len = 4096 - unat va mod 4096" using lt by (simp add: c_def chunk_def)
        moreover have "unat va mod 4096 < 4096" by simp
        ultimately have "unat va mod 4096 + unat len + 4095 = (unat len - c + 4095) + 4096"
          using lt unfolding c_def by linarith
        then have "(unat len - c + 4095) div 4096 + 1 < Suc N" using Suc.prems(6) by simp
        then show ?thesis unfolding np(3) ln by simp
      qed
      have bn: "unat (buf + n) + unat (len - n) < 2 ^ 32"
        using Suc.prems(4) n lt ln by (subst unat_plus_lt) simp_all
      obtain m where m: "kloop N (copyout_body pd) (PGROUNDDOWN va + PGSIZE, buf + n, len - n) ?s = Ok 0 (?s\<lparr>mem := m\<rparr>)"
        "uvm_ok (?s\<lparr>mem := m\<rparr>) ps pd"
        "\<forall>i < unat len - c. m (?u (va + word_of_nat (c + i))) = m1 (buf + word_of_nat (c + i))"
        "\<forall>a. (\<forall>i < unat len - c. a \<noteq> ?u (va + word_of_nat (c + i))) \<longrightarrow> m a = m1 a"
      proof -
        have "\<exists>m. kloop N (copyout_body pd) (PGROUNDDOWN va + PGSIZE, buf + n, len - n) ?s = Ok 0 (?s\<lparr>mem := m\<rparr>)
          \<and> uvm_ok (?s\<lparr>mem := m\<rparr>) ps pd
          \<and> (\<forall>i < unat (len - n). m (uaddr (mem ?s) pd (PGROUNDDOWN va + PGSIZE + word_of_nat i)) = mem ?s (buf + n + word_of_nat i))
          \<and> (\<forall>a. (\<forall>i < unat (len - n). a \<noteq> uaddr (mem ?s) pd (PGROUNDDOWN va + PGSIZE + word_of_nat i)) \<longrightarrow> m a = mem ?s a)"
        proof (rule Suc.IH [OF ok1 _ _ bn _ fuel])
          show "user_ok (mem ?s) pd (PGROUNDDOWN va + PGSIZE + word_of_nat i)" if "i < unat (len - n)" for i
            using usr [of "c + i"] that unfolding add ln by (simp add: usame)
          show "unat (PGROUNDDOWN va + PGSIZE) + unat (len - n) \<le> 2147483648"
            using Suc.prems(3) lt unfolding np(2) ln by simp
          show "\<not> in_page (upage (mem ?s) pd k) (buf + n + word_of_nat i)"
            if "i < unat (len - n)" "k < user_pages" "mapped (mem ?s) pd k" for i k
          proof -
            have "pte m1 pd k = pte (mem s) pd k" using that(2) pte1 by (simp add: user_pages_def)
            then show ?thesis using src [of "c + i" k] that unfolding add ln by (simp add: mapped_def upage_def)
          qed
        qed
        then show ?thesis using that by (auto simp: add ln usame)
      qed
      have far: "m1 (buf + word_of_nat j) = mem s (buf + word_of_nat j)" if "j < unat len" for j
        using cbl(3) src [OF that] by blast
      have apart: "?u (va + word_of_nat j) \<noteq> ?u (va + word_of_nat (c + i))" if "j < c" "i < unat len - c" for i j
      proof
        assume eq: "?u (va + word_of_nat j) = ?u (va + word_of_nat (c + i))"
        have "va + word_of_nat j = va + word_of_nat (c + i)"
          by (rule uaddr_inj [OF ok usr usr eq]) (use that in simp_all)
        then have "(word_of_nat j :: uint) = word_of_nat (c + i)" by simp
        then have "unat (word_of_nat j :: uint) = unat (word_of_nat (c + i) :: uint)" by (simp only:)
        moreover have "j < 2 ^ 32" "c + i < 2 ^ 32" using that Suc.prems(3) by simp_all
        ultimately have "j = c + i" by (simp only: unat_word_of_nat)
        with that show False by simp
      qed
      have "m (?u (va + word_of_nat j)) = mem s (buf + word_of_nat j)" if "j < unat len" for j
      proof (cases "j < c")
        case True
        then show ?thesis using m(4) apart cbl(1) by simp
      next
        case False
        then show ?thesis using m(3) [rule_format, of "j - c"] far [OF that] that by simp
      qed
      moreover have "m a = mem s a" if "\<forall>i < unat len. a \<noteq> ?u (va + word_of_nat i)" for a
      proof -
        have "a \<noteq> ?u (va + word_of_nat (c + i))" if "i < unat len - c" for i
        proof -
          have "c + i < unat len" using that by simp
          then show ?thesis using \<open>\<forall>i < unat len. a \<noteq> ?u (va + word_of_nat i)\<close> by blast
        qed
        then have "m a = m1 a" using m(4) by blast
        also have "\<dots> = mem s a" using cbl(2) that lt by simp
        finally show ?thesis .
      qed
      ultimately show ?thesis using run m(1,2) by (intro exI [of _ m]) simp
    qed
  qed
qed

section \<open>Properties\<close>

text \<open>
  C10: \<open>copyout\<close> writes user memory. If every byte of the user buffer is mapped for user mode
  and the kernel buffer lies outside the process's pages, \<open>copyout\<close> returns 0, each byte
  of the user buffer, as the page table translates it, has the value of the kernel byte, and
  nothing else in memory changes; in particular the page table stays well formed.
\<close>

theorem copyout_writes:
  assumes "uvm_ok s ps pd" "\<And>i. i < unat len \<Longrightarrow> user_ok (mem s) pd (va + word_of_nat i)"
    and "unat va + unat len \<le> 2147483648" "unat p + unat len < 2 ^ 32"
    and "\<And>i k. i < unat len \<Longrightarrow> k < user_pages \<Longrightarrow> mapped (mem s) pd k \<Longrightarrow> \<not> in_page (upage (mem s) pd k) (p + word_of_nat i)"
  shows "\<exists>m. copyout pd va p len s = Ok 0 (s\<lparr>mem := m\<rparr>) \<and> uvm_ok (s\<lparr>mem := m\<rparr>) ps pd
    \<and> (\<forall>i < unat len. m (uaddr (mem s) pd (va + word_of_nat i)) = mem s (p + word_of_nat i))
    \<and> (\<forall>a. (\<forall>i < unat len. a \<noteq> uaddr (mem s) pd (va + word_of_nat i)) \<longrightarrow> m a = mem s a)"
proof -
  have "unat va mod 4096 < 4096" by simp
  then have "unat va mod 4096 + unat len + 4095 < 4096 * vm_rounds" using assms(3) unfolding vm_rounds_def by linarith
  then have "(unat va mod 4096 + unat len + 4095) div 4096 < vm_rounds" by (simp add: less_mult_imp_div_less mult.commute)
  from copyout_loop [OF assms this] show ?thesis by (simp add: copyout_def)
qed

text \<open>The state \<open>vm3\<close> after mapping a fresh page at user address 0.\<close>

lemma vm3_mapped:
  "\<exists>t :: vm. \<exists>ps. uvm_ok t ps pd3 \<and> (\<forall>k < 1048576. pte (mem t) pd3 k = (if k = 0 then V2P 0x80300000 OR (PTE_W OR PTE_U) OR PTE_P else 0))"
proof -
  let ?p = "0x80300000 :: uint"
  have out: "\<And>a. \<not> in_page ?p a \<Longrightarrow> memset (mem vm3) ?p 0 PGSIZE a = mem vm3 a" by (rule memset_page_outside)
  have ok3: "uvm_ok vm3 (?p # [0x80301000, 0x80302000]) pd3" using vm3_uvm_ok by (simp add: free3_def)
  let ?u = "(allocated vm3)\<lparr>mem := memset (mem vm3) ?p 0 PGSIZE\<rparr>"
  have u: "uvm_ok ?u [0x80301000, 0x80302000] pd3" "fresh_for ?u [0x80301000, 0x80302000] pd3 ?p"
    "\<forall>k < 1048576. pte (mem ?u) pd3 k = pte (mem vm3) pd3 k"
    by (rule uvm_take(3) [OF ok3 out], assumption, rule uvm_take(6) [OF ok3 out], assumption,
        rule uvm_take(5) [OF ok3 out], assumption)
  have z: "pte (mem vm3) pd3 k = 0" if "k < 1048576" for k
    using vm3_empty(1) [OF page_index(1) [OF that]] by (simp add: pte_def)
  have "pte (mem ?u) pd3 0 = 0" using z [of 0] u(3) by auto
  then have nm: "\<not> mapped (mem ?u) pd3 0" unfolding mapped_def by (simp only: and_zero_eq) simp
  have z0: "(0 :: nat) < user_pages" "unat (0 :: uint) = 4096 * 0" by (simp_all add: user_pages_def)
  obtain r and t :: vm and ps where t: "uvm_ok t ps pd3" and
    "r = - 1 \<and> [0x80301000, 0x80302000] = ([] :: uint list) \<or> r = (0 :: int) \<and>
      (\<forall>k < 1048576. pte (mem t) pd3 k = (if k = 0 then V2P ?p OR (PTE_W OR PTE_U) OR PTE_P else pte (mem ?u) pd3 k))"
    using uvm_map [OF u(1,2) z0(1) nm WU_bits z0(2)] by blast
  then have "\<forall>k < 1048576. pte (mem t) pd3 k = (if k = 0 then V2P ?p OR (PTE_W OR PTE_U) OR PTE_P else pte (mem ?u) pd3 k)"
    by blast
  with u(3) z t show ?thesis by (intro exI [of _ t] exI [of _ ps] conjI) simp_all
qed

theorem copyout_writes_witness:
  "\<exists>s :: vm. \<exists>ps m. uvm_ok s ps pd3 \<and> user_ok (mem s) pd3 4 \<and> copyout pd3 4 0x80500000 8 s = Ok 0 (s\<lparr>mem := m\<rparr>)
    \<and> m (uaddr (mem s) pd3 (4 + word_of_nat 7)) = mem s (0x80500000 + word_of_nat 7)"
proof -
  obtain s :: vm and ps where s: "uvm_ok s ps pd3"
    "\<forall>k < 1048576. pte (mem s) pd3 k = (if k = 0 then V2P 0x80300000 OR (PTE_W OR PTE_U) OR PTE_P else 0)"
    using vm3_mapped by blast
  have u0: "upage (mem s) pd3 0 = 0x80300000" "mapped (mem s) pd3 0"
    using mapped_pte_make [OF _ WU_bits, of "0x80300000" "mem s" pd3 0] s(2) by (simp_all add: PGSIZE_def)
  have only: "k = 0" if "k < user_pages" "mapped (mem s) pd3 k" for k
    using that s(2) by (auto simp: mapped_def user_pages_def split: if_splits)
  have pu: "pte (mem s) pd3 0 AND PTE_U \<noteq> 0" using s(2) by (simp add: V2P_def KERNBASE_def PTE_W_def PTE_U_def PTE_P_def)
  have us: "user_ok (mem s) pd3 (4 + word_of_nat i)" if "i < 8" for i
  proof -
    have "unat (4 + word_of_nat i :: uint) = 4 + i" using that by (subst unat_plus_lt) simp_all
    then have "vpn (4 + word_of_nat i) = 0" using that by (simp add: vpn_def)
    then show ?thesis using u0 pu by (simp add: user_ok_def user_pages_def)
  qed
  have far: "\<not> in_page (upage (mem s) pd3 k) (0x80500000 + word_of_nat i)"
    if "i < 8" "k < user_pages" "mapped (mem s) pd3 k" for i k
  proof -
    have e: "0x80500000 + word_of_nat i - upage (mem s) pd3 k = 0x200000 + (word_of_nat i :: uint)"
      using only [OF that(2,3)] u0(1) by simp
    have "unat (0x200000 + (word_of_nat i :: uint)) = 0x200000 + i" using that(1) by (subst unat_plus_lt) simp_all
    then show ?thesis unfolding in_page_def e by simp
  qed
  have l8: "unat (8 :: uint) = 8" by simp
  have "\<exists>m. copyout pd3 4 0x80500000 8 s = Ok 0 (s\<lparr>mem := m\<rparr>) \<and> uvm_ok (s\<lparr>mem := m\<rparr>) ps pd3
    \<and> (\<forall>i < unat (8 :: uint). m (uaddr (mem s) pd3 (4 + word_of_nat i)) = mem s (0x80500000 + word_of_nat i))
    \<and> (\<forall>a. (\<forall>i < unat (8 :: uint). a \<noteq> uaddr (mem s) pd3 (4 + word_of_nat i)) \<longrightarrow> m a = mem s a)"
    by (rule copyout_writes [OF s(1)]) (use us far in \<open>simp_all only: l8, simp_all\<close>)
  then obtain m where "copyout pd3 4 0x80500000 8 s = Ok 0 (s\<lparr>mem := m\<rparr>)"
    "\<forall>i < 8. m (uaddr (mem s) pd3 (4 + word_of_nat i)) = mem s (0x80500000 + word_of_nat i)" unfolding l8 by blast
  moreover have "user_ok (mem s) pd3 4" using us [of 0] by simp
  moreover have "(7 :: nat) < 8" by simp
  ultimately show ?thesis using s(1) by blast
qed



text \<open>
  C28: \<open>setupkvm\<close> leaks the page directory when memory runs out: with a single free page left it
  returns 0, the caller gets no page directory to free, and the free list is empty.
\<close>

theorem setupkvm_leaks:
  assumes "kmem_inv s [p]"
  shows "\<exists>t. setupkvm s = Ok 0 t \<and> kmem_inv t []"
proof -
  let ?u = "(allocated s)\<lparr>mem := memset (mem s) p 0 PGSIZE\<rparr>"
  have p: "p mod PGSIZE = 0" "p \<noteq> 0" using assms by (auto simp: kmem_inv_def page_ok_def)
  have al: "kalloc s = Ok p (allocated s)"
    using assms kmem_inv_allocated [OF assms] by (simp add: kalloc_eq kmem_inv_def)
  have invu: "kmem_inv ?u []" using kmem_inv_allocated [OF assms] by (intro kmem_inv_write) simp_all
  have "load32 (mem ?u) (entry p i) = 0" if "i < 1024" for i
    by (rule load32_zero_page [OF p(1) that]) (simp add: memset_page_inside)
  then have "load32 (mem ?u) (p + 4 * PDX KERNBASE) AND PTE_P = 0"
    unfolding PDX_vpn using page_index(1) [OF vpn_lt, of KERNBASE] by simp
  then have w: "walkpgdir p KERNBASE True ?u = Ok 0 (allocated ?u)"
    using kalloc_eq [of ?u] invu by (simp add: walkpgdir_def kbind_apply kmem_inv_def)
  obtain M where M: "vm_rounds = Suc M" by (cases vm_rounds) (simp_all add: vm_rounds_def)
  have "PGROUNDDOWN KERNBASE = KERNBASE" by (simp add: PGROUNDDOWN_def PGSIZE_def KERNBASE_def)
  then have "mappages p KERNBASE EXTMEM 0 PTE_W ?u = Ok (- 1) (allocated ?u)"
    using w by (simp add: mappages_def M kbind_apply)
  then have "setupkvm s = Ok 0 (allocated ?u)"
    using al p(2) by (simp add: setupkvm_def kbind_apply kmap_table_def P2V_def PHYSTOP_def DEVSPACE_def)
      (simp add: KERNBASE_def)
  moreover have "kmem_inv (allocated ?u) []" using kmem_inv_allocated [OF invu] by simp
  ultimately show ?thesis by blast
qed

theorem setupkvm_leaks_witness:
  "\<exists>t. setupkvm (freed 0x80300000 boot_vm) = Ok 0 t \<and> kmem_inv t []"
proof -
  have "kmem_inv (freed 0x80300000 boot_vm) [0x80300000]"
    by (rule kmem_inv_freed)
      (simp_all add: kmem_inv_def boot_vm_simps boot_vm_page_ok KERNBASE_def PHYSTOP_def)
  then show ?thesis by (rule setupkvm_leaks)
qed

end
