(* ===== verification/Proc.thy ===== *)
theory Proc
  imports Ucopy
begin

text \<open>
  The process table (\<open>proc.h\<close>, \<open>proc.c\<close>): allocation of processes, sleeping and waking,
  scheduling, \<open>wait\<close>, \<open>kill\<close> and the part of \<open>exit\<close> that runs under \<open>ptable.lock\<close>.

  A process is named by its index in \<open>ptable.proc\<close>; the pointer \<open>proc\<close> of the source is the
  field \<open>cproc\<close> of the current CPU. A kernel thread that calls \<open>sched\<close> gives up the CPU; what
  happens until it runs again is the work of the other threads, and a parameter: a function on
  states. A routine that may sleep several times takes one such function per sleep; when the
  list is used up the thread is asleep for good, which is the outcome \<open>Blocked\<close>.

  The name of a process is the C string in \<open>name[16]\<close>. Trap frames and saved contexts live in
  the kernel stack, in byte memory. \<open>forkret_addr\<close> and \<open>trapret_addr\<close> are linker symbols.
\<close>

section \<open>\<open>proc.h\<close>\<close>

datatype procstate = UNUSED | EMBRYO | SLEEPING | RUNNABLE | RUNNING | ZOMBIE

datatype chan =
    Ch_proc nat | Ch_ticks | Ch_log | Ch_input | Ch_nread uint | Ch_nwrite uint
  | Ch_lock lockid | Ch_buf nat

record proc =
  sz :: uint
  pgdir :: uint
  kstack :: uint
  state :: procstate
  pid :: int
  parent :: "nat option"
  tf :: uint
  pcontext :: uint
  chan :: "chan option"
  killed :: int
  ofile :: "nat option list"
  cwd :: "nat option"
  pname :: string
  exitstat :: int

definition NPROC :: nat where "NPROC = 64"

definition NOFILE :: nat where "NOFILE = 16"

text \<open>Sizes and offsets of \<open>struct trapframe\<close> (\<open>x86.h\<close>) and \<open>struct context\<close>.\<close>

definition sizeof_trapframe :: uint where "sizeof_trapframe = 76"

definition sizeof_context :: uint where "sizeof_context = 20"

definition context_eip :: uint where "context_eip = 16"

record procs = vm +
  ptable :: "proc list"
  initproc :: "nat option"
  nextpid :: int
  forkret_addr :: uint
  trapret_addr :: uint

definition upd_proc :: "nat \<Rightarrow> (proc \<Rightarrow> proc) \<Rightarrow> 'z procs_scheme \<Rightarrow> 'z procs_scheme" where
  "upd_proc i f s = s\<lparr>ptable := (ptable s)[i := f (ptable s ! i)]\<rparr>"

text \<open>The current process, as an index and as a record.\<close>

definition me :: "'z procs_scheme \<Rightarrow> nat" where
  "me s = the (cproc (mycpu s))"

definition curproc :: "'z procs_scheme \<Rightarrow> proc" where
  "curproc s = ptable s ! me s"

definition upd_me :: "(proc \<Rightarrow> proc) \<Rightarrow> 'z procs_scheme \<Rightarrow> 'z procs_scheme" where
  "upd_me f s = upd_proc (me s) f s"

definition set_proc :: "nat option \<Rightarrow> ('z procs_scheme, unit) kern" where
  "set_proc i = kmod (upd_mycpu (\<lambda>c. c\<lparr>cproc := i\<rparr>))"

section \<open>\<open>proc.c\<close>\<close>

definition pinit :: "('z procs_scheme, unit) kern" where
  "pinit = initlock PtableLock ''ptable''"

text \<open>What \<open>allocproc\<close> does with the slot it found, after the lock is released.\<close>

definition allocproc_stack :: "nat \<Rightarrow> ('z procs_scheme, nat option) kern" where
  "allocproc_stack i =
     kbind kalloc (\<lambda>k.
     kbind (kmod (upd_proc i (\<lambda>p. p\<lparr>kstack := k\<rparr>))) (\<lambda>_.
     if k = 0 then kseq [kmod (upd_proc i (\<lambda>p. p\<lparr>state := UNUSED\<rparr>))] (kret None)
     else
       let sp1 = k + KSTACKSIZE - sizeof_trapframe; sp2 = sp1 - 4; sp3 = sp2 - sizeof_context in
       kseq
         [kmod (upd_proc i (\<lambda>p. p\<lparr>tf := sp1\<rparr>)),
          kmod (\<lambda>s. s\<lparr>mem := store32 (mem s) sp2 (trapret_addr s)\<rparr>),
          kmod (upd_proc i (\<lambda>p. p\<lparr>pcontext := sp3\<rparr>)),
          kmod (\<lambda>s. s\<lparr>mem := memset (mem s) sp3 0 sizeof_context\<rparr>),
          kmod (\<lambda>s. s\<lparr>mem := store32 (mem s) (sp3 + context_eip) (forkret_addr s)\<rparr>)]
         (kret (Some i))))"

definition allocproc :: "('z procs_scheme, nat option) kern" where
  "allocproc =
     kbind (acquire PtableLock) (\<lambda>_.
     kbind (kget (\<lambda>s. find_index (\<lambda>p. state p = UNUSED) (ptable s))) (\<lambda>r.
     case r of
       None \<Rightarrow> kseq [release PtableLock] (kret None)
     | Some i \<Rightarrow> kseq
         [kmod (upd_proc i (\<lambda>p. p\<lparr>state := EMBRYO\<rparr>)),
          kmod (\<lambda>s. upd_proc i (\<lambda>p. p\<lparr>pid := nextpid s\<rparr>) s),
          kmod (\<lambda>s. s\<lparr>nextpid := nextpid s + 1\<rparr>),
          release PtableLock]
         (allocproc_stack i)))"

definition switchuvm_proc :: "nat \<Rightarrow> ('z procs_scheme, unit) kern" where
  "switchuvm_proc i = (\<lambda>s. switchuvm (kstack (ptable s ! i)) (pgdir (ptable s ! i)) s)"

definition growproc :: "int \<Rightarrow> ('z procs_scheme, int) kern" where
  "growproc n =
     kbind (kget (\<lambda>s. (sz (curproc s), pgdir (curproc s)))) (\<lambda>(sz0, pd).
     kbind (if n > 0 then kbind (allocuvm pd sz0 (sz0 + word_of_int n)) (\<lambda>r. kret (r, r = 0))
            else if n < 0 then kbind (deallocuvm pd sz0 (sz0 + word_of_int n)) (\<lambda>r. kret (r, r = 0))
            else kret (sz0, False)) (\<lambda>(sz1, failed).
     if failed then kret (- 1)
     else kseq
       [kmod (upd_me (\<lambda>p. p\<lparr>sz := sz1\<rparr>)),
        (\<lambda>s. switchuvm_proc (me s) s)]
       (kret 0)))"

text \<open>\<open>wakeup1\<close> on the table alone.\<close>

definition wake :: "chan \<Rightarrow> proc \<Rightarrow> proc" where
  "wake ch p = (if state p = SLEEPING \<and> chan p = Some ch then p\<lparr>state := RUNNABLE\<rparr> else p)"

definition wakeup1 :: "chan \<Rightarrow> ('z procs_scheme, unit) kern" where
  "wakeup1 ch = kmod (\<lambda>s. s\<lparr>ptable := map (wake ch) (ptable s)\<rparr>)"

definition wakeup :: "chan \<Rightarrow> ('z procs_scheme, unit) kern" where
  "wakeup ch = kseq [acquire PtableLock, wakeup1 ch, release PtableLock] (kret ())"

text \<open>\<open>sched\<close>, with what the other threads do in the meantime as a parameter.\<close>

definition sched :: "('z procs_scheme \<Rightarrow> 'z procs_scheme) \<Rightarrow> ('z procs_scheme, unit) kern" where
  "sched others = kseq
     [kassert (holding PtableLock) ''sched ptable.lock'',
      kassert (\<lambda>s. \<not> ncli (mycpu s) \<noteq> 1) ''sched locks'',
      kassert (\<lambda>s. \<not> state (curproc s) = RUNNING) ''sched running'',
      kassert (\<lambda>s. \<not> readeflags s AND FL_IF \<noteq> 0) ''sched interruptible'',
      kmod (\<lambda>s. upd_mycpu (\<lambda>c. c\<lparr>intena := intena (mycpu s)\<rparr>) (others s))]
     (kret ())"

text \<open>
  \<open>yield\<close>, \<open>sleep\<close> and \<open>exit\<close> each have a part that leads up to \<open>sched\<close>, which is a definition
  of its own.
\<close>

definition yield_enter :: "('z procs_scheme, unit) kern" where
  "yield_enter = kseq
     [acquire PtableLock,
      kmod (upd_me (\<lambda>p. p\<lparr>state := RUNNABLE\<rparr>))]
     (kret ())"

definition yield :: "('z procs_scheme \<Rightarrow> 'z procs_scheme) \<Rightarrow> ('z procs_scheme, unit) kern" where
  "yield others = kseq
     [yield_enter,
      sched others,
      release PtableLock]
     (kret ())"

definition sleep_enter :: "chan \<Rightarrow> lockid \<Rightarrow> ('z procs_scheme, unit) kern" where
  "sleep_enter ch lk = kseq
     [kassert (\<lambda>s. cproc (mycpu s) \<noteq> None) ''sleep'',
      kif (\<lambda>s. lk \<noteq> PtableLock) (kseq [acquire PtableLock, release lk] (kret ())),
      kmod (upd_me (\<lambda>p. p\<lparr>chan := Some ch\<rparr>)),
      kmod (upd_me (\<lambda>p. p\<lparr>state := SLEEPING\<rparr>))]
     (kret ())"

definition sleep :: "('z procs_scheme \<Rightarrow> 'z procs_scheme) \<Rightarrow> chan \<Rightarrow> lockid \<Rightarrow> ('z procs_scheme, unit) kern" where
  "sleep others ch lk = kseq
     [sleep_enter ch lk,
      sched others,
      kmod (upd_me (\<lambda>p. p\<lparr>chan := None\<rparr>)),
      kif (\<lambda>s. lk \<noteq> PtableLock) (kseq [release PtableLock, acquire lk] (kret ()))]
     (kret ())"

text \<open>
  The last time a thread goes to sleep when nothing wakes it up: the state in which it
  stays asleep.
\<close>

definition sleep_forever :: "chan \<Rightarrow> lockid \<Rightarrow> ('z procs_scheme, 'a) kern" where
  "sleep_forever ch lk = kseq [sleep_enter ch lk, sched (\<lambda>s. s)] (\<lambda>s. Blocked s)"

fun kill_scan :: "int \<Rightarrow> proc list \<Rightarrow> (proc list \<times> int)" where
  "kill_scan q [] = ([], - 1)"
| "kill_scan q (p # ps) =
     (if pid p = q then
        (let p' = p\<lparr>killed := 1\<rparr> in
         ((if state p' = SLEEPING then p'\<lparr>state := RUNNABLE\<rparr> else p') # ps, 0))
      else (case kill_scan q ps of (ps', r) \<Rightarrow> (p # ps', r)))"

definition kill :: "int \<Rightarrow> ('z procs_scheme, int) kern" where
  "kill q =
     kbind (acquire PtableLock) (\<lambda>_.
     kbind (kget (\<lambda>s. kill_scan q (ptable s))) (\<lambda>(tab, r). kseq
       [kmod (\<lambda>s. s\<lparr>ptable := tab\<rparr>),
        release PtableLock]
       (kret r)))"

text \<open>
  The scan of \<open>wait\<close>: the index of the first zombie child from index \<open>i\<close> on, and whether a
  child was seen.
\<close>

fun wait_scan :: "nat \<Rightarrow> proc list \<Rightarrow> nat \<Rightarrow> bool \<Rightarrow> nat option \<times> bool" where
  "wait_scan self [] i havekids = (None, havekids)"
| "wait_scan self (p # ps) i havekids =
     (if parent p \<noteq> Some self then wait_scan self ps (Suc i) havekids
      else if state p = ZOMBIE then (Some i, True)
      else wait_scan self ps (Suc i) True)"

text \<open>
  Freeing the zombie in slot \<open>i\<close>. The local variable \<open>status\<close> is set to the address of
  \<open>p->exitstat\<close>, but nothing is stored through it, so it does not appear here.
\<close>

definition reap :: "nat \<Rightarrow> ('z procs_scheme, int) kern" where
  "reap i =
     kbind (kget (\<lambda>s. pid (ptable s ! i))) (\<lambda>pid0. kseq
       [(\<lambda>s. kfree (kstack (ptable s ! i)) s),
        kmod (upd_proc i (\<lambda>p. p\<lparr>kstack := 0\<rparr>)),
        (\<lambda>s. freevm (pgdir (ptable s ! i)) s),
        kmod (upd_proc i (\<lambda>p. p\<lparr>pid := 0\<rparr>)),
        kmod (upd_proc i (\<lambda>p. p\<lparr>parent := None\<rparr>)),
        kmod (upd_proc i (\<lambda>p. p\<lparr>pname := []\<rparr>)),
        kmod (upd_proc i (\<lambda>p. p\<lparr>killed := 0\<rparr>)),
        kmod (upd_proc i (\<lambda>p. p\<lparr>state := UNUSED\<rparr>)),
        release PtableLock]
       (kret pid0))"

text \<open>The loop of \<open>wait\<close>, entered with the lock held.\<close>

fun wait_loop :: "('z procs_scheme \<Rightarrow> 'z procs_scheme) list \<Rightarrow> ('z procs_scheme, int) kern" where
  "wait_loop envs =
     kbind (kget (\<lambda>s. wait_scan (me s) (ptable s) 0 False)) (\<lambda>(z, havekids).
     case z of
       Some i \<Rightarrow> reap i
     | None \<Rightarrow>
         kbind (kget (\<lambda>s. killed (curproc s))) (\<lambda>k.
         if \<not> havekids \<or> k \<noteq> 0 then kseq [release PtableLock] (kret (- 1))
         else (case envs of
             [] \<Rightarrow> (\<lambda>s. sleep_forever (Ch_proc (me s)) PtableLock s)
           | e # es \<Rightarrow> kbind (\<lambda>s. sleep e (Ch_proc (me s)) PtableLock s) (\<lambda>_. wait_loop es))))"

definition wait :: "('z procs_scheme \<Rightarrow> 'z procs_scheme) list \<Rightarrow> ('z procs_scheme, int) kern" where
  "wait envs = kbind (acquire PtableLock) (\<lambda>_. wait_loop envs)"

text \<open>
  The part of \<open>exit\<close> after the files and the directory are closed: it runs with
  \<open>ptable.lock\<close> held and ends in \<open>sched\<close>, from which a zombie does not come back.
\<close>

definition abandon :: "nat \<Rightarrow> nat option \<Rightarrow> proc list \<Rightarrow> nat \<Rightarrow> proc list" where
  "abandon self init tab i =
     (if parent (tab ! i) = Some self then
        (let tab' = tab[i := (tab ! i)\<lparr>parent := init\<rparr>] in
         if state (tab' ! i) = ZOMBIE then (case init of Some j \<Rightarrow> map (wake (Ch_proc j)) tab' | None \<Rightarrow> tab')
         else tab')
      else tab)"

definition exit_enter :: "int \<Rightarrow> ('z procs_scheme, unit) kern" where
  "exit_enter status = kseq
     [acquire PtableLock,
      (\<lambda>s. case parent (curproc s) of Some q \<Rightarrow> wakeup1 (Ch_proc q) s | None \<Rightarrow> Ok () s),
      kmod (\<lambda>s. s\<lparr>ptable := foldl (abandon (me s) (initproc s)) (ptable s) [0..<length (ptable s)]\<rparr>),
      kmod (upd_me (\<lambda>p. p\<lparr>exitstat := status\<rparr>)),
      kmod (upd_me (\<lambda>p. p\<lparr>state := ZOMBIE\<rparr>))]
     (kret ())"

definition exit_locked :: "int \<Rightarrow> ('z procs_scheme, unit) kern" where
  "exit_locked status = kseq [exit_enter status, sched (\<lambda>s. s)] (\<lambda>s. Blocked s)"

text \<open>
  One round of the endless loop of \<open>scheduler\<close>. \<open>run i\<close> is what happens from the switch to
  process \<open>i\<close> until control is back in the scheduler. The result lists the processes that ran.
\<close>

definition dispatch :: "nat \<Rightarrow> ('z procs_scheme, unit) kern" where
  "dispatch i = kseq
     [set_proc (Some i),
      switchuvm_proc i,
      kmod (upd_proc i (\<lambda>p. p\<lparr>state := RUNNING\<rparr>))]
     (kret ())"

primrec sched_scan :: "(nat \<Rightarrow> 'z procs_scheme \<Rightarrow> 'z procs_scheme) \<Rightarrow> nat list \<Rightarrow> ('z procs_scheme, nat list) kern" where
  "sched_scan run [] = kret []"
| "sched_scan run (i # is) =
     kcond (\<lambda>s. state (ptable s ! i) \<noteq> RUNNABLE)
       (sched_scan run is)
       (kseq
          [dispatch i,
           kmod (run i),
           switchkvm,
           set_proc None]
          (kbind (sched_scan run is) (\<lambda>js. kret (i # js))))"

definition scheduler_round :: "(nat \<Rightarrow> 'z procs_scheme \<Rightarrow> 'z procs_scheme) \<Rightarrow> ('z procs_scheme, nat list) kern" where
  "scheduler_round run =
     kbind sti (\<lambda>_.
     kbind (acquire PtableLock) (\<lambda>_.
     kbind (\<lambda>s. sched_scan run [0..<length (ptable s)] s) (\<lambda>js.
     kbind (release PtableLock) (\<lambda>_. kret js))))"

end
