(* ===== verification/Proctab.thy ===== *)
theory Proctab
  imports Proc
begin

text \<open>
  The life of a process, as an abstract state machine, and the proof that the operations of
  \<open>proc.c\<close> implement it: every critical section on the process table is one of its steps. The
  invariant of the machine says that process identifiers are unique, that a process runs on at
  most one CPU, that no process loses its parent, and that a parent asleep in \<open>wait\<close> has no
  zombie child.
\<close>

section \<open>The abstract machine\<close>

text \<open>
  For each slot its state, identifier, parent and wait channel; the slot of \<open>initproc\<close>; the next
  identifier; and the process each CPU runs.
\<close>

record life =
  st :: "nat \<Rightarrow> procstate"
  pd :: "nat \<Rightarrow> int"
  par :: "nat \<Rightarrow> nat option"
  slp :: "nat \<Rightarrow> chan option"
  ini :: "nat option"
  nxt :: int
  run :: "nat \<Rightarrow> nat option"

text \<open>Who is woken when \<open>i\<close> exits: its parent, and \<open>initproc\<close> if it inherits a zombie.\<close>

definition woken :: "life \<Rightarrow> nat \<Rightarrow> nat \<Rightarrow> bool" where
  "woken v i j \<longleftrightarrow> st v j = SLEEPING \<and>
     ((\<exists>q. par v i = Some q \<and> slp v j = Some (Ch_proc q)) \<or>
      (\<exists>k. ini v = Some k \<and> slp v j = Some (Ch_proc k) \<and>
           (\<exists>m < NPROC. par v m = Some i \<and> st v m = ZOMBIE)))"

definition exited :: "life \<Rightarrow> nat \<Rightarrow> nat \<Rightarrow> life" where
  "exited v c i = v
     \<lparr>st := (\<lambda>j. if j = i then ZOMBIE else if woken v i j then RUNNABLE else st v j),
      par := (\<lambda>j. if j < NPROC \<and> par v j = Some i then ini v else par v j),
      run := (run v)(c := None)\<rparr>"

inductive life_step :: "life \<Rightarrow> life \<Rightarrow> bool" where
  create: "i < NPROC \<Longrightarrow> st v i = UNUSED \<Longrightarrow>
    life_step v (v\<lparr>st := (st v)(i := EMBRYO), pd := (pd v)(i := nxt v), nxt := nxt v + 1\<rparr>)"
| create_fail: "i < NPROC \<Longrightarrow> st v i = UNUSED \<Longrightarrow>
    life_step v (v\<lparr>pd := (pd v)(i := nxt v), nxt := nxt v + 1\<rparr>)"
| abort: "i < NPROC \<Longrightarrow> st v i = EMBRYO \<Longrightarrow> par v i = None \<Longrightarrow> ini v \<noteq> Some i \<Longrightarrow>
    life_step v (v\<lparr>st := (st v)(i := UNUSED)\<rparr>)"
| init: "i < NPROC \<Longrightarrow> st v i = EMBRYO \<Longrightarrow> par v i = None \<Longrightarrow> ini v = None \<Longrightarrow>
    life_step v (v\<lparr>ini := Some i\<rparr>)"
| adopt: "i < NPROC \<Longrightarrow> st v i = EMBRYO \<Longrightarrow> ini v \<noteq> Some i \<Longrightarrow> run v c = Some q \<Longrightarrow>
    life_step v (v\<lparr>par := (par v)(i := Some q)\<rparr>)"
| publish: "i < NPROC \<Longrightarrow> st v i = EMBRYO \<Longrightarrow> par v i \<noteq> None \<or> ini v = Some i \<Longrightarrow>
    life_step v (v\<lparr>st := (st v)(i := RUNNABLE)\<rparr>)"
| awaken: "life_step v
    (v\<lparr>st := (\<lambda>i. if st v i = SLEEPING \<and> slp v i = Some ch then RUNNABLE else st v i)\<rparr>)"
| kick: "i < NPROC \<Longrightarrow> st v i = SLEEPING \<Longrightarrow> life_step v (v\<lparr>st := (st v)(i := RUNNABLE)\<rparr>)"
| dispatch: "i < NPROC \<Longrightarrow> st v i = RUNNABLE \<Longrightarrow> run v c = None \<Longrightarrow>
    life_step v (v\<lparr>st := (st v)(i := RUNNING), run := (run v)(c := Some i)\<rparr>)"
| yields: "run v c = Some i \<Longrightarrow>
    life_step v (v\<lparr>st := (st v)(i := RUNNABLE), run := (run v)(c := None)\<rparr>)"
| sleeps: "run v c = Some i \<Longrightarrow> \<forall>q. ch \<noteq> Ch_proc q \<Longrightarrow>
    life_step v (v\<lparr>st := (st v)(i := SLEEPING), slp := (slp v)(i := Some ch), run := (run v)(c := None)\<rparr>)"
| waits: "run v c = Some i \<Longrightarrow> \<forall>j < NPROC. par v j = Some i \<longrightarrow> st v j \<noteq> ZOMBIE \<Longrightarrow>
    life_step v (v\<lparr>st := (st v)(i := SLEEPING), slp := (slp v)(i := Some (Ch_proc i)), run := (run v)(c := None)\<rparr>)"
| resumes: "run v c = Some i \<Longrightarrow> life_step v (v\<lparr>slp := (slp v)(i := None)\<rparr>)"
| exits: "run v c = Some i \<Longrightarrow> ini v \<noteq> Some i \<Longrightarrow> life_step v (exited v c i)"
| reaps: "i < NPROC \<Longrightarrow> st v i = ZOMBIE \<Longrightarrow> par v i = Some q \<Longrightarrow> run v c = Some q \<Longrightarrow>
    life_step v (v\<lparr>st := (st v)(i := UNUSED), pd := (pd v)(i := 0), par := (par v)(i := None)\<rparr>)"

definition alive :: "procstate \<Rightarrow> bool" where
  "alive x \<longleftrightarrow> x \<in> {SLEEPING, RUNNABLE, RUNNING}"

lemma alive_simps [simp]:
  "alive SLEEPING" "alive RUNNABLE" "alive RUNNING" "\<not> alive UNUSED" "\<not> alive EMBRYO" "\<not> alive ZOMBIE"
  by (simp_all add: alive_def)

text \<open>The invariant, one part per concern.\<close>

definition pids_ok :: "life \<Rightarrow> bool" where
  "pids_ok v \<longleftrightarrow> 0 < nxt v \<and>
     (\<forall>i < NPROC. st v i \<noteq> UNUSED \<longrightarrow> 0 < pd v i \<and> pd v i < nxt v) \<and>
     (\<forall>i < NPROC. \<forall>j < NPROC. st v i \<noteq> UNUSED \<longrightarrow> st v j \<noteq> UNUSED \<longrightarrow> pd v i = pd v j \<longrightarrow> i = j)"

definition run_ok :: "life \<Rightarrow> bool" where
  "run_ok v \<longleftrightarrow> (\<forall>c i. run v c = Some i \<longrightarrow> i < NPROC \<and> st v i = RUNNING) \<and>
     (\<forall>i < NPROC. st v i = RUNNING \<longrightarrow> (\<exists>c. run v c = Some i)) \<and>
     (\<forall>c d i. run v c = Some i \<longrightarrow> run v d = Some i \<longrightarrow> c = d)"

definition parents_ok :: "life \<Rightarrow> bool" where
  "parents_ok v \<longleftrightarrow>
     (\<forall>i < NPROC. st v i = UNUSED \<longrightarrow> par v i = None) \<and>
     (\<forall>i < NPROC. \<forall>q. par v i = Some q \<longrightarrow> q < NPROC \<and> q \<noteq> i \<and> alive (st v q)) \<and>
     (\<forall>i < NPROC. st v i \<noteq> UNUSED \<longrightarrow> st v i \<noteq> EMBRYO \<longrightarrow> par v i \<noteq> None \<or> ini v = Some i) \<and>
     (\<forall>i. ini v = Some i \<longrightarrow> i < NPROC \<and> par v i = None \<and> st v i \<noteq> UNUSED \<and> st v i \<noteq> ZOMBIE) \<and>
     (\<forall>i < NPROC. st v i \<noteq> UNUSED \<longrightarrow> st v i \<noteq> EMBRYO \<longrightarrow> (\<exists>k. ini v = Some k \<and> alive (st v k)))"

definition waits_ok :: "life \<Rightarrow> bool" where
  "waits_ok v \<longleftrightarrow> (\<forall>q < NPROC. st v q = SLEEPING \<longrightarrow> slp v q = Some (Ch_proc q) \<longrightarrow>
     (\<forall>i < NPROC. par v i = Some q \<longrightarrow> st v i \<noteq> ZOMBIE))"

definition life_inv :: "life \<Rightarrow> bool" where
  "life_inv v \<longleftrightarrow> pids_ok v \<and> run_ok v \<and> parents_ok v \<and> waits_ok v"

lemma pids_okI:
  assumes "0 < nxt v"
    and "\<And>i. i < NPROC \<Longrightarrow> st v i \<noteq> UNUSED \<Longrightarrow> 0 < pd v i \<and> pd v i < nxt v"
    and "\<And>i j. i < NPROC \<Longrightarrow> j < NPROC \<Longrightarrow> st v i \<noteq> UNUSED \<Longrightarrow> st v j \<noteq> UNUSED \<Longrightarrow>
           pd v i = pd v j \<Longrightarrow> i = j"
  shows "pids_ok v"
  using assms unfolding pids_ok_def by blast

lemma pids_ok_mono:
  assumes "pids_ok v" "nxt v \<le> nxt w"
    and "\<And>i. i < NPROC \<Longrightarrow> st w i \<noteq> UNUSED \<Longrightarrow> st v i \<noteq> UNUSED \<and> pd w i = pd v i"
  shows "pids_ok w"
  using assms by (fastforce simp: pids_ok_def)

lemma pids_ok_step: "life_step v w \<Longrightarrow> pids_ok v \<Longrightarrow> run_ok v \<Longrightarrow> pids_ok w"
proof (induction rule: life_step.induct)
  case (create i v)
  have old: "0 < pd v j \<and> pd v j < nxt v" if "j < NPROC" "st v j \<noteq> UNUSED" for j
    using that create(3) by (simp add: pids_ok_def)
  show ?case
  proof (rule pids_okI, goal_cases)
    case 1
    from create(3) show ?case by (simp add: pids_ok_def)
  next
    case (2 j)
    from create(3) have "0 < nxt v" by (simp add: pids_ok_def)
    with 2 old [of j] show ?case by (cases "j = i") auto
  next
    case (3 j k)
    with old [of j] old [of k] create(3) show ?case
      by (cases "j = i"; cases "k = i") (simp_all add: pids_ok_def)
  qed
next
  case (publish i v)
  then show ?case by (intro pids_ok_mono [OF publish(4)]) (auto split: if_splits)
next
  case (kick i v)
  then show ?case by (intro pids_ok_mono [OF kick(3)]) (auto split: if_splits)
next
  case (dispatch i v c)
  then show ?case by (intro pids_ok_mono [OF dispatch(4)]) (auto split: if_splits)
next
  case (yields v c i)
  then show ?case
    by (intro pids_ok_mono [OF yields(2)]) (auto simp: run_ok_def split: if_splits)
next
  case (sleeps v c i ch)
  then show ?case
    by (intro pids_ok_mono [OF sleeps(3)]) (auto simp: run_ok_def split: if_splits)
next
  case (waits v c i)
  then show ?case
    by (intro pids_ok_mono [OF waits(3)]) (auto simp: run_ok_def split: if_splits)
next
  case (exits v c i)
  then show ?case
    by (intro pids_ok_mono [OF exits(3)]) (auto simp: run_ok_def exited_def woken_def split: if_splits)
qed (erule pids_ok_mono; force split: if_splits)+

lemma run_okI:
  assumes "\<And>c i. run v c = Some i \<Longrightarrow> i < NPROC \<and> st v i = RUNNING"
    and "\<And>i. i < NPROC \<Longrightarrow> st v i = RUNNING \<Longrightarrow> \<exists>c. run v c = Some i"
    and "\<And>c d i. run v c = Some i \<Longrightarrow> run v d = Some i \<Longrightarrow> c = d"
  shows "run_ok v"
  using assms unfolding run_ok_def by blast

lemma run_okD:
  assumes "run_ok v"
  shows "run v c = Some i \<Longrightarrow> i < NPROC" "run v c = Some i \<Longrightarrow> st v i = RUNNING"
    "i < NPROC \<Longrightarrow> st v i = RUNNING \<Longrightarrow> \<exists>c. run v c = Some i"
    "run v c = Some i \<Longrightarrow> run v d = Some i \<Longrightarrow> c = d"
  using assms unfolding run_ok_def by blast+

lemma run_ok_mono:
  assumes "run_ok v" "run w = run v" "\<And>i. st w i = RUNNING \<longleftrightarrow> st v i = RUNNING"
  shows "run_ok w"
  using assms by (simp add: run_ok_def)

lemma run_ok_leave:
  assumes "run_ok v" "run v c = Some i" "run w = (run v)(c := None)"
    and "\<And>j. st w j = RUNNING \<longleftrightarrow> j \<noteq> i \<and> st v j = RUNNING"
  shows "run_ok w"
proof (rule run_okI)
  fix d j
  assume *: "run w d = Some j"
  then have "d \<noteq> c" "run v d = Some j" using assms(3) by (auto split: if_splits)
  with run_okD(4) [OF assms(1,2)] have "j \<noteq> i" by blast
  with run_okD(1,2) [OF assms(1) \<open>run v d = Some j\<close>] assms(4) show "j < NPROC \<and> st w j = RUNNING"
    by simp
next
  fix j
  assume "j < NPROC" "st w j = RUNNING"
  with assms(4) run_okD(3) [OF assms(1)] obtain d where "j \<noteq> i" "run v d = Some j" by blast
  with assms(2,3) have "run w d = Some j" by auto
  then show "\<exists>d. run w d = Some j" ..
next
  fix d e j
  assume "run w d = Some j" "run w e = Some j"
  with assms(3) run_okD(4) [OF assms(1)] show "d = e" by (auto split: if_splits)
qed

lemma run_ok_step: "life_step v w \<Longrightarrow> run_ok v \<Longrightarrow> run_ok w"
proof (induction rule: life_step.induct)
  case (dispatch i v c)
  have *: "run v d \<noteq> Some i" for d using dispatch run_okD(2) [of v d i] by auto
  show ?case
  proof (rule run_okI, goal_cases)
    case (1 d j)
    with * [of d] dispatch run_okD(1,2) [OF dispatch(4), of d j] show ?case by (auto split: if_splits)
  next
    case (2 j)
    then show ?case
    proof (cases "j = i")
      case False
      with 2 run_okD(3) [OF dispatch(4), of j] obtain d where "run v d = Some j" by auto
      with dispatch(3) have "d \<noteq> c" by auto
      with \<open>run v d = Some j\<close> show ?thesis by auto
    qed auto
  next
    case (3 d e j)
    with * [of d] * [of e] run_okD(4) [OF dispatch(4), of d j e] show ?case by (auto split: if_splits)
  qed
next
  case (yields v c i)
  then show ?case by (intro run_ok_leave [OF yields(2,1)]) auto
next
  case (sleeps v c i ch)
  then show ?case by (intro run_ok_leave [OF sleeps(3,1)]) auto
next
  case (waits v c i)
  then show ?case by (intro run_ok_leave [OF waits(3,1)]) auto
next
  case (exits v c i)
  then show ?case by (intro run_ok_leave [OF exits(3,1)]) (auto simp: exited_def woken_def)
qed (erule run_ok_mono; auto split: if_splits)+

lemma parents_okD:
  assumes "parents_ok v"
  shows "i < NPROC \<Longrightarrow> st v i = UNUSED \<Longrightarrow> par v i = None"
    "i < NPROC \<Longrightarrow> par v i = Some q \<Longrightarrow> q < NPROC \<and> q \<noteq> i \<and> alive (st v q)"
    "i < NPROC \<Longrightarrow> st v i \<noteq> UNUSED \<Longrightarrow> st v i \<noteq> EMBRYO \<Longrightarrow> ini v \<noteq> Some i \<Longrightarrow> par v i \<noteq> None"
    "ini v = Some i \<Longrightarrow> i < NPROC \<and> par v i = None \<and> st v i \<noteq> UNUSED \<and> st v i \<noteq> ZOMBIE"
    "i < NPROC \<Longrightarrow> st v i \<noteq> UNUSED \<Longrightarrow> st v i \<noteq> EMBRYO \<Longrightarrow> \<exists>k. ini v = Some k \<and> alive (st v k)"
  using assms unfolding parents_ok_def by blast+

lemma parents_okI:
  assumes "\<And>i. i < NPROC \<Longrightarrow> st v i = UNUSED \<Longrightarrow> par v i = None"
    and "\<And>i q. i < NPROC \<Longrightarrow> par v i = Some q \<Longrightarrow> q < NPROC \<and> q \<noteq> i \<and> alive (st v q)"
    and "\<And>i. i < NPROC \<Longrightarrow> st v i \<noteq> UNUSED \<Longrightarrow> st v i \<noteq> EMBRYO \<Longrightarrow> ini v \<noteq> Some i \<Longrightarrow> par v i \<noteq> None"
    and "\<And>i. ini v = Some i \<Longrightarrow> i < NPROC \<and> par v i = None \<and> st v i \<noteq> UNUSED \<and> st v i \<noteq> ZOMBIE"
    and "\<And>i. i < NPROC \<Longrightarrow> st v i \<noteq> UNUSED \<Longrightarrow> st v i \<noteq> EMBRYO \<Longrightarrow> \<exists>k. ini v = Some k \<and> alive (st v k)"
  shows "parents_ok v"
  using assms unfolding parents_ok_def by blast

text \<open>
  A step that keeps the parents and only moves living processes among the living states, and
  perhaps an embryo to a free slot or back.
\<close>

lemma parents_ok_mono:
  assumes "parents_ok v" "par w = par v" "ini w = ini v"
    and "\<And>i. alive (st v i) \<Longrightarrow> alive (st w i)"
    and "\<And>i. \<not> alive (st v i) \<Longrightarrow> st w i = st v i \<or> i < NPROC \<and> par v i = None \<and> ini v \<noteq> Some i \<and>
           {st v i, st w i} \<subseteq> {UNUSED, EMBRYO}"
  shows "parents_ok w"
proof (rule parents_okI, goal_cases)
  case (1 i)
  then show ?case
    using assms(2,3) assms(4) [of i] assms(5) [of i] parents_okD(1) [OF assms(1), of i]
    by (cases "alive (st v i)") auto
next
  case (2 i q)
  then show ?case using assms(2) assms(4) [of q] parents_okD(2) [OF assms(1), of i q] by auto
next
  case (3 i)
  have "st v i \<noteq> UNUSED \<and> st v i \<noteq> EMBRYO"
    using 3 assms(5) [of i] by (cases "alive (st v i)") auto
  with 3 show ?case using assms(2,3) parents_okD(3) [OF assms(1), of i] by auto
next
  case (4 i)
  then show ?case
    using assms(2,3) assms(4) [of i] assms(5) [of i] parents_okD(4) [OF assms(1), of i]
    by (cases "alive (st v i)") auto
next
  case (5 i)
  have "st v i \<noteq> UNUSED \<and> st v i \<noteq> EMBRYO"
    using 5 assms(5) [of i] by (cases "alive (st v i)") auto
  with 5 show ?case using assms(3,4) parents_okD(5) [OF assms(1), of i] by auto
qed

lemma parents_ok_exited:
  assumes "parents_ok v" "run_ok v" "run v c = Some i" "ini v \<noteq> Some i"
  shows "parents_ok (exited v c i)"
proof -
  note run = run_okD(1,2) [OF assms(2,3)]
  from run obtain k where k: "ini v = Some k" "alive (st v k)"
    using parents_okD(5) [OF assms(1), of i] by auto
  have alive: "alive (st (exited v c i) j)" if "alive (st v j)" "j \<noteq> i" for j
    using that by (auto simp: exited_def)
  have st: "st (exited v c i) j = UNUSED \<longleftrightarrow> st v j = UNUSED"
    "st (exited v c i) j = EMBRYO \<longleftrightarrow> st v j = EMBRYO" for j
    using run by (auto simp: exited_def woken_def)
  have par: "par (exited v c i) j = (if j < NPROC \<and> par v j = Some i then Some k else par v j)"
    "ini (exited v c i) = Some k" for j
    using k by (simp_all add: exited_def)
  note kD = parents_okD(4) [OF assms(1) k(1)]
  show ?thesis
  proof (rule parents_okI, goal_cases)
    case (1 j)
    then show ?case using parents_okD(1) [OF assms(1), of j] by (simp add: st par)
  next
    case (2 j q)
    show ?case
    proof (cases "par v j = Some i")
      case True
      with 2 kD k alive [of k] assms(4) show ?thesis by (auto simp: par)
    next
      case False
      with 2 parents_okD(2) [OF assms(1), of j q] alive [of q] show ?thesis by (auto simp: par)
    qed
  next
    case (3 j)
    then show ?case using parents_okD(3) [OF assms(1), of j] k by (simp add: st par)
  next
    case (4 j)
    then have "j = k" by (simp add: par)
    with kD k assms(4) alive [of k] show ?case by (auto simp: par)
  next
    case (5 j)
    then show ?case using k alive [of k] assms(4) by (auto simp: par)
  qed
qed

lemma parents_ok_step: "life_step v w \<Longrightarrow> parents_ok v \<Longrightarrow> run_ok v \<Longrightarrow> parents_ok w"
proof (induction rule: life_step.induct)
  case (create i v)
  then show ?case
    using parents_okD(1) [OF create(3), of i] parents_okD(4) [OF create(3), of i]
    by (intro parents_ok_mono [OF create(3)]) auto
next
  case (init i v)
  have "\<not> (j < NPROC \<and> st v j \<noteq> UNUSED \<and> st v j \<noteq> EMBRYO)" for j
    using parents_okD(5) [OF init(5), of j] init(4) by auto
  note none = this
  show ?case
  proof (rule parents_okI, goal_cases)
    case (2 j q)
    then show ?case using parents_okD(2) [OF init(5), of j q] by simp
  qed (use none init parents_okD(1) [OF init(5)] in auto)
next
  case (adopt i v c q)
  have q: "q \<noteq> i" "q < NPROC" "alive (st v q)"
    using adopt(2) run_okD(1,2) [OF adopt(6,4)] by auto
  show ?case
  proof (rule parents_okI, goal_cases)
    case (1 j)
    then show ?case using adopt(2) parents_okD(1) [OF adopt(5), of j] by auto
  next
    case (2 j r)
    then show ?case using q parents_okD(2) [OF adopt(5), of j r] by (auto split: if_splits)
  next
    case (3 j)
    then show ?case using parents_okD(3) [OF adopt(5), of j] by auto
  next
    case (4 j)
    then show ?case using adopt(3) parents_okD(4) [OF adopt(5), of j] by auto
  next
    case (5 j)
    then show ?case using parents_okD(5) [OF adopt(5), of j] by auto
  qed
next
  case (publish i v)
  have init: "\<exists>k. ini v = Some k \<and> (alive (st v k) \<or> k = i)"
  proof (cases "ini v = Some i")
    case False
    with publish(3) obtain q where "par v i = Some q" by auto
    with parents_okD(2) [OF publish(4,1)] have "q < NPROC" "alive (st v q)" by auto
    with parents_okD(5) [OF publish(4), of q] show ?thesis by (auto simp: alive_def)
  qed auto
  show ?case
  proof (rule parents_okI, goal_cases)
    case (1 j)
    then show ?case using parents_okD(1) [OF publish(4), of j] by (auto split: if_splits)
  next
    case (2 j q)
    then show ?case using parents_okD(2) [OF publish(4), of j q] by auto
  next
    case (3 j)
    then show ?case using publish(3) parents_okD(3) [OF publish(4), of j] by (auto split: if_splits)
  next
    case (4 j)
    then show ?case using parents_okD(4) [OF publish(4), of j] by auto
  next
    case (5 j)
    then show ?case using init by auto
  qed
next
  case (exits v c i)
  then show ?case by (simp add: parents_ok_exited)
next
  case (reaps i v q c)
  have "q \<noteq> i" using parents_okD(2) [OF reaps(5,1,3)] by simp
  show ?case
  proof (rule parents_okI, goal_cases)
    case (1 j)
    then show ?case using parents_okD(1) [OF reaps(5), of j] by (auto split: if_splits)
  next
    case (2 j r)
    then show ?case
      using reaps(2) parents_okD(2) [OF reaps(5), of j r] by (auto split: if_splits)
  next
    case (3 j)
    then show ?case using parents_okD(3) [OF reaps(5), of j] by (auto split: if_splits)
  next
    case (4 j)
    then show ?case using reaps(2) parents_okD(4) [OF reaps(5), of j] by auto
  next
    case (5 j)
    then have "st v j \<noteq> UNUSED" "st v j \<noteq> EMBRYO" using reaps(2) by (auto split: if_splits)
    with parents_okD(5) [OF reaps(5) 5(1)] obtain k where "ini v = Some k" "alive (st v k)" by blast
    with reaps(2) show ?case by auto
  qed
next
  case (yields v c i)
  then show ?case using run_okD(2) [OF yields(3,1)] by (intro parents_ok_mono [OF yields(2)]) auto
next
  case (sleeps v c i ch)
  then show ?case using run_okD(2) [OF sleeps(4,1)] by (intro parents_ok_mono [OF sleeps(3)]) auto
next
  case (waits v c i)
  then show ?case using run_okD(2) [OF waits(4,1)] by (intro parents_ok_mono [OF waits(3)]) auto
qed (erule parents_ok_mono; force split: if_splits)+

lemma waits_okD:
  "waits_ok v \<Longrightarrow> q < NPROC \<Longrightarrow> st v q = SLEEPING \<Longrightarrow> slp v q = Some (Ch_proc q) \<Longrightarrow>
     i < NPROC \<Longrightarrow> par v i = Some q \<Longrightarrow> st v i \<noteq> ZOMBIE"
  unfolding waits_ok_def by blast

lemma waits_okI:
  assumes "\<And>q i. q < NPROC \<Longrightarrow> st v q = SLEEPING \<Longrightarrow> slp v q = Some (Ch_proc q) \<Longrightarrow>
     i < NPROC \<Longrightarrow> par v i = Some q \<Longrightarrow> st v i \<noteq> ZOMBIE"
  shows "waits_ok v"
  using assms unfolding waits_ok_def by blast

lemma waits_ok_mono:
  assumes "waits_ok v"
    and "\<And>i. st w i = ZOMBIE \<Longrightarrow> st v i = ZOMBIE \<and> par w i = par v i"
    and "\<And>q. st w q = SLEEPING \<Longrightarrow> slp w q = Some (Ch_proc q) \<Longrightarrow>
           st v q = SLEEPING \<and> slp v q = Some (Ch_proc q)"
  shows "waits_ok w"
proof (rule waits_okI)
  fix q i
  assume *: "q < NPROC" "st w q = SLEEPING" "slp w q = Some (Ch_proc q)" "i < NPROC" "par w i = Some q"
  then have "st v q = SLEEPING" "slp v q = Some (Ch_proc q)" using assms(3) by blast+
  with * waits_okD [OF assms(1), of q i] assms(2) [of i] show "st w i \<noteq> ZOMBIE" by auto
qed

lemma waits_ok_exited:
  assumes "waits_ok v" "parents_ok v" "run_ok v" "run v c = Some i"
  shows "waits_ok (exited v c i)"
proof (rule waits_okI, rule notI)
  fix q j
  let ?w = "exited v c i"
  assume q: "q < NPROC" "st ?w q = SLEEPING" "slp ?w q = Some (Ch_proc q)"
    and j: "j < NPROC" "par ?w j = Some q" "st ?w j = ZOMBIE"
  from q have v: "st v q = SLEEPING" "slp v q = Some (Ch_proc q)" "\<not> woken v i q"
    by (auto simp: exited_def split: if_splits)
  have self: "par v i \<noteq> Some i"
    using parents_okD(2) [OF assms(2) run_okD(1) [OF assms(3,4)], of i] by blast
  have zombie: "j = i \<or> st v j = ZOMBIE"
    using j(3) by (auto simp: exited_def split: if_splits)
  show False
  proof (cases "par v j = Some i")
    case True
    with j self have "ini v = Some q" "st v j = ZOMBIE"
      using zombie by (auto simp: exited_def)
    with True v j(1) show False by (auto simp: woken_def)
  next
    case False
    with j have "par v j = Some q" by (auto simp: exited_def split: if_splits)
    with zombie v j(1) waits_okD [OF assms(1) q(1) v(1,2) j(1)] show False
      by (auto simp: woken_def)
  qed
qed

lemma waits_ok_step:
  "life_step v w \<Longrightarrow> waits_ok v \<Longrightarrow> parents_ok v \<Longrightarrow> run_ok v \<Longrightarrow> waits_ok w"
proof (induction rule: life_step.induct)
  case (waits v c i)
  show ?case
  proof (rule waits_okI)
    fix q j
    let ?w = "v\<lparr>st := (st v)(i := SLEEPING), slp := (slp v)(i := Some (Ch_proc i)), run := (run v)(c := None)\<rparr>"
    assume *: "q < NPROC" "st ?w q = SLEEPING" "slp ?w q = Some (Ch_proc q)" "j < NPROC"
      "par ?w j = Some q"
    with waits(2) waits_okD [OF waits(3), of q j] show "st ?w j \<noteq> ZOMBIE"
      by (cases "q = i") (auto split: if_splits)
  qed
next
  case (exits v c i)
  then show ?case by (simp add: waits_ok_exited)
next
  case (adopt i v c q)
  then show ?case by (intro waits_ok_mono [OF adopt(5)]) auto
qed (erule waits_ok_mono; force split: if_splits)+

lemma life_inv_step: "life_step v w \<Longrightarrow> life_inv v \<Longrightarrow> life_inv w"
  by (simp add: life_inv_def pids_ok_step run_ok_step parents_ok_step waits_ok_step)

lemma life_inv_steps: "life_step\<^sup>*\<^sup>* v w \<Longrightarrow> life_inv v \<Longrightarrow> life_inv w"
  by (induction rule: rtranclp_induct) (simp_all add: life_inv_step)

section \<open>What the operations do to the table\<close>

definition pview :: "'z procs_scheme \<Rightarrow> proc list \<times> nat option \<times> int \<times> nat \<times> (nat \<Rightarrow> nat option)" where
  "pview s = (ptable s, initproc s, nextpid s, curcpu s, \<lambda>c. cproc (cpus s c))"

definition life_of :: "'z procs_scheme \<Rightarrow> life" where
  "life_of s =
     \<lparr>st = \<lambda>i. if i < NPROC then state (ptable s ! i) else UNUSED,
      pd = \<lambda>i. if i < NPROC then pid (ptable s ! i) else 0,
      par = \<lambda>i. if i < NPROC then parent (ptable s ! i) else None,
      slp = \<lambda>i. if i < NPROC then chan (ptable s ! i) else None,
      ini = initproc s, nxt = nextpid s, run = \<lambda>c. cproc (cpus s c)\<rparr>"

lemma pview_cproc: "pview t = pview s \<Longrightarrow> cproc (cpus t c) = cproc (cpus s c)"
  by (auto simp: pview_def dest: fun_cong)

lemma pviewD:
  assumes "pview t = pview s"
  shows "ptable t = ptable s" "initproc t = initproc s" "nextpid t = nextpid s" "curcpu t = curcpu s"
    "life_of t = life_of s" "me t = me s" "curproc t = curproc s" "cproc (mycpu t) = cproc (mycpu s)"
  using assms pview_cproc [OF assms]
  by (simp_all add: pview_def life_of_def me_def curproc_def cong: if_cong)

lemma upd_mycpu_procs [simp]:
  "ptable (upd_mycpu f s) = ptable s" "initproc (upd_mycpu f s) = initproc s"
  "nextpid (upd_mycpu f s) = nextpid s"
  by (simp_all add: upd_mycpu_def)

text \<open>The operations below the process table keep it.\<close>

lemma keeps_kloop: "(\<And>i. keeps f (b i)) \<Longrightarrow> keeps f (kloop n b i)"
proof (induction n arbitrary: i)
  case 0
  then show ?case by (simp add: keeps_def)
next
  case (Suc n)
  then show ?case by (auto split: sum.split intro!: keeps_kbind)
qed

lemma keeps_mod: "(\<And>s. f (g s) = f s) \<Longrightarrow> keeps f (kmod g)"
  by (rule keeps_kmod)

lemma pview_simps [simp]:
  "pview (upd_lock l g s) = pview s"
  "(\<And>c. cproc (f c) = cproc c) \<Longrightarrow> pview (upd_mycpu f s) = pview s"
  "pview (s\<lparr>mem := m\<rparr>) = pview s"
  "pview (s\<lparr>freelist := a\<rparr>) = pview s"
  "pview (s\<lparr>ts := x\<rparr>) = pview s"
  "pview (s\<lparr>gdt := y\<rparr>) = pview s"
  "pview (s\<lparr>tr := z\<rparr>) = pview s"
  "pview (s\<lparr>cr3 := w\<rparr>) = pview s"
  by (simp_all add: pview_def upd_lock_def upd_mycpu_def fun_eq_iff)

lemma keeps_acquire [simp]: "keeps pview (acquire l)"
  by (auto simp: acquire_def pushcli_def cli_def intro!: keeps_kbind keeps_mod)
    (auto simp: keeps_def xchg_locked_def kbind_apply)

lemma keeps_release [simp]: "keeps pview (release l)"
  by (auto simp: release_def popcli_def sti_def intro!: keeps_kbind keeps_mod)

lemma keeps_kalloc [simp]: "keeps pview kalloc"
  by (auto simp: kalloc_def intro!: keeps_kbind keeps_mod)

lemma keeps_kfree [simp]: "keeps pview (kfree a)"
  by (auto simp: kfree_def intro!: keeps_kbind keeps_mod)

lemma keeps_walkpgdir [simp]: "keeps pview (walkpgdir d a c)"
  by (auto simp: walkpgdir_def intro!: keeps_kbind keeps_mod)

lemma keeps_deallocuvm [simp]: "keeps pview (deallocuvm d a b)"
  by (auto simp: deallocuvm_def deallocuvm_body_def intro!: keeps_kloop keeps_kbind keeps_mod)

lemma keeps_freevm [simp]: "keeps pview (freevm d)"
proof -
  have tables: "keeps pview (kfor is (\<lambda>i.
        kbind (kget (\<lambda>s. load32 (mem s) (d + 4 * of_nat i))) (\<lambda>e.
        if e AND PTE_P \<noteq> 0 then kfree (P2V (PTE_ADDR e)) else kret ())))" for "is"
    by (auto intro!: keeps_kfor keeps_kbind)
  show ?thesis
    unfolding freevm_def kseq.simps by (intro keeps_kbind tables) simp_all
qed

lemma keeps_set_gdt [simp]: "keeps pview (\<lambda>s. set_gdt i (g s) s)"
  by (simp add: keeps_def set_gdt_def)

lemma keeps_switchuvm: "keeps pview (switchuvm k d)"
  by (auto simp: switchuvm_def lcr3_def pushcli_def cli_def popcli_def sti_def
      intro!: keeps_kbind keeps_mod)

lemma keeps_switchuvm_proc [simp]: "keeps pview (switchuvm_proc i)"
  using keeps_switchuvm unfolding keeps_def switchuvm_proc_def by blast

text \<open>How the updates of the operations look from above.\<close>

abbreviation table_ok :: "'z procs_scheme \<Rightarrow> bool" where
  "table_ok s \<equiv> length (ptable s) = NPROC"

lemma table_ok_upd [simp]: "length (ptable (upd_proc i f s)) = length (ptable s)"
  by (simp add: upd_proc_def)

lemma life_upd [simp]:
  assumes "table_ok s" "i < NPROC"
  shows "life_of (upd_proc i (\<lambda>p. p\<lparr>state := x\<rparr>) s) = (life_of s)\<lparr>st := (st (life_of s))(i := x)\<rparr>"
    "life_of (upd_proc i (\<lambda>p. p\<lparr>pid := n\<rparr>) s) = (life_of s)\<lparr>pd := (pd (life_of s))(i := n)\<rparr>"
    "life_of (upd_proc i (\<lambda>p. p\<lparr>parent := q\<rparr>) s) = (life_of s)\<lparr>par := (par (life_of s))(i := q)\<rparr>"
    "life_of (upd_proc i (\<lambda>p. p\<lparr>chan := ch\<rparr>) s) = (life_of s)\<lparr>slp := (slp (life_of s))(i := ch)\<rparr>"
  using assms by (simp_all add: life_of_def upd_proc_def fun_eq_iff nth_list_update)

lemma life_upd_other:
  assumes "table_ok s" "\<And>p. state (f p) = state p" "\<And>p. pid (f p) = pid p"
    "\<And>p. parent (f p) = parent p" "\<And>p. chan (f p) = chan p"
  shows "life_of (upd_proc i f s) = life_of s"
proof -
  have "(ptable s)[i := f (ptable s ! i)] ! j = (if j = i then f (ptable s ! i) else ptable s ! j)"
    if "j < NPROC" for j
    using that assms(1) by (simp add: nth_list_update)
  then show ?thesis
    using assms(2-) by (simp add: life_of_def upd_proc_def fun_eq_iff)
qed

lemma life_upd_others [simp]:
  assumes "table_ok s"
  shows "life_of (upd_proc i (\<lambda>p. p\<lparr>kstack := x\<rparr>) s) = life_of s"
    "life_of (upd_proc i (\<lambda>p. p\<lparr>tf := x\<rparr>) s) = life_of s"
    "life_of (upd_proc i (\<lambda>p. p\<lparr>pcontext := x\<rparr>) s) = life_of s"
    "life_of (upd_proc i (\<lambda>p. p\<lparr>pname := y\<rparr>) s) = life_of s"
    "life_of (upd_proc i (\<lambda>p. p\<lparr>killed := z\<rparr>) s) = life_of s"
    "life_of (upd_proc i (\<lambda>p. p\<lparr>exitstat := z\<rparr>) s) = life_of s"
  using assms by (simp_all add: life_upd_other)

lemma life_misc [simp]:
  "life_of (s\<lparr>mem := m\<rparr>) = life_of s"
  "life_of (s\<lparr>nextpid := k\<rparr>) = (life_of s)\<lparr>nxt := k\<rparr>"
  "life_of (s\<lparr>initproc := q\<rparr>) = (life_of s)\<lparr>ini := q\<rparr>"
  "life_of (s\<lparr>curcpu := c\<rparr>) = life_of s"
  "life_of (upd_mycpu (\<lambda>d. d\<lparr>cproc := x\<rparr>) s) = (life_of s)\<lparr>run := (run (life_of s))(curcpu s := x)\<rparr>"
  by (simp_all add: life_of_def upd_mycpu_def fun_eq_iff)

lemma life_sel:
  "i < NPROC \<Longrightarrow> st (life_of s) i = state (ptable s ! i)"
  "i < NPROC \<Longrightarrow> pd (life_of s) i = pid (ptable s ! i)"
  "i < NPROC \<Longrightarrow> par (life_of s) i = parent (ptable s ! i)"
  "i < NPROC \<Longrightarrow> slp (life_of s) i = chan (ptable s ! i)"
  "ini (life_of s) = initproc s" "nxt (life_of s) = nextpid s"
  "run (life_of s) c = cproc (cpus s c)"
  by (simp_all add: life_of_def)

lemma upd_proc_simps [simp]:
  "ptable (upd_proc i f s) = (ptable s)[i := f (ptable s ! i)]"
  "initproc (upd_proc i f s) = initproc s" "nextpid (upd_proc i f s) = nextpid s"
  "curcpu (upd_proc i f s) = curcpu s" "cpus (upd_proc i f s) = cpus s"
  by (simp_all add: upd_proc_def)

text \<open>Creation.\<close>

lemma allocproc_stack_life:
  assumes "allocproc_stack i s = Ok r t" "table_ok s" "i < NPROC"
  shows "table_ok t"
    "r = None \<and> life_of t = (life_of s)\<lparr>st := (st (life_of s))(i := UNUSED)\<rparr> \<or>
     r = Some i \<and> life_of t = life_of s"
proof -
  from assms(1) obtain k u where "kalloc s = Ok k u"
    and *: "kbind (kmod (upd_proc i (\<lambda>p. p\<lparr>kstack := k\<rparr>))) (\<lambda>_.
        if k = 0 then kseq [kmod (upd_proc i (\<lambda>p. p\<lparr>state := UNUSED\<rparr>))] (kret None)
        else
          let sp1 = k + KSTACKSIZE - sizeof_trapframe; sp2 = sp1 - 4; sp3 = sp2 - sizeof_context in
          kseq
            [kmod (upd_proc i (\<lambda>p. p\<lparr>tf := sp1\<rparr>)),
             kmod (\<lambda>s. s\<lparr>mem := store32 (mem s) sp2 (trapret_addr s)\<rparr>),
             kmod (upd_proc i (\<lambda>p. p\<lparr>pcontext := sp3\<rparr>)),
             kmod (\<lambda>s. s\<lparr>mem := memset (mem s) sp3 0 sizeof_context\<rparr>),
             kmod (\<lambda>s. s\<lparr>mem := store32 (mem s) (sp3 + context_eip) (forkret_addr s)\<rparr>)]
            (kret (Some i))) u = Ok r t"
    unfolding allocproc_stack_def kbind_eq_Ok_iff by blast
  from pviewD [OF keepsD [OF keeps_kalloc this(1)]] assms(2)
  have u: "table_ok u" "life_of u = life_of s" by simp_all
  from * u assms(3) show "table_ok t"
    by (auto simp: kbind_apply Let_def split: if_splits)
  from * u assms(3) show "r = None \<and> life_of t = (life_of s)\<lparr>st := (st (life_of s))(i := UNUSED)\<rparr> \<or>
     r = Some i \<and> life_of t = life_of s"
    by (auto simp: kbind_apply Let_def split: if_splits)
qed

lemma pview_acquire: "acquire l s = Ok r t \<Longrightarrow> pview t = pview s"
  by (rule keepsD [OF keeps_acquire])

lemma pview_release: "release l s = Ok r t \<Longrightarrow> pview t = pview s"
  by (rule keepsD [OF keeps_release])

lemma allocproc_life:
  assumes "allocproc s = Ok r t" "table_ok s"
  shows "table_ok t \<and>
    (r = None \<and> life_of t = life_of s \<or>
     (\<exists>i < NPROC. st (life_of s) i = UNUSED \<and>
        (r = None \<and> life_of t = (life_of s)\<lparr>pd := (pd (life_of s))(i := nextpid s), nxt := nextpid s + 1\<rparr> \<or>
         r = Some i \<and> life_of t = (life_of s)\<lparr>st := (st (life_of s))(i := EMBRYO),
           pd := (pd (life_of s))(i := nextpid s), nxt := nextpid s + 1\<rparr>)))"
proof -
  from assms(1) obtain u where u: "acquire PtableLock s = Ok () u"
    and rest: "(case find_index (\<lambda>p. state p = UNUSED) (ptable u) of
       None \<Rightarrow> kseq [release PtableLock] (kret None)
     | Some i \<Rightarrow> kseq
         [kmod (upd_proc i (\<lambda>p. p\<lparr>state := EMBRYO\<rparr>)),
          kmod (\<lambda>s. upd_proc i (\<lambda>p. p\<lparr>pid := nextpid s\<rparr>) s),
          kmod (\<lambda>s. s\<lparr>nextpid := nextpid s + 1\<rparr>),
          release PtableLock]
         (allocproc_stack i)) u = Ok r t"
    unfolding allocproc_def kbind_eq_Ok_iff by auto
  note pu = pviewD [OF pview_acquire [OF u]]
  show ?thesis
  proof (cases "find_index (\<lambda>p. state p = UNUSED) (ptable u)")
    case None
    with rest have "release PtableLock u = Ok () t" "r = None" by (auto simp: kbind_eq_Ok_iff)
    with pviewD [OF pview_release] pu assms(2) show ?thesis by fastforce
  next
    case (Some i)
    then have i: "i < NPROC" "state (ptable s ! i) = UNUSED"
      using find_index_SomeD [OF Some] pu assms(2) by auto
    let ?u = "(upd_proc i (\<lambda>p. p\<lparr>pid := nextpid u\<rparr>) (upd_proc i (\<lambda>p. p\<lparr>state := EMBRYO\<rparr>) u))
                \<lparr>nextpid := nextpid u + 1\<rparr>"
    from rest Some obtain w where w: "release PtableLock ?u = Ok () w" "allocproc_stack i w = Ok r t"
      by (auto simp: kbind_eq_Ok_iff)
    have tw: "table_ok w" and lw: "life_of w = (life_of s)\<lparr>st := (st (life_of s))(i := EMBRYO),
           pd := (pd (life_of s))(i := nextpid s), nxt := nextpid s + 1\<rparr>"
      using pviewD [OF pview_release [OF w(1)]] pu assms(2) i by simp_all
    have undo: "(st (life_of s))(i := UNUSED) = st (life_of s)"
      using i by (simp add: life_sel fun_upd_idem)
    from allocproc_stack_life [OF w(2) tw i(1)] i undo show ?thesis
      by (auto simp: lw life_sel)
  qed
qed

text \<open>A critical section with one change of the table in it.\<close>

lemma section_life:
  assumes "kseq [acquire PtableLock, kmod f, release PtableLock] (kret a) s = Ok r t"
  obtains u where "pview u = pview s" "r = a" "pview t = pview (f u)"
proof -
  from assms obtain u where "acquire PtableLock s = Ok () u" "release PtableLock (f u) = Ok () t" "r = a"
    by (auto simp: kbind_eq_Ok_iff)
  then show thesis using that pview_acquire pview_release by blast
qed

lemma wake_life:
  assumes "table_ok s"
  shows "life_of (s\<lparr>ptable := map (wake ch) (ptable s)\<rparr>) = (life_of s)\<lparr>st := (\<lambda>i.
      if st (life_of s) i = SLEEPING \<and> slp (life_of s) i = Some ch then RUNNABLE else st (life_of s) i)\<rparr>"
  using assms by (auto simp: life_of_def wake_def fun_eq_iff)

lemma wakeup_life:
  fixes s t :: "'z procs_scheme"
  assumes "wakeup ch s = Ok r t" "table_ok s"
  shows "table_ok t \<and> life_step (life_of s) (life_of t)"
proof -
  from assms(1) obtain u :: "'z procs_scheme" where u: "pview u = pview s"
    "pview t = pview (u\<lparr>ptable := map (wake ch) (ptable u)\<rparr>)"
    unfolding wakeup_def wakeup1_def by (rule section_life) blast
  show ?thesis
    using life_step.awaken [of "life_of s" ch] assms(2) pviewD [OF u(1)] pviewD [OF u(2)]
      wake_life [of u ch] by (simp cong: if_cong)
qed

lemma kill_scan_cases:
  assumes "kill_scan q ps = (qs, r)"
  shows "qs = ps \<and> r = - 1 \<and> (\<forall>p \<in> set ps. pid p \<noteq> q) \<or>
    (\<exists>i < length ps. pid (ps ! i) = q \<and> (\<forall>j < i. pid (ps ! j) \<noteq> q) \<and> r = 0 \<and>
       qs = ps[i := (ps ! i)\<lparr>killed := 1,
         state := if state (ps ! i) = SLEEPING then RUNNABLE else state (ps ! i)\<rparr>])"
  using assms
proof (induction ps arbitrary: qs)
  case (Cons p ps)
  show ?case
  proof (cases "pid p = q")
    case True
    with Cons.prems show ?thesis by (intro disjI2 exI [of _ 0]) (auto simp: Let_def)
  next
    case False
    then obtain qs' where qs': "kill_scan q ps = (qs', r)" "qs = p # qs'"
      using Cons.prems by (auto split: prod.splits)
    from Cons.IH [OF qs'(1)] show ?thesis
    proof
      assume "\<exists>i < length ps. pid (ps ! i) = q \<and> (\<forall>j < i. pid (ps ! j) \<noteq> q) \<and> r = 0 \<and>
       qs' = ps[i := (ps ! i)\<lparr>killed := 1,
         state := if state (ps ! i) = SLEEPING then RUNNABLE else state (ps ! i)\<rparr>]"
      then obtain i where "i < length ps" "pid (ps ! i) = q" "\<forall>j < i. pid (ps ! j) \<noteq> q" "r = 0"
       "qs' = ps[i := (ps ! i)\<lparr>killed := 1,
         state := if state (ps ! i) = SLEEPING then RUNNABLE else state (ps ! i)\<rparr>]" by blast
      with False qs'(2) show ?thesis
        by (intro disjI2 exI [of _ "Suc i"]) (auto simp: less_Suc_eq_0_disj)
    qed (use False qs' in auto)
  qed
qed simp

lemma kill_life:
  assumes "kill q s = Ok r t" "table_ok s"
  shows "table_ok t \<and> (life_of t = life_of s \<or> life_step (life_of s) (life_of t))"
proof -
  from assms(1) obtain u where u: "acquire PtableLock s = Ok () u"
    "release PtableLock (u\<lparr>ptable := fst (kill_scan q (ptable u))\<rparr>) = Ok () t"
    by (auto simp: kill_def kbind_eq_Ok_iff case_prod_beta)
  note pu = pviewD [OF pview_acquire [OF u(1)]]
  note pt = pviewD [OF pview_release [OF u(2)]]
  obtain qs r' where scan: "kill_scan q (ptable u) = (qs, r')" by fastforce
  from kill_scan_cases [OF scan] show ?thesis
  proof
    assume "qs = ptable u \<and> r' = - 1 \<and> (\<forall>p \<in> set (ptable u). pid p \<noteq> q)"
    then have "u\<lparr>ptable := fst (kill_scan q (ptable u))\<rparr> = u" using scan by simp
    with pt have "life_of t = life_of u" "ptable t = ptable u" by simp_all
    with pu assms(2) show ?thesis by simp
  next
    assume "\<exists>i < length (ptable u). pid (ptable u ! i) = q \<and> (\<forall>j < i. pid (ptable u ! j) \<noteq> q) \<and> r' = 0 \<and>
       qs = (ptable u)[i := (ptable u ! i)\<lparr>killed := 1,
         state := if state (ptable u ! i) = SLEEPING then RUNNABLE else state (ptable u ! i)\<rparr>]"
    then obtain i where "i < length (ptable u)" and q: "qs = (ptable u)[i := (ptable u ! i)\<lparr>killed := 1,
         state := if state (ptable u ! i) = SLEEPING then RUNNABLE else state (ptable u ! i)\<rparr>]"
      by blast
    then have i: "i < NPROC" and len: "length qs = NPROC" using pu assms(2) by simp_all
    define x where x: "x = (if state (ptable u ! i) = SLEEPING then RUNNABLE else state (ptable u ! i))"
    have "u\<lparr>ptable := qs\<rparr> = upd_proc i (\<lambda>p. p\<lparr>state := x\<rparr>) (upd_proc i (\<lambda>p. p\<lparr>killed := 1\<rparr>) u)"
      using i pu assms(2) by (simp add: q x upd_proc_def)
    with i len x have t: "table_ok t" "life_of t = (life_of s)\<lparr>st := (st (life_of s))(i :=
        if st (life_of s) i = SLEEPING then RUNNABLE else st (life_of s) i)\<rparr>"
      using pt pu scan assms(2) by (simp_all add: life_sel cong: if_cong)
    show ?thesis
    proof (cases "st (life_of s) i = SLEEPING")
      case True
      with t life_step.kick [OF i True] show ?thesis by simp
    next
      case False
      with t show ?thesis by simp
    qed
  qed
qed

text \<open>Giving up the CPU: the scheduler takes the thread off its CPU and releases the lock.\<close>

definition give_up :: "('z procs_scheme, unit) kern \<Rightarrow> ('z procs_scheme, unit) kern" where
  "give_up m = kseq [m, sched (\<lambda>s. s), set_proc None, release PtableLock] (kret ())"

lemma keeps_sched: "keeps pview (sched (\<lambda>s. s))"
  by (auto simp: sched_def intro!: keeps_kbind keeps_mod)

lemma give_up_life:
  assumes "give_up m s = Ok r t"
  obtains u where "m s = Ok () u" "length (ptable t) = length (ptable u)"
    "life_of t = (life_of u)\<lparr>run := (run (life_of u))(curcpu u := None)\<rparr>"
proof -
  from assms obtain u v where u: "m s = Ok () u" "sched (\<lambda>s. s) u = Ok () v"
    "release PtableLock (upd_mycpu (\<lambda>d. d\<lparr>cproc := None\<rparr>) v) = Ok () t"
    by (auto simp: give_up_def set_proc_def kbind_eq_Ok_iff)
  note pv = pviewD [OF keepsD [OF keeps_sched u(2)]]
  note pt = pviewD [OF pview_release [OF u(3)]]
  from u(1) pv pt show thesis by (intro that) simp_all
qed

lemma upd_me_eq: "cproc (mycpu s) = Some i \<Longrightarrow> upd_me f s = upd_proc i f s"
  by (simp add: upd_me_def me_def)

lemma yield_life:
  assumes "give_up yield_enter s = Ok r t" "table_ok s" "cproc (mycpu s) = Some i" "i < NPROC"
  shows "table_ok t \<and> life_step (life_of s) (life_of t)"
proof -
  from assms(1) obtain u where u: "yield_enter s = Ok () u" and tu: "length (ptable t) = length (ptable u)"
    and t: "life_of t = (life_of u)\<lparr>run := (run (life_of u))(curcpu u := None)\<rparr>"
    by (rule give_up_life)
  from u obtain v where v: "acquire PtableLock s = Ok () v" "u = upd_me (\<lambda>p. p\<lparr>state := RUNNABLE\<rparr>) v"
    by (auto simp: yield_enter_def kbind_eq_Ok_iff)
  note pv = pviewD [OF pview_acquire [OF v(1)]]
  have "run (life_of s) (curcpu s) = Some i" using assms(3) by (simp add: life_sel)
  from life_step.yields [OF this] t tu v(2) pv assms show ?thesis by (simp add: upd_me_eq)
qed

lemma sleep_enter_life:
  assumes "sleep_enter ch lk s = Ok r t" "table_ok s" "cproc (mycpu s) = Some i" "i < NPROC"
  shows "table_ok t" "curcpu t = curcpu s"
    "life_of t = (life_of s)\<lparr>st := (st (life_of s))(i := SLEEPING), slp := (slp (life_of s))(i := Some ch)\<rparr>"
proof -
  have k: "keeps pview (kif (\<lambda>s. lk \<noteq> PtableLock) (kseq [acquire PtableLock, release lk] (kret ())))"
    by (auto intro!: keeps_kif keeps_kbind)
  from assms(1) obtain v
    where v: "kif (\<lambda>s. lk \<noteq> PtableLock) (kseq [acquire PtableLock, release lk] (kret ())) s = Ok () v"
    and t: "t = upd_me (\<lambda>p. p\<lparr>state := SLEEPING\<rparr>) (upd_me (\<lambda>p. p\<lparr>chan := Some ch\<rparr>) v)"
    unfolding sleep_enter_def kseq.simps kbind_eq_Ok_iff by (auto split: if_splits)
  have pv: "pview v = pview s" by (rule keepsD [OF k v])
  show "table_ok t" "curcpu t = curcpu s"
    "life_of t = (life_of s)\<lparr>st := (st (life_of s))(i := SLEEPING), slp := (slp (life_of s))(i := Some ch)\<rparr>"
    using t pviewD [OF pv] assms by (simp_all add: upd_me_eq)
qed

lemma sleep_life:
  assumes "give_up (sleep_enter ch lk) s = Ok r t" "table_ok s" "cproc (mycpu s) = Some i" "i < NPROC"
  shows "table_ok t \<and> life_of t = (life_of s)\<lparr>st := (st (life_of s))(i := SLEEPING),
    slp := (slp (life_of s))(i := Some ch), run := (run (life_of s))(curcpu s := None)\<rparr>"
proof -
  from assms(1) obtain u where u: "sleep_enter ch lk s = Ok () u" and tu: "length (ptable t) = length (ptable u)"
    and t: "life_of t = (life_of u)\<lparr>run := (run (life_of u))(curcpu u := None)\<rparr>"
    by (rule give_up_life)
  from sleep_enter_life [OF u assms(2-)] t tu show ?thesis by simp
qed

text \<open>The scan of \<open>wait\<close> finds a zombie child when there is one, and says whether there is a child.\<close>

lemma wait_scan_Some:
  "wait_scan self ps i h = (Some j, h') \<Longrightarrow>
     i \<le> j \<and> j < i + length ps \<and> parent (ps ! (j - i)) = Some self \<and> state (ps ! (j - i)) = ZOMBIE"
proof (induction ps arbitrary: i h)
  case (Cons p ps)
  show ?case
  proof (cases "parent p = Some self \<and> state p = ZOMBIE")
    case True
    with Cons.prems show ?thesis by auto
  next
    case False
    with Cons.prems obtain h1 where "wait_scan self ps (Suc i) h1 = (Some j, h')"
      by (auto split: if_splits)
    from Cons.IH [OF this] show ?thesis by (auto simp: nth_Cons split: nat.splits) (metis diff_Suc_Suc Suc_diff_Suc Suc_le_lessD diff_Suc_1')+
  qed
qed simp

lemma wait_scan_None:
  "wait_scan self ps i h = (None, h') \<Longrightarrow>
     (\<forall>p \<in> set ps. parent p = Some self \<longrightarrow> state p \<noteq> ZOMBIE) \<and>
     h' = (h \<or> (\<exists>p \<in> set ps. parent p = Some self))"
  by (induction ps arbitrary: i h) (auto split: if_splits)

text \<open>\<open>exit\<close> hands its children to \<open>initproc\<close>: the table after the first \<open>n\<close> slots are scanned.\<close>

lemma abandon_nth:
  assumes "j < length U" "n < length U"
  shows "length (abandon self init U n) = length U"
    "parent (abandon self init U n ! j) = (if j = n \<and> parent (U ! n) = Some self then init else parent (U ! j))"
    "pid (abandon self init U n ! j) = pid (U ! j)"
    "chan (abandon self init U n ! j) = chan (U ! j)"
    "state (abandon self init U n ! j) =
       (if parent (U ! n) = Some self \<and> state (U ! n) = ZOMBIE \<and> state (U ! j) = SLEEPING \<and>
           (\<exists>k. init = Some k \<and> chan (U ! j) = Some (Ch_proc k))
        then RUNNABLE else state (U ! j))"
  using assms by (auto simp: abandon_def Let_def wake_def nth_list_update split: option.splits)

lemma wake_twice:
  "(if D \<and> E \<and> (if x = SLEEPING \<and> B \<and> C then RUNNABLE else x) = SLEEPING \<and> B then RUNNABLE
    else if x = SLEEPING \<and> B \<and> C then RUNNABLE else x) =
   (if x = SLEEPING \<and> B \<and> (D \<and> E \<or> C) then RUNNABLE else x)"
  by auto

lemma abandon_scan:
  fixes tab :: "proc list" and self :: nat and init :: "nat option"
  assumes "n \<le> length tab"
  defines "T \<equiv> foldl (abandon self init) tab [0..<n]"
  shows "length T = length tab \<and> (\<forall>j < length tab.
     parent (T ! j) = (if j < n \<and> parent (tab ! j) = Some self then init else parent (tab ! j)) \<and>
     pid (T ! j) = pid (tab ! j) \<and> chan (T ! j) = chan (tab ! j) \<and>
     state (T ! j) = (if state (tab ! j) = SLEEPING \<and>
         (\<exists>k. init = Some k \<and> chan (tab ! j) = Some (Ch_proc k)) \<and>
            (\<exists>m < n. parent (tab ! m) = Some self \<and> state (tab ! m) = ZOMBIE)
       then RUNNABLE else state (tab ! j)))"
  using assms(1) unfolding T_def
proof (induction n)
  case (Suc n)
  define U where "U = foldl (abandon self init) tab [0..<n]"
  have len: "length U = length tab"
    and par: "j < length tab \<Longrightarrow>
      parent (U ! j) = (if j < n \<and> parent (tab ! j) = Some self then init else parent (tab ! j))"
    and same: "j < length tab \<Longrightarrow> pid (U ! j) = pid (tab ! j)"
      "j < length tab \<Longrightarrow> chan (U ! j) = chan (tab ! j)"
    and st: "j < length tab \<Longrightarrow> state (U ! j) = (if state (tab ! j) = SLEEPING \<and>
         (\<exists>k. init = Some k \<and> chan (tab ! j) = Some (Ch_proc k)) \<and>
            (\<exists>m < n. parent (tab ! m) = Some self \<and> state (tab ! m) = ZOMBIE)
       then RUNNABLE else state (tab ! j))" for j
    using Suc U_def by auto
  have step: "foldl (abandon self init) tab [0..<Suc n] = abandon self init U n"
    by (simp add: U_def)
  have n: "parent (U ! n) = parent (tab ! n)" "state (U ! n) = ZOMBIE \<longleftrightarrow> state (tab ! n) = ZOMBIE"
    using Suc.prems par [of n] st [of n] by auto
  have nU: "n < length U" using Suc.prems len by simp
  show ?case
    unfolding step
  proof (intro conjI allI impI, goal_cases)
    case 1
    show ?case using abandon_nth(1) [OF nU nU] len by simp
  next
    case (2 j)
    then show ?case using abandon_nth(2) [of j U n] nU len par [of j] n(1) by (simp add: less_Suc_eq) blast
  next
    case (3 j)
    then show ?case using abandon_nth(3) [of j U n] nU len same by simp
  next
    case (4 j)
    then show ?case using abandon_nth(4) [of j U n] nU len same by simp
  next
    case (5 j)
    have jU: "j < length U" using 5 len by simp
    have "state (abandon self init U n ! j) =
       (if parent (tab ! n) = Some self \<and> state (tab ! n) = ZOMBIE \<and> state (U ! j) = SLEEPING \<and>
           (\<exists>k. init = Some k \<and> chan (tab ! j) = Some (Ch_proc k))
        then RUNNABLE else state (U ! j))"
      unfolding abandon_nth(5) [OF jU nU] same(2) [OF 5] n ..
    also have "\<dots> = (if state (tab ! j) = SLEEPING \<and>
         (\<exists>k. init = Some k \<and> chan (tab ! j) = Some (Ch_proc k)) \<and>
            (\<exists>m < Suc n. parent (tab ! m) = Some self \<and> state (tab ! m) = ZOMBIE)
       then RUNNABLE else state (tab ! j))"
      unfolding st [OF 5] Ex_less_Suc by (rule wake_twice)
    finally show ?case .
  qed
qed simp

text \<open>The table that \<open>exit\<close> of process \<open>i\<close> leaves, before the process becomes a zombie itself.\<close>

definition exit_table :: "nat \<Rightarrow> nat option \<Rightarrow> proc list \<Rightarrow> proc list" where
  "exit_table i init tab =
     (let tab1 = (case parent (tab ! i) of Some q \<Rightarrow> map (wake (Ch_proc q)) tab | None \<Rightarrow> tab)
      in foldl (abandon i init) tab1 [0..<length tab1])"

lemma wake_again:
  "(if (if x = SLEEPING \<and> A then RUNNABLE else x) = SLEEPING \<and> B \<and> C then RUNNABLE
    else if x = SLEEPING \<and> A then RUNNABLE else x) =
   (if x = SLEEPING \<and> (A \<or> B \<and> C) then RUNNABLE else x)"
  by auto

lemma exit_table_nth:
  fixes i :: nat and init :: "nat option"
  assumes "length tab = NPROC" "j < NPROC"
  defines "T \<equiv> exit_table i init tab"
  shows "length T = NPROC"
    "parent (T ! j) = (if parent (tab ! j) = Some i then init else parent (tab ! j))"
    "pid (T ! j) = pid (tab ! j)" "chan (T ! j) = chan (tab ! j)"
    "state (T ! j) = (if state (tab ! j) = SLEEPING \<and>
        ((\<exists>q. parent (tab ! i) = Some q \<and> chan (tab ! j) = Some (Ch_proc q)) \<or>
         (\<exists>k. init = Some k \<and> chan (tab ! j) = Some (Ch_proc k)) \<and>
         (\<exists>m < NPROC. parent (tab ! m) = Some i \<and> state (tab ! m) = ZOMBIE))
      then RUNNABLE else state (tab ! j))"
proof -
  define W where "W = (case parent (tab ! i) of Some q \<Rightarrow> map (wake (Ch_proc q)) tab | None \<Rightarrow> tab)"
  have T: "T = foldl (abandon i init) W [0..<length W]" by (simp add: T_def exit_table_def W_def Let_def)
  have len: "length W = NPROC" using assms(1) by (simp add: W_def split: option.split)
  have W: "parent (W ! m) = parent (tab ! m)" "pid (W ! m) = pid (tab ! m)" "chan (W ! m) = chan (tab ! m)"
    "state (W ! m) = ZOMBIE \<longleftrightarrow> state (tab ! m) = ZOMBIE"
    "state (W ! m) = (if state (tab ! m) = SLEEPING \<and>
        (\<exists>q. parent (tab ! i) = Some q \<and> chan (tab ! m) = Some (Ch_proc q))
       then RUNNABLE else state (tab ! m))" if "m < NPROC" for m
    using that assms(1) by (auto simp: W_def wake_def split: option.split)
  note scan = abandon_scan [of "length W" W i init, folded T, simplified len, simplified]
  show "length T = NPROC" "parent (T ! j) = (if parent (tab ! j) = Some i then init else parent (tab ! j))"
    "pid (T ! j) = pid (tab ! j)" "chan (T ! j) = chan (tab ! j)"
    using scan W assms(2) by simp_all
  have "state (T ! j) = (if state (W ! j) = SLEEPING \<and>
         (\<exists>k. init = Some k \<and> chan (tab ! j) = Some (Ch_proc k)) \<and>
         (\<exists>m < NPROC. parent (tab ! m) = Some i \<and> state (tab ! m) = ZOMBIE)
      then RUNNABLE else state (W ! j))"
    using scan W(1,3,4) assms(2) by (simp cong: conj_cong)
  then show "state (T ! j) = (if state (tab ! j) = SLEEPING \<and>
        ((\<exists>q. parent (tab ! i) = Some q \<and> chan (tab ! j) = Some (Ch_proc q)) \<or>
         (\<exists>k. init = Some k \<and> chan (tab ! j) = Some (Ch_proc k)) \<and>
         (\<exists>m < NPROC. parent (tab ! m) = Some i \<and> state (tab ! m) = ZOMBIE))
      then RUNNABLE else state (tab ! j))"
    unfolding W(5) [OF assms(2)] wake_again .
qed

lemma exit_enter_Ok:
  assumes "exit_enter status s = Ok r t" "cproc (mycpu s) = Some i"
  obtains u where "acquire PtableLock s = Ok () u"
    "t = upd_proc i (\<lambda>p. p\<lparr>state := ZOMBIE\<rparr>) (upd_proc i (\<lambda>p. p\<lparr>exitstat := status\<rparr>)
       (u\<lparr>ptable := exit_table i (initproc u) (ptable u)\<rparr>))"
proof -
  from assms(1) obtain u where u: "acquire PtableLock s = Ok () u"
    and rest: "kseq [(\<lambda>s. case parent (curproc s) of Some q \<Rightarrow> wakeup1 (Ch_proc q) s | None \<Rightarrow> Ok () s),
      kmod (\<lambda>s. s\<lparr>ptable := foldl (abandon (me s) (initproc s)) (ptable s) [0..<length (ptable s)]\<rparr>),
      kmod (upd_me (\<lambda>p. p\<lparr>exitstat := status\<rparr>)),
      kmod (upd_me (\<lambda>p. p\<lparr>state := ZOMBIE\<rparr>))] (kret ()) u = Ok r t"
    unfolding exit_enter_def kseq.simps(2) [of "acquire PtableLock"] kbind_eq_Ok_iff by auto
  have c: "cproc (mycpu u) = Some i" using pviewD(8) [OF pview_acquire [OF u]] assms(2) by simp
  from rest c have "t = upd_proc i (\<lambda>p. p\<lparr>state := ZOMBIE\<rparr>) (upd_proc i (\<lambda>p. p\<lparr>exitstat := status\<rparr>)
       (u\<lparr>ptable := exit_table i (initproc u) (ptable u)\<rparr>))"
    by (auto simp: kbind_apply wakeup1_def upd_me_def me_def curproc_def exit_table_def Let_def
        split: option.splits)
  with u that show thesis by blast
qed

lemma life_out: "\<not> j < NPROC \<Longrightarrow> st (life_of s) j = UNUSED \<and> par (life_of s) j = None \<and>
    pd (life_of s) j = 0 \<and> slp (life_of s) j = None"
  by (simp add: life_of_def)

lemma woken_iff:
  assumes "i < NPROC" "j < NPROC"
  shows "woken (life_of s) i j \<longleftrightarrow> state (ptable s ! j) = SLEEPING \<and>
        ((\<exists>q. parent (ptable s ! i) = Some q \<and> chan (ptable s ! j) = Some (Ch_proc q)) \<or>
         (\<exists>k. initproc s = Some k \<and> chan (ptable s ! j) = Some (Ch_proc k)) \<and>
         (\<exists>m < NPROC. parent (ptable s ! m) = Some i \<and> state (ptable s ! m) = ZOMBIE))"
  using assms by (simp add: woken_def life_sel cong: conj_cong) blast

lemma woken_out: "\<not> j < NPROC \<Longrightarrow> \<not> woken (life_of s) i j"
  by (simp add: woken_def life_of_def)

lemma exit_life:
  assumes "give_up (exit_enter status) s = Ok r t" "table_ok s" "cproc (mycpu s) = Some i" "i < NPROC"
  shows "table_ok t \<and> life_of t = exited (life_of s) (curcpu s) i"
proof -
  from assms(1) obtain u where u: "exit_enter status s = Ok () u" and tu: "length (ptable t) = length (ptable u)"
    and t: "life_of t = (life_of u)\<lparr>run := (run (life_of u))(curcpu u := None)\<rparr>"
    by (rule give_up_life)
  from u assms(3) obtain v where v: "acquire PtableLock s = Ok () v"
    "u = upd_proc i (\<lambda>p. p\<lparr>state := ZOMBIE\<rparr>) (upd_proc i (\<lambda>p. p\<lparr>exitstat := status\<rparr>)
       (v\<lparr>ptable := exit_table i (initproc v) (ptable v)\<rparr>))"
    by (rule exit_enter_Ok)
  note pv = pviewD [OF pview_acquire [OF v(1)]]
  define T where "T = exit_table i (initproc s) (ptable s)"
  note nth = exit_table_nth [OF assms(2), of _ i "initproc s", folded T_def]
  have len: "length T = NPROC" by (rule nth(1) [OF assms(4)])
  have "life_of (v\<lparr>ptable := T\<rparr>) = (life_of s)
    \<lparr>st := (\<lambda>j. if woken (life_of s) i j then RUNNABLE else st (life_of s) j),
     par := (\<lambda>j. if j < NPROC \<and> par (life_of s) j = Some i then ini (life_of s) else par (life_of s) j)\<rparr>"
    (is "_ = ?w")
  proof -
    have "st (life_of (v\<lparr>ptable := T\<rparr>)) j = st ?w j" for j
    proof (cases "j < NPROC")
      case True
      have "st (life_of (v\<lparr>ptable := T\<rparr>)) j = state (T ! j)" using True by (simp add: life_sel)
      also have "\<dots> = (if woken (life_of s) i j then RUNNABLE else st (life_of s) j)"
        unfolding nth(5) [OF True] woken_iff [OF assms(4) True] life_sel(1) [OF True] ..
      finally show ?thesis by simp
    qed (simp add: life_out woken_out)
    moreover have "par (life_of (v\<lparr>ptable := T\<rparr>)) j = par ?w j"
      "pd (life_of (v\<lparr>ptable := T\<rparr>)) j = pd ?w j" "slp (life_of (v\<lparr>ptable := T\<rparr>)) j = slp ?w j" for j
      using nth(2,3,4) [of j] by (cases "j < NPROC"; simp add: life_sel life_out)+
    ultimately show ?thesis
      using pview_cproc [OF pview_acquire [OF v(1)]] pv by (intro life.equality) (auto simp: life_sel)
  qed
  with t tu v(2) len pv assms(4) show ?thesis
    by (simp add: T_def exited_def fun_eq_iff)
qed

lemma reap_life:
  assumes "reap i s = Ok r t" "table_ok s" "i < NPROC"
  shows "table_ok t \<and> r = pid (ptable s ! i) \<and>
    life_of t = (life_of s)\<lparr>st := (st (life_of s))(i := UNUSED), pd := (pd (life_of s))(i := 0),
      par := (par (life_of s))(i := None)\<rparr>"
proof -
  let ?k = "\<lambda>u. upd_proc i (\<lambda>p. p\<lparr>kstack := 0\<rparr>) u"
  let ?f = "\<lambda>u. upd_proc i (\<lambda>p. p\<lparr>state := UNUSED\<rparr>) (upd_proc i (\<lambda>p. p\<lparr>killed := 0\<rparr>)
    (upd_proc i (\<lambda>p. p\<lparr>pname := []\<rparr>) (upd_proc i (\<lambda>p. p\<lparr>parent := None\<rparr>)
    (upd_proc i (\<lambda>p. p\<lparr>pid := 0\<rparr>) u))))"
  from assms(1) obtain u v where u: "kfree (kstack (ptable s ! i)) s = Ok () u"
    and v: "freevm (pgdir (ptable (?k u) ! i)) (?k u) = Ok () v"
    and t: "release PtableLock (?f v) = Ok () t" and r: "r = pid (ptable s ! i)"
    by (auto simp: reap_def kbind_eq_Ok_iff simp del: upd_proc_simps)
  from pviewD [OF keepsD [OF keeps_kfree u]] pviewD [OF keepsD [OF keeps_freevm v]]
    pviewD [OF pview_release [OF t]] r assms(2,3)
  show ?thesis by simp
qed

lemma dispatch_life:
  assumes "kseq [acquire PtableLock, dispatch i, release PtableLock] (kret ()) s = Ok r t"
    "table_ok s" "i < NPROC"
  shows "table_ok t \<and> life_of t = (life_of s)\<lparr>st := (st (life_of s))(i := RUNNING),
    run := (run (life_of s))(curcpu s := Some i)\<rparr>"
proof -
  from assms(1) obtain u v where u: "acquire PtableLock s = Ok () u"
    and v: "switchuvm_proc i (upd_mycpu (\<lambda>c. c\<lparr>cproc := Some i\<rparr>) u) = Ok () v"
    and t: "release PtableLock (upd_proc i (\<lambda>p. p\<lparr>state := RUNNING\<rparr>) v) = Ok () t"
    by (auto simp: dispatch_def set_proc_def kbind_eq_Ok_iff)
  from pviewD [OF pview_acquire [OF u]] pviewD [OF keepsD [OF keeps_switchuvm_proc v]]
    pviewD [OF pview_release [OF t]] assms(2,3)
  show ?thesis by simp
qed

section \<open>The process system\<close>

text \<open>
  The critical sections of \<open>proc.c\<close>, in any order and on any CPU. \<open>fork\<close> contributes the
  allocation of the child, the assignment of its parent, its publication as \<open>RUNNABLE\<close>, and its
  abandonment when memory runs out; \<open>userinit\<close> the choice of \<open>initproc\<close>. Only \<open>wait\<close> sleeps on a
  process.
\<close>

inductive proc_step :: "'z procs_scheme \<Rightarrow> 'z procs_scheme \<Rightarrow> bool" where
  on_cpu: "proc_step s (s\<lparr>curcpu := c\<rparr>)"
| alloc: "allocproc s = Ok r t \<Longrightarrow> proc_step s t"
| userinit: "initproc s = None \<Longrightarrow> allocproc s = Ok (Some i) t \<Longrightarrow> proc_step s (t\<lparr>initproc := Some i\<rparr>)"
| fork_parent: "i < NPROC \<Longrightarrow> state (ptable s ! i) = EMBRYO \<Longrightarrow> initproc s \<noteq> Some i \<Longrightarrow>
    cproc (mycpu s) = Some q \<Longrightarrow> proc_step s (upd_proc i (\<lambda>p. p\<lparr>parent := Some q\<rparr>) s)"
| fork_abort: "i < NPROC \<Longrightarrow> state (ptable s ! i) = EMBRYO \<Longrightarrow> parent (ptable s ! i) = None \<Longrightarrow>
    initproc s \<noteq> Some i \<Longrightarrow> kfree (kstack (ptable s ! i)) s = Ok () t \<Longrightarrow>
    proc_step s (upd_proc i (\<lambda>p. p\<lparr>state := UNUSED\<rparr>) (upd_proc i (\<lambda>p. p\<lparr>kstack := 0\<rparr>) t))"
| publish: "i < NPROC \<Longrightarrow> state (ptable s ! i) = EMBRYO \<Longrightarrow>
    parent (ptable s ! i) \<noteq> None \<or> initproc s = Some i \<Longrightarrow>
    kseq [acquire PtableLock, kmod (upd_proc i (\<lambda>p. p\<lparr>state := RUNNABLE\<rparr>)), release PtableLock] (kret ()) s =
      Ok () t \<Longrightarrow> proc_step s t"
| wakeup: "wakeup ch s = Ok r t \<Longrightarrow> proc_step s t"
| kill: "kill q s = Ok r t \<Longrightarrow> proc_step s t"
| scheduler: "i < NPROC \<Longrightarrow> state (ptable s ! i) = RUNNABLE \<Longrightarrow> cproc (mycpu s) = None \<Longrightarrow>
    kseq [acquire PtableLock, dispatch i, release PtableLock] (kret ()) s = Ok () t \<Longrightarrow> proc_step s t"
| yield: "cproc (mycpu s) = Some i \<Longrightarrow> give_up yield_enter s = Ok () t \<Longrightarrow> proc_step s t"
| sleep: "cproc (mycpu s) = Some i \<Longrightarrow> \<forall>q. ch \<noteq> Ch_proc q \<Longrightarrow>
    give_up (sleep_enter ch lk) s = Ok () t \<Longrightarrow> proc_step s t"
| resume: "cproc (mycpu s) = Some i \<Longrightarrow> proc_step s (upd_proc i (\<lambda>p. p\<lparr>chan := None\<rparr>) s)"
| exit: "cproc (mycpu s) = Some i \<Longrightarrow> initproc s \<noteq> Some i \<Longrightarrow>
    give_up (exit_enter status) s = Ok () t \<Longrightarrow> proc_step s t"
| wait_sleep: "cproc (mycpu s) = Some i \<Longrightarrow> acquire PtableLock s = Ok () u \<Longrightarrow>
    wait_scan i (ptable u) 0 False = (None, True) \<Longrightarrow>
    give_up (sleep_enter (Ch_proc i) PtableLock) u = Ok () t \<Longrightarrow> proc_step s t"
| wait: "cproc (mycpu s) = Some i \<Longrightarrow> wait [] s = Ok r t \<Longrightarrow> proc_step s t"

lemma wait_life:
  assumes "wait [] s = Ok r t" "table_ok s" "cproc (mycpu s) = Some i"
  shows "table_ok t \<and> (r = - 1 \<and> life_of t = life_of s \<or>
    (\<exists>j < NPROC. parent (ptable s ! j) = Some i \<and> state (ptable s ! j) = ZOMBIE \<and> r = pid (ptable s ! j) \<and>
       life_of t = (life_of s)\<lparr>st := (st (life_of s))(j := UNUSED), pd := (pd (life_of s))(j := 0),
         par := (par (life_of s))(j := None)\<rparr>))"
proof -
  from assms(1) obtain u where u: "acquire PtableLock s = Ok () u" "wait_loop [] u = Ok r t"
    by (auto simp: wait_def kbind_eq_Ok_iff)
  note pu = pviewD [OF pview_acquire [OF u(1)]]
  have me: "me u = i" using pu assms(3) by (simp add: me_def)
  obtain z h where scan: "wait_scan i (ptable u) 0 False = (z, h)" by fastforce
  show ?thesis
  proof (cases z)
    case None
    with u(2) scan me have "release PtableLock u = Ok () t" "r = - 1"
      by (auto simp: kbind_apply sleep_forever_def split: if_splits kres.splits)
    with pu pviewD [OF pview_release] assms(2) show ?thesis by fastforce
  next
    case (Some j)
    with u(2) scan me have "reap j u = Ok r t" by (simp add: kbind_apply)
    moreover have "j < NPROC" "parent (ptable s ! j) = Some i" "state (ptable s ! j) = ZOMBIE"
      using wait_scan_Some [of i "ptable u" 0 False j h] scan Some pu assms(2) by simp_all
    ultimately show ?thesis using reap_life [of j u r t] pu assms(2) by auto
  qed
qed

lemma refinesI: "table_ok t \<Longrightarrow> life_step v w \<Longrightarrow> life_of t = w \<Longrightarrow> table_ok t \<and> life_step\<^sup>*\<^sup>* v (life_of t)"
  by auto

lemma running_lt: "life_inv (life_of s) \<Longrightarrow> cproc (mycpu s) = Some i \<Longrightarrow> i < NPROC"
  using run_okD(1) [of "life_of s" "curcpu s" i] by (simp add: life_inv_def life_sel)

lemma proc_step_life:
  fixes s t :: "'z procs_scheme"
  assumes "proc_step s t" "table_ok s" "life_inv (life_of s)"
  shows "table_ok t \<and> life_step\<^sup>*\<^sup>* (life_of s) (life_of t)"
  using assms
proof (induction rule: proc_step.induct)
  case (alloc s r t)
  from allocproc_life [OF alloc(1,2)] life_step.create [of _ "life_of s"]
    life_step.create_fail [of _ "life_of s"]
  show ?case by (auto simp: life_sel(6))
next
  case (userinit s i t)
  from allocproc_life [OF userinit(2,3)] have t: "table_ok t" and i: "i < NPROC" "st (life_of s) i = UNUSED"
    and l: "life_of t = (life_of s)\<lparr>st := (st (life_of s))(i := EMBRYO),
           pd := (pd (life_of s))(i := nextpid s), nxt := nextpid s + 1\<rparr>"
    by auto
  have "par (life_of s) i = None"
    using userinit(4) i parents_okD(1) by (simp add: life_inv_def)
  then have "life_step (life_of t) ((life_of t)\<lparr>ini := Some i\<rparr>)"
    using l i userinit(1) by (intro life_step.init) (simp_all add: life_sel)
  moreover have "life_step (life_of s) (life_of t)"
    using life_step.create [OF i] l by (simp add: life_sel(6))
  ultimately show ?case using t by simp
next
  case (fork_parent i s q)
  then show ?case
    by (intro refinesI [OF _ life_step.adopt [of i "life_of s" "curcpu s" q]]) (simp_all add: life_sel(1,5,7))
next
  case (fork_abort i s t)
  note pt = pviewD [OF keepsD [OF keeps_kfree fork_abort(5)]]
  with fork_abort(1-4,6,7) show ?case
    by (intro refinesI [OF _ life_step.abort [of i "life_of s"]]) (simp_all add: life_sel(1,3,5))
next
  case (publish i s t)
  from publish(4) obtain u :: "'z procs_scheme" where u: "pview u = pview s"
    "pview t = pview (upd_proc i (\<lambda>p. p\<lparr>state := RUNNABLE\<rparr>) u)" by (rule section_life) blast
  with publish(1-3,5) pviewD(1,5) [OF u(1)] pviewD(1,5) [OF u(2)] show ?case
    by (intro refinesI [OF _ life_step.publish [of i "life_of s"]]) (simp_all add: life_sel(1,3,5))
next
  case (wakeup ch s r t)
  with wakeup_life [OF wakeup(1,2)] show ?case by blast
next
  case (kill q s r t)
  with kill_life [OF kill(1,2)] show ?case by auto
next
  case (scheduler i s t)
  with dispatch_life [OF scheduler(4,5,1)] show ?case
    by (intro refinesI [OF _ life_step.dispatch [of i "life_of s" "curcpu s"]]) (simp_all add: life_sel(1,7))
next
  case (yield s i t)
  with yield_life [OF yield(2,3,1)] running_lt [OF yield(4,1)] show ?case by blast
next
  case (sleep s i ch lk t)
  with sleep_life [OF sleep(3,4,1)] running_lt [OF sleep(5,1)] show ?case
    by (intro refinesI [OF _ life_step.sleeps [of "life_of s" "curcpu s" i ch]]) (simp_all add: life_sel(7))
next
  case (resume s i)
  with running_lt [OF resume(3,1)] show ?case
    by (intro refinesI [OF _ life_step.resumes [of "life_of s" "curcpu s" i]]) (simp_all add: life_sel(7))
next
  case (exit s i status t)
  with exit_life [OF exit(3,4,1)] running_lt [OF exit(5,1)] show ?case
    by (intro refinesI [OF _ life_step.exits [of "life_of s" "curcpu s" i]]) (simp_all add: life_sel(5,7))
next
  case (wait_sleep s i u t)
  note pu = pviewD [OF pview_acquire [OF wait_sleep(2)]]
  note i = running_lt [OF wait_sleep(6,1)]
  have "\<forall>j < NPROC. par (life_of s) j = Some i \<longrightarrow> st (life_of s) j \<noteq> ZOMBIE"
    using wait_scan_None [OF wait_sleep(3)] pu(1) wait_sleep(5) by (auto simp: life_sel)
  with i sleep_life [OF wait_sleep(4) _ _ i] pu wait_sleep(1,5) show ?case
    by (intro refinesI [OF _ life_step.waits [of "life_of s" "curcpu s" i]]) (simp_all add: life_sel(7))
next
  case (wait s i r t)
  from wait_life [OF wait(2,3,1)] life_step.reaps [of _ "life_of s" i "curcpu s"] wait(1)
  show ?case by (auto simp: life_sel)
qed simp

section \<open>Allocation in detail\<close>

lemma lock_free_ctl:
  fixes s t :: "'z machine_scheme"
  shows "lock_ctl t = lock_ctl s \<Longrightarrow> lock_free l t = lock_free l s"
  by (rule spin.ctl_free)

lemma lock_held_ctl:
  fixes s t :: "'z machine_scheme"
  shows "lock_ctl t = lock_ctl s \<Longrightarrow> lock_held l t = lock_held l s"
  by (rule spin.ctl_held)

lemma lock_upd_proc [simp]:
  "lock_held l (upd_proc i f s) = lock_held l s" "lock_free l (upd_proc i f s) = lock_free l s"
  "lock_held l (s\<lparr>ptable := x\<rparr>) = lock_held l s" "lock_free l (s\<lparr>ptable := x\<rparr>) = lock_free l s"
  "lock_held l (s\<lparr>nextpid := k\<rparr>) = lock_held l s" "lock_free l (s\<lparr>nextpid := k\<rparr>) = lock_free l s"
  by (rule lock_held_ctl lock_free_ctl, simp add: lock_ctl_def upd_proc_def)+

lemma lock_free_other:
  "lock_free l s \<Longrightarrow> k \<noteq> l \<Longrightarrow> lock_free k (acquired l s) = lock_free k s"
  "lock_held l s \<Longrightarrow> k \<noteq> l \<Longrightarrow> lock_free k (released l s) = lock_free k s"
  using spin.acq_frame [OF _ acquire_lock_free] spin.rel_frame [OF _ release_lock_held] by blast+

lemma procs_acquired [simp]:
  "ptable (acquired l s) = ptable s" "nextpid (acquired l s) = nextpid s" "initproc (acquired l s) = initproc s"
  "ptable (released l s) = ptable s" "nextpid (released l s) = nextpid s" "initproc (released l s) = initproc s"
  "freelist (acquired l s) = freelist s" "freelist (released l s) = freelist s"
  "use_lock (acquired l s) = use_lock s" "use_lock (released l s) = use_lock s"
  by (simp_all add: acquired_def released_def upd_lock_def upd_mycpu_def)

lemma upd_proc_kmem [simp]: "freelist (upd_proc i f s) = freelist s" "use_lock (upd_proc i f s) = use_lock s"
  by (simp_all add: upd_proc_def)

text \<open>With a free slot and a free page \<open>allocproc\<close> succeeds.\<close>

lemma allocproc_found:
  assumes "lock_free PtableLock s" "use_lock s \<longrightarrow> lock_free KmemLock s"
    and "find_index (\<lambda>p. state p = UNUSED) (ptable s) = Some i"
  shows "\<exists>t. allocproc s = Ok (if freelist s = 0 then None else Some i) t"
proof -
  let ?u = "(upd_proc i (\<lambda>p. p\<lparr>pid := nextpid s\<rparr>) (upd_proc i (\<lambda>p. p\<lparr>state := EMBRYO\<rparr>) (acquired PtableLock s)))
              \<lparr>nextpid := nextpid s + 1\<rparr>"
  have held: "lock_held PtableLock ?u" using lock_held_acquired [OF assms(1)] by simp
  have k: "use_lock (released PtableLock ?u) \<longrightarrow> lock_free KmemLock (released PtableLock ?u)"
    using assms(1,2) lock_free_other(2) [OF held, of KmemLock] lock_free_other(1) [OF assms(1), of KmemLock]
    by simp
  have "allocproc s = allocproc_stack i (released PtableLock ?u)"
    using assms(1,3) held
    by (simp add: allocproc_def kbind_apply acquire_lock_free release_lock_held)
  moreover have "\<exists>t. allocproc_stack i (released PtableLock ?u) = Ok (if freelist s = 0 then None else Some i) t"
    by (simp add: allocproc_stack_def kbind_apply kalloc_eq [OF k] Let_def)
  ultimately show ?thesis by simp
qed

section \<open>Reachable tables\<close>

definition zero_proc :: proc where
  "zero_proc = \<lparr>sz = 0, pgdir = 0, kstack = 0, state = UNUSED, pid = 0, parent = None, tf = 0,
     pcontext = 0, chan = None, killed = 0, ofile = replicate NOFILE None, cwd = None, pname = [],
     exitstat = 0\<rparr>"

text \<open>The table as the boot loader leaves it: all zero, and \<open>nextpid\<close> 1.\<close>

definition proc_boot :: "'z procs_scheme \<Rightarrow> bool" where
  "proc_boot s \<longleftrightarrow> ptable s = replicate NPROC zero_proc \<and> initproc s = None \<and> nextpid s = 1 \<and>
     (\<forall>c. cproc (cpus s c) = None)"

lemma proc_boot_inv: "proc_boot s \<Longrightarrow> table_ok s \<and> life_inv (life_of s)"
  by (simp add: proc_boot_def life_inv_def pids_ok_def run_ok_def parents_ok_def waits_ok_def life_sel
      zero_proc_def)

lemma proc_reach_inv:
  assumes "proc_step\<^sup>*\<^sup>* s t" "proc_boot s"
  shows "table_ok t \<and> life_inv (life_of t)"
  using assms(1)
proof (induction rule: rtranclp_induct)
  case base
  show ?case by (rule proc_boot_inv [OF assms(2)])
next
  case (step t u)
  then show ?case using proc_step_life [of t u] life_inv_steps by blast
qed

text \<open>A state after booting with one free page, for the examples.\<close>

definition boot_procs :: procs where
  "boot_procs =
     \<lparr>curcpu = 0, cpus = cpus boot_machine, locks = locks boot_machine, mem = (\<lambda>_. 0), argp = 0,
      use_lock = False, freelist = 0x80300000, kend = 0x80115000,
      kpgdir = 0, kdata = 0x80108000, cr3 = (\<lambda>_. 0), gdt = (\<lambda>_. []), gdtr = (\<lambda>_. []), gs = (\<lambda>_. 0),
      ts = (\<lambda>_. \<lparr>ts_esp0 = 0, ts_ss0 = 0, ts_iomb = 0\<rparr>), tr = (\<lambda>_. 0), cpu_addr = (\<lambda>_. 0),
      ts_addr = (\<lambda>_. 0), klog = [],
      ptable = replicate NPROC zero_proc, initproc = None, nextpid = 1,
      forkret_addr = 0x80103000, trapret_addr = 0x80105000\<rparr>"

lemma boot_procs_boot: "proc_boot boot_procs"
  by (simp add: proc_boot_def boot_procs_def boot_machine_def)

lemma boot_procs_locks: "locks_ok boot_procs"
  by (simp add: locks_ok_def held_by_def boot_procs_def boot_machine_def cpu_ok_def)

lemma boot_procs_alloc: "\<exists>t. allocproc boot_procs = Ok (Some 0) t"
proof -
  have free: "lock_free PtableLock boot_procs"
    using boot_procs_locks by (simp add: lock_free_def) (simp add: boot_procs_def boot_machine_def)
  have fi: "find_index (\<lambda>p. state p = UNUSED) (ptable boot_procs) = Some 0"
    by (simp add: boot_procs_def NPROC_def zero_proc_def eval_nat_numeral)
  show ?thesis
    using allocproc_found [OF free _ fi] by (simp add: boot_procs_def)
qed

lemma boot_procs_userinit:
  "\<exists>t. proc_step boot_procs t \<and> initproc t = Some 0 \<and> st (life_of t) 0 = EMBRYO"
proof -
  obtain t where t: "allocproc boot_procs = Ok (Some 0) t" using boot_procs_alloc by blast
  have "initproc boot_procs = None" by (simp add: boot_procs_def)
  then have "proc_step boot_procs (t\<lparr>initproc := Some 0\<rparr>)" by (rule proc_step.userinit [OF _ t])
  moreover have "st (life_of t) 0 = EMBRYO"
    using allocproc_life [OF t] proc_boot_inv [OF boot_procs_boot] by auto
  ultimately show ?thesis by (intro exI [of _ "t\<lparr>initproc := Some 0\<rparr>"]) simp
qed





end
