(* ===== verification/Procsched.thy ===== *)
theory Procsched
  imports Proctab
begin

text \<open>
  Sleeping, waking and scheduling in detail (\<open>sleep\<close>, \<open>wakeup\<close>, \<open>scheduler\<close>), and a flaw of
  \<open>kill\<close>. The lemmas follow the locks through the routines: what each finds and leaves.
\<close>

section \<open>\<open>sleep\<close> and \<open>wakeup\<close>\<close>

lemma wakeup_eq:
  assumes "lock_free PtableLock s"
  shows "wakeup ch s = Ok () (released PtableLock ((acquired PtableLock s)\<lparr>ptable := map (wake ch) (ptable s)\<rparr>))"
  using assms lock_held_acquired [OF assms]
  by (simp add: wakeup_def wakeup1_def kbind_apply acquire_lock_free release_lock_held)

lemma me_upd [simp]:
  "me (upd_proc i f s) = me s" "upd_me f (upd_me g s) = upd_proc (me s) f (upd_proc (me s) g s)"
  by (simp_all add: me_def upd_me_def)

lemma ncli_acquired: "ncli (mycpu (acquired l s)) = ncli (mycpu s) + 1"
  by (simp add: acquired_def)

lemma ncli_released: "ncli (mycpu (released l s)) = ncli (mycpu s) - 1"
  by (simp add: released_def)

lemma cproc_acquired [simp]:
  "cproc (mycpu (acquired l s)) = cproc (mycpu s)" "cproc (mycpu (released l s)) = cproc (mycpu s)"
  "me (acquired l s) = me s" "me (released l s) = me s"
  "curcpu (acquired l s) = curcpu s" "curcpu (released l s) = curcpu s"
  by (simp_all add: acquired_def released_def me_def)

lemma lock_held_other:
  "lock_free l s \<Longrightarrow> k \<noteq> l \<Longrightarrow> lock_held k (acquired l s) = lock_held k s"
  "lock_held l s \<Longrightarrow> k \<noteq> l \<Longrightarrow> lock_held k (released l s) = lock_held k s"
  using spin.acq_frame [OF _ acquire_lock_free] spin.rel_frame [OF _ release_lock_held] by blast+

text \<open>The state in which a thread that sleeps on \<open>ch\<close> with lock \<open>lk\<close> leaves the CPU.\<close>

definition asleep :: "chan \<Rightarrow> lockid \<Rightarrow> 'z procs_scheme \<Rightarrow> 'z procs_scheme" where
  "asleep ch lk s = upd_proc (me s) (\<lambda>p. p\<lparr>state := SLEEPING\<rparr>) (upd_proc (me s) (\<lambda>p. p\<lparr>chan := Some ch\<rparr>)
     (if lk = PtableLock then s else released lk (acquired PtableLock s)))"

lemma sleep_enter_eq:
  assumes "cproc (mycpu s) \<noteq> None" "lk \<noteq> PtableLock \<Longrightarrow> lock_free PtableLock s" "lock_held lk s"
  shows "sleep_enter ch lk s = Ok () (asleep ch lk s)"
proof (cases "lk = PtableLock")
  case True
  with assms(1) show ?thesis by (simp add: sleep_enter_def kbind_apply asleep_def)
next
  case False
  with assms lock_held_other(1) [of PtableLock s lk] show ?thesis
    by (simp add: sleep_enter_def kbind_apply asleep_def acquire_lock_free release_lock_held)
qed

lemma asleep_locks:
  assumes "lk \<noteq> PtableLock \<Longrightarrow> lock_free PtableLock s" "lock_held lk s"
  shows "lock_held PtableLock (asleep ch lk s)" "lk \<noteq> PtableLock \<Longrightarrow> lock_free lk (asleep ch lk s)"
    "ncli (mycpu (asleep ch lk s)) = ncli (mycpu s)" "curcpu (asleep ch lk s) = curcpu s"
proof -
  show "lock_held PtableLock (asleep ch lk s)"
    using assms lock_held_acquired [of PtableLock s] lock_held_other(1) [of PtableLock s lk]
      lock_held_other(2) [of lk "acquired PtableLock s" PtableLock]
    by (cases "lk = PtableLock") (simp_all add: asleep_def)
  show "lock_free lk (asleep ch lk s)" if "lk \<noteq> PtableLock"
    using assms that lock_held_other(1) [of PtableLock s lk] lock_free_released [of lk "acquired PtableLock s"]
    by (simp add: asleep_def)
  show "ncli (mycpu (asleep ch lk s)) = ncli (mycpu s)"
    using ncli_acquired [of PtableLock s] ncli_released [of lk "acquired PtableLock s"] by (simp add: asleep_def)
  show "curcpu (asleep ch lk s) = curcpu s" by (simp add: asleep_def)
qed

lemma lock_held_intr_off: "lock_held l s \<Longrightarrow> readeflags s AND FL_IF = 0"
  using held_intr_off [of s l "curcpu s"] by (simp add: lock_held_def holding_iff readeflags_def intr_on_def)

lemma sched_eq:
  assumes "lock_held PtableLock s" "ncli (mycpu s) = 1" "state (curproc s) \<noteq> RUNNING"
  shows "sched e s = Ok () (upd_mycpu (\<lambda>c. c\<lparr>intena := intena (mycpu s)\<rparr>) (e s))"
  using assms lock_held_intr_off [OF assms(1)] by (simp add: sched_def kbind_apply lock_held_def)


definition boot_running :: procs where
  "boot_running = upd_mycpu (\<lambda>c. c\<lparr>cproc := Some 0\<rparr>) boot_procs"

lemma boot_running_locks: "lock_free l boot_running"
  by (simp add: lock_free_def locks_ok_def held_by_def boot_running_def boot_procs_def boot_machine_def cpu_ok_def)

lemma boot_running_simps:
  "cproc (mycpu boot_running) = Some 0" "ptable boot_running = replicate NPROC zero_proc"
  "ncli (mycpu boot_running) = 0" "use_lock boot_running = False" "freelist boot_running = 0x80300000"
  by (simp_all add: boot_running_def) (simp_all add: boot_procs_def boot_machine_def upd_mycpu_def)


section \<open>\<open>kill\<close> and free slots\<close>

definition kflags :: "'z procs_scheme \<Rightarrow> int list" where
  "kflags s = map killed (ptable s)"

lemma kflags_upd [simp]: "(\<And>p. killed (f p) = killed p) \<Longrightarrow> kflags (upd_proc i f s) = kflags s"
  by (cases "i < length (ptable s)") (simp_all add: kflags_def map_update list_update_same_conv list_update_beyond)

lemma kflags_pview:
  fixes s t :: "'z procs_scheme"
  shows "pview t = pview s \<Longrightarrow> kflags t = kflags s"
  using pviewD(1) [of t s] by (simp add: kflags_def)

lemma keeps_kflags: "keeps pview m \<Longrightarrow> keeps kflags m"
  unfolding keeps_def by (auto intro: kflags_pview split: kres.splits)

lemma allocproc_kflags: "keeps kflags allocproc"
proof -
  have m: "kflags (s\<lparr>mem := x\<rparr>) = kflags s" "kflags (s\<lparr>nextpid := y\<rparr>) = kflags s" for x y and s :: "'a procs_scheme"
    by (simp_all add: kflags_def)
  show ?thesis
    unfolding allocproc_def allocproc_stack_def Let_def
    by (auto intro!: keeps_kbind keeps_mod simp: m keeps_kflags [OF keeps_acquire]
        keeps_kflags [OF keeps_release] keeps_kflags [OF keeps_kalloc] split: option.split)
qed

lemma allocproc_killed: "allocproc s = Ok r t \<Longrightarrow> i < length (ptable s) \<Longrightarrow> killed (ptable t ! i) = killed (ptable s ! i)"
proof -
  assume "allocproc s = Ok r t" and i: "i < length (ptable s)"
  then have eq: "map killed (ptable t) = map killed (ptable s)"
    using keepsD [OF allocproc_kflags] by (simp add: kflags_def)
  then have "length (ptable t) = length (ptable s)" by (rule map_eq_imp_length_eq)
  with eq i show ?thesis using nth_map [of i "ptable t" killed] nth_map [of i "ptable s" killed] by simp
qed

lemma proc_update_same: "state p = x \<Longrightarrow> p\<lparr>killed := k, state := x\<rparr> = p\<lparr>killed := k\<rparr>"
  by (cases p) simp

text \<open>
  C31: \<open>kill(0)\<close> hits a free slot of the table. \<open>kill\<close> does not look at the state of the process
  whose identifier it compares, and a free slot has identifier 0 (from the start, and again after
  \<open>wait\<close>). So \<open>kill(0)\<close> returns 0, which means success, and sets \<open>killed\<close> in the first free slot;
  \<open>allocproc\<close> does not reset the flag, and the next process made there is already marked killed.
\<close>

theorem kill_zero_marks_free_slot:
  assumes "lock_free PtableLock s" "use_lock s \<longrightarrow> lock_free KmemLock s" "freelist s \<noteq> 0"
    and "find_index (\<lambda>p. state p = UNUSED) (ptable s) = Some i"
    and "pid (ptable s ! i) = 0" "\<And>j. j < i \<Longrightarrow> pid (ptable s ! j) \<noteq> 0"
  shows "\<exists>t u. kill 0 s = Ok 0 t \<and> allocproc t = Ok (Some i) u \<and> killed (ptable u ! i) = 1"
proof -
  let ?T = "(ptable s)[i := (ptable s ! i)\<lparr>killed := 1\<rparr>]"
  let ?t = "released PtableLock ((acquired PtableLock s)\<lparr>ptable := ?T\<rparr>)"
  have i: "i < length (ptable s)" "state (ptable s ! i) = UNUSED" "\<And>j. j < i \<Longrightarrow> state (ptable s ! j) \<noteq> UNUSED"
    using find_index_SomeD [OF assms(4)] by auto
  obtain qs r where scan: "kill_scan 0 (ptable s) = (qs, r)" by fastforce
  from kill_scan_cases [OF scan] have qs: "qs = ?T \<and> r = 0"
  proof (elim disjE exE conjE)
    fix j
    assume j: "j < length (ptable s)" "pid (ptable s ! j) = 0" "\<forall>k<j. pid (ptable s ! k) \<noteq> 0" "r = 0"
      "qs = (ptable s)[j := (ptable s ! j)\<lparr>killed := 1,
         state := if state (ptable s ! j) = SLEEPING then RUNNABLE else state (ptable s ! j)\<rparr>]"
    with assms(5,6) have "j = i" by (metis linorder_neqE_nat)
    with j i show ?thesis by (simp add: proc_update_same)
  qed (use assms(5) i nth_mem in auto)
  have held: "lock_held PtableLock ((acquired PtableLock s)\<lparr>ptable := ?T\<rparr>)"
    using lock_held_acquired [OF assms(1)] by simp
  have kill: "kill 0 s = Ok 0 ?t"
    using assms(1) held scan qs by (simp add: kill_def kbind_apply acquire_lock_free release_lock_held)
  have find: "find_index (\<lambda>p. state p = UNUSED) ?T = Some i"
    using i by (intro find_index_SomeI) (auto simp: nth_list_update)
  have "lock_free KmemLock ?t" if "use_lock s"
    using that assms(1,2) held lock_free_other(2) [OF held, of KmemLock] lock_free_other(1) [OF assms(1), of KmemLock]
    by simp
  then obtain u where u: "allocproc ?t = Ok (Some i) u"
    using allocproc_found [of ?t i] lock_free_released [OF held] find assms(3) by auto
  have "killed (ptable u ! i) = killed (ptable ?t ! i)"
    using allocproc_killed [OF u] i by simp
  with kill u i show ?thesis by auto
qed

theorem kill_zero_marks_free_slot_witness:
  "\<exists>t u. kill 0 boot_running = Ok 0 t \<and> allocproc t = Ok (Some 0) u \<and> killed (ptable u ! 0) = 1"
proof -
  have "find_index (\<lambda>p. state p = UNUSED) (ptable boot_running) = Some 0"
    by (simp add: boot_running_simps NPROC_def zero_proc_def eval_nat_numeral)
  from kill_zero_marks_free_slot [OF boot_running_locks _ _ this] boot_running_locks show ?thesis
    by (simp add: boot_running_simps NPROC_def zero_proc_def)
qed

section \<open>One round of the scheduler\<close>

lemma lock_held_cpu:
  assumes "lock_held l s" "locks t = locks s" "curcpu t = curcpu s"
    and "\<And>c. ncli (cpus t c) = ncli (cpus s c) \<and> (intr_on (cpus t c) \<longrightarrow> intr_on (cpus s c))"
  shows "lock_held l t"
proof -
  have "held_by c t = held_by c s" for c using assms(2) by (simp add: held_by_def)
  with assms show ?thesis by (auto simp: lock_held_def locks_ok_def holding_def cpu_ok_def)
qed

lemma switchuvm_held:
  assumes "lock_held l s" "k \<noteq> 0" "d \<noteq> 0"
  shows "\<exists>t. switchuvm k d s = Ok () t \<and> lock_held l t \<and> pview t = pview s \<and> ptable t = ptable s"
proof -
  have off: "\<not> intr_on (mycpu s)" and pos: "0 < ncli (mycpu s)"
    using assms(1) held_intr_off held_ncli_pos by (auto simp: lock_held_def holding_iff)
  obtain t where t: "switchuvm k d s = Ok () t" "locks t = locks s" "curcpu t = curcpu s"
    "cpus t = (cpus s)(curcpu s := pop_cpu (push_cpu (mycpu s)))"
    using assms(2,3) pos
    by (simp add: switchuvm_def set_gdt_def lcr3_def kbind_apply pushcli_eq popcli_eq)
  have "lock_held l t"
    by (rule lock_held_cpu [OF assms(1) t(2,3)]) (use off pos in \<open>simp add: t(4)\<close>)
  with t(1) keepsD [OF keeps_switchuvm t(1)] pviewD(1) [OF keepsD [OF keeps_switchuvm t(1)]] show ?thesis
    by blast
qed

text \<open>
  What the scheduler relies on at each step: it holds \<open>ptable.lock\<close>, and every runnable process
  has a kernel stack and a page directory.
\<close>

definition sched_ok :: "'z procs_scheme \<Rightarrow> bool" where
  "sched_ok s \<longleftrightarrow> lock_held PtableLock s \<and>
     (\<forall>p \<in> set (ptable s). state p = RUNNABLE \<longrightarrow> kstack p \<noteq> 0 \<and> pgdir p \<noteq> 0)"

lemma dispatch_ok:
  assumes "sched_ok s" "i < length (ptable s)" "state (ptable s ! i) = RUNNABLE"
  shows "\<exists>t. dispatch i s = Ok () t \<and> sched_ok t \<and> ptable t = (ptable s)[i := (ptable s ! i)\<lparr>state := RUNNING\<rparr>]
    \<and> cproc (mycpu t) = Some i"
proof -
  let ?u = "upd_mycpu (\<lambda>c. c\<lparr>cproc := Some i\<rparr>) s"
  have "lock_held PtableLock ?u"
    by (rule lock_held_cpu [of _ s]) (use assms in \<open>simp_all add: sched_ok_def intr_on_def\<close>)
  moreover have "kstack (ptable s ! i) \<noteq> 0" "pgdir (ptable s ! i) \<noteq> 0"
    using assms by (auto simp: sched_ok_def)
  ultimately obtain t where t: "switchuvm_proc i ?u = Ok () t" "lock_held PtableLock t" "pview t = pview ?u"
    using switchuvm_held [of PtableLock ?u] by (auto simp: switchuvm_proc_def)
  let ?t = "upd_proc i (\<lambda>p. p\<lparr>state := RUNNING\<rparr>) t"
  have "dispatch i s = Ok () ?t" using t(1) by (simp add: dispatch_def set_proc_def kbind_apply)
  moreover have "sched_ok ?t"
  proof -
    have "p = (ptable s ! i)\<lparr>state := RUNNING\<rparr> \<or> p \<in> set (ptable s)" if "p \<in> set (ptable ?t)" for p
      using that pviewD(1) [OF t(3)] set_update_subset_insert [of "ptable s" i "(ptable s ! i)\<lparr>state := RUNNING\<rparr>"]
      by auto
    then have "kstack p \<noteq> 0 \<and> pgdir p \<noteq> 0" if "p \<in> set (ptable ?t)" "state p = RUNNABLE" for p
      using that assms(1) unfolding sched_ok_def by fastforce
    with t(2) show ?thesis by (simp add: sched_ok_def)
  qed
  ultimately show ?thesis using pviewD(1,8) [OF t(3)] by auto
qed

text \<open>
  A turn of another process that leaves \<open>i\<close> runnable: \<open>turn j\<close> for \<open>j\<close> different from \<open>i\<close>.
\<close>

definition leaves_runnable :: "(nat \<Rightarrow> 'z procs_scheme \<Rightarrow> 'z procs_scheme) \<Rightarrow> nat \<Rightarrow> bool" where
  "leaves_runnable turn i \<longleftrightarrow> (\<forall>j s. j \<noteq> i \<longrightarrow> state (ptable s ! i) = RUNNABLE \<longrightarrow> state (ptable (turn j s) ! i) = RUNNABLE)"

lemma switchkvm_eq: "switchkvm s = Ok () (s\<lparr>cr3 := (cr3 s)(curcpu s := V2P (kpgdir s))\<rparr>)"
  by (simp add: switchkvm_def lcr3_def)

lemma lock_held_cr3 [simp]: "lock_held l (s\<lparr>cr3 := x\<rparr>) = lock_held l s" for s :: "'z vm_scheme"
  by (rule lock_held_ctl) (simp add: lock_ctl_def)

lemma sched_scan_runs:
  assumes "\<And>j s. sched_ok s \<Longrightarrow> length (ptable s) = n \<Longrightarrow> sched_ok (turn j s) \<and> length (ptable (turn j s)) = n"
    and "sched_ok s" "length (ptable s) = n" "set xs \<subseteq> {..<n}" "distinct xs"
  shows "\<exists>js t. sched_scan turn xs s = Ok js t \<and> sched_ok t \<and> length (ptable t) = n
    \<and> (\<forall>i \<in> set xs. state (ptable s ! i) = RUNNABLE \<longrightarrow> leaves_runnable turn i \<longrightarrow> i \<in> set js)"
  using assms(2-)
proof (induction xs arbitrary: s)
  case (Cons i xs)
  show ?case
  proof (cases "state (ptable s ! i) = RUNNABLE")
    case False
    with Cons.IH [OF Cons.prems(1,2)] Cons.prems(3,4) show ?thesis by auto
  next
    case True
    from dispatch_ok [OF Cons.prems(1) _ True] Cons.prems(2,3) obtain t where t: "dispatch i s = Ok () t"
      "sched_ok t" "ptable t = (ptable s)[i := (ptable s ! i)\<lparr>state := RUNNING\<rparr>]" by auto
    have r: "sched_ok (turn i t)" "length (ptable (turn i t)) = n"
      using assms(1) [OF t(2), of i] t(3) Cons.prems(2) by simp_all
    let ?u = "upd_mycpu (\<lambda>c. c\<lparr>cproc := None\<rparr>) ((turn i t)\<lparr>cr3 := (cr3 (turn i t))(curcpu (turn i t) := V2P (kpgdir (turn i t)))\<rparr>)"
    have held: "lock_held PtableLock ?u"
      by (rule lock_held_cpu [of _ "(turn i t)\<lparr>cr3 := (cr3 (turn i t))(curcpu (turn i t) := V2P (kpgdir (turn i t)))\<rparr>"])
        (use r(1) in \<open>simp_all add: sched_ok_def intr_on_def\<close>)
    have u: "sched_ok ?u" "length (ptable ?u) = n" "ptable ?u = ptable (turn i t)"
      using r held by (simp_all add: sched_ok_def)
    from Cons.IH [OF u(1,2)] Cons.prems(3,4) obtain js v where v: "sched_scan turn xs ?u = Ok js v" "sched_ok v"
      "length (ptable v) = n"
      "\<forall>k \<in> set xs. state (ptable ?u ! k) = RUNNABLE \<longrightarrow> leaves_runnable turn k \<longrightarrow> k \<in> set js" by auto
    have "sched_scan turn (i # xs) s = Ok (i # js) v"
      using True t(1) v(1) by (simp add: kbind_apply switchkvm_eq set_proc_def)
    moreover have "k \<in> set js" if k: "k \<in> set xs" "state (ptable s ! k) = RUNNABLE" "leaves_runnable turn k" for k
    proof -
      have "k \<noteq> i" using k(1) Cons.prems(4) by auto
      then have "state (ptable t ! k) = RUNNABLE" using k(2) t(3) by simp
      with k(3) \<open>k \<noteq> i\<close> have "state (ptable (turn i t) ! k) = RUNNABLE" by (simp add: leaves_runnable_def)
      with v(4) u(3) k show ?thesis by simp
    qed
    ultimately show ?thesis using v by auto
  qed
qed simp

text \<open>
  C9: No runnable process starves in the scheduler. One round of the loop in \<open>scheduler\<close> returns,
  with \<open>ptable.lock\<close> free again, and every process that was runnable at its start was given the
  CPU in it, provided that the turns of the other processes left it runnable. A turn may change
  the table, but comes back to the scheduler with \<open>ptable.lock\<close> held and with stacks and page
  directories in place for the runnable processes.
\<close>

theorem scheduler_runs_all:
  assumes "lock_free PtableLock s" "ncli (mycpu s) = 0" "length (ptable s) = NPROC"
    and "\<forall>p \<in> set (ptable s). state p = RUNNABLE \<longrightarrow> kstack p \<noteq> 0 \<and> pgdir p \<noteq> 0"
    and "\<And>j u. sched_ok u \<Longrightarrow> length (ptable u) = NPROC \<Longrightarrow> sched_ok (turn j u) \<and> length (ptable (turn j u)) = NPROC"
  shows "\<exists>js t. scheduler_round turn s = Ok js t \<and> lock_free PtableLock t
    \<and> (\<forall>i < NPROC. state (ptable s ! i) = RUNNABLE \<longrightarrow> leaves_runnable turn i \<longrightarrow> i \<in> set js)"
proof -
  let ?s = "upd_mycpu (\<lambda>c. c\<lparr>eflags := eflags c OR FL_IF\<rparr>) s"
  have "int (card (held_by (curcpu s) s)) \<le> ncli (mycpu s)"
    using assms(1) by (simp add: lock_free_def locks_ok_def)
  then have "card (held_by (curcpu s) s) = 0" using assms(2) by simp
  moreover have "held_by c ?s = held_by c s" for c by (simp add: held_by_def)
  ultimately have free: "lock_free PtableLock ?s"
    using assms(1,2) by (simp add: lock_free_def locks_ok_def cpu_ok_def)
  have "sched_ok (acquired PtableLock ?s)" "length (ptable (acquired PtableLock ?s)) = NPROC"
    using assms(3,4) lock_held_acquired [OF free] by (simp_all add: sched_ok_def)
  from sched_scan_runs [where xs = "[0..<NPROC]" and turn = turn, OF assms(5) this]
  have "\<exists>js t. sched_scan turn [0..<NPROC] (acquired PtableLock ?s) = Ok js t \<and> sched_ok t
    \<and> (\<forall>i < NPROC. state (ptable s ! i) = RUNNABLE \<longrightarrow> leaves_runnable turn i \<longrightarrow> i \<in> set js)"
    by (simp add: atLeast0LessThan) blast
  then obtain js t
    where t: "sched_scan turn [0..<NPROC] (acquired PtableLock ?s) = Ok js t" "sched_ok t"
      "\<forall>i < NPROC. state (ptable s ! i) = RUNNABLE \<longrightarrow> leaves_runnable turn i \<longrightarrow> i \<in> set js"
    by blast
  have "lock_held PtableLock t" using t(2) by (simp add: sched_ok_def)
  then have "scheduler_round turn s = Ok js (released PtableLock t)" "lock_free PtableLock (released PtableLock t)"
    using t(1) free assms(3)
    by (simp_all add: scheduler_round_def sti_def kbind_apply acquire_lock_free release_lock_held lock_free_released)
  with t(3) show ?thesis by blast
qed

definition runner :: procs where
  "runner = boot_procs\<lparr>ptable := zero_proc\<lparr>state := RUNNABLE, kstack := 1, pgdir := 1\<rparr> # replicate 63 zero_proc\<rparr>"

theorem scheduler_runs_all_witness:
  "\<exists>js t. scheduler_round (\<lambda>j. upd_proc j (\<lambda>p. p\<lparr>state := SLEEPING\<rparr>)) runner = Ok js t \<and> 0 \<in> set js"
proof -
  let ?turn = "\<lambda>j. upd_proc j (\<lambda>p. p\<lparr>state := SLEEPING\<rparr>) :: procs \<Rightarrow> procs"
  have free: "lock_free PtableLock runner"
    unfolding runner_def lock_upd_proc using boot_procs_locks
    by (simp add: lock_free_def) (simp add: boot_procs_def boot_machine_def)
  have turn: "sched_ok (?turn j u) \<and> length (ptable (?turn j u)) = NPROC"
    if "sched_ok u" "length (ptable u) = NPROC" for j and u :: procs
  proof -
    have "p = (ptable u ! j)\<lparr>state := SLEEPING\<rparr> \<or> p \<in> set (ptable u)" if "p \<in> set (ptable (?turn j u))" for p
      using that set_update_subset_insert [of "ptable u" j "(ptable u ! j)\<lparr>state := SLEEPING\<rparr>"] by auto
    then have "kstack p \<noteq> 0 \<and> pgdir p \<noteq> 0" if "p \<in> set (ptable (?turn j u))" "state p = RUNNABLE" for p
      using that \<open>sched_ok u\<close> unfolding sched_ok_def by fastforce
    with that show ?thesis by (simp add: sched_ok_def)
  qed
  have "ncli (mycpu runner) = 0" "length (ptable runner) = NPROC" "ptable runner ! 0 = zero_proc\<lparr>state := RUNNABLE, kstack := 1, pgdir := 1\<rparr>"
    "\<forall>p \<in> set (ptable runner). state p = RUNNABLE \<longrightarrow> kstack p \<noteq> 0 \<and> pgdir p \<noteq> 0"
    by (simp_all add: runner_def boot_procs_def boot_machine_def NPROC_def zero_proc_def)
  moreover have "leaves_runnable ?turn 0" by (simp add: leaves_runnable_def)
  ultimately show ?thesis
    using scheduler_runs_all [where turn = ?turn, OF free _ _ _ turn] by (auto simp: NPROC_def)
qed

end
