(* ===== verification/Bio.thy ===== *)
theory Bio
  imports Procsched
begin

text \<open>
  Sleep locks (\<open>sleeplock.c\<close>), the buffer cache (\<open>bio.c\<close>) and the disk that lives in memory
  (\<open>memide.c\<close>, the disk of the \<open>kernelmemfs\<close> build).

  A buffer is named by its index in \<open>bcache.buf\<close>; the index \<open>NBUF\<close> stands for \<open>bcache.head\<close>, so
  that the doubly linked list through \<open>prev\<close> and \<open>next\<close> is a ring of the indices up to \<open>NBUF\<close>. The
  spin lock inside a sleep lock and the sleep lock itself have the same name. \<open>acquiresleep\<close> takes
  what other threads do during each of its sleeps; the routines above it pass none, so for them a
  sleep lock held by another thread ends the run with \<open>Blocked\<close>, the thread asleep.
\<close>

section \<open>\<open>sleeplock.h\<close>, \<open>buf.h\<close>\<close>

record sleeplock =
  slocked :: uint
  sname :: string
  spid :: int

type_synonym block = "uchar list"

record buf =
  flags :: uint
  bdev :: uint
  blockno :: uint
  refcnt :: uint
  bprev :: nat
  bnext :: nat
  bdata :: block

definition B_VALID :: uint where "B_VALID = 0x2"

definition B_DIRTY :: uint where "B_DIRTY = 0x4"

definition BSIZE :: nat where "BSIZE = 512"

definition MAXOPBLOCKS :: nat where "MAXOPBLOCKS = 10"

definition NBUF :: nat where "NBUF = MAXOPBLOCKS * 3"

record bcache = procs +
  slocks :: "lockid \<Rightarrow> sleeplock"
  bufs :: "buf list"
  disk :: "uint \<Rightarrow> block"
  disksize :: uint

definition upd_slock :: "lockid \<Rightarrow> (sleeplock \<Rightarrow> sleeplock) \<Rightarrow> 'z bcache_scheme \<Rightarrow> 'z bcache_scheme" where
  "upd_slock lk f s = s\<lparr>slocks := (slocks s)(lk := f (slocks s lk))\<rparr>"

definition upd_buf :: "nat \<Rightarrow> (buf \<Rightarrow> buf) \<Rightarrow> 'z bcache_scheme \<Rightarrow> 'z bcache_scheme" where
  "upd_buf b f s = s\<lparr>bufs := (bufs s)[b := f (bufs s ! b)]\<rparr>"

section \<open>\<open>sleeplock.c\<close>\<close>

definition initsleeplock :: "lockid \<Rightarrow> string \<Rightarrow> ('z bcache_scheme, unit) kern" where
  "initsleeplock lk name = kseq
     [initlock lk ''sleep lock'',
      kmod (upd_slock lk (\<lambda>l. l\<lparr>sname := name\<rparr>)),
      kmod (upd_slock lk (\<lambda>l. l\<lparr>slocked := 0\<rparr>)),
      kmod (upd_slock lk (\<lambda>l. l\<lparr>spid := 0\<rparr>))]
     (kret ())"

fun acquiresleep_loop :: "('z bcache_scheme \<Rightarrow> 'z bcache_scheme) list \<Rightarrow> lockid \<Rightarrow> ('z bcache_scheme, unit) kern" where
  "acquiresleep_loop envs lk =
     kcond (\<lambda>s. slocked (slocks s lk) \<noteq> 0)
       (case envs of
          [] \<Rightarrow> sleep_forever (Ch_lock lk) lk
        | e # es \<Rightarrow> kbind (sleep e (Ch_lock lk) lk) (\<lambda>_. acquiresleep_loop es lk))
       (kret ())"

definition acquiresleep :: "('z bcache_scheme \<Rightarrow> 'z bcache_scheme) list \<Rightarrow> lockid \<Rightarrow> ('z bcache_scheme, unit) kern" where
  "acquiresleep envs lk = kseq
     [acquire lk,
      acquiresleep_loop envs lk,
      kmod (upd_slock lk (\<lambda>l. l\<lparr>slocked := 1\<rparr>)),
      kmod (\<lambda>s. upd_slock lk (\<lambda>l. l\<lparr>spid := pid (curproc s)\<rparr>) s),
      release lk]
     (kret ())"

definition releasesleep :: "lockid \<Rightarrow> ('z bcache_scheme, unit) kern" where
  "releasesleep lk = kseq
     [acquire lk,
      kmod (upd_slock lk (\<lambda>l. l\<lparr>slocked := 0\<rparr>)),
      kmod (upd_slock lk (\<lambda>l. l\<lparr>spid := 0\<rparr>)),
      wakeup (Ch_lock lk),
      release lk]
     (kret ())"

definition holdingsleep :: "lockid \<Rightarrow> ('z bcache_scheme, uint) kern" where
  "holdingsleep lk =
     kbind (acquire lk) (\<lambda>_.
     kbind (kget (\<lambda>s. slocked (slocks s lk))) (\<lambda>r. kseq [release lk] (kret r)))"

section \<open>\<open>memide.c\<close>\<close>

text \<open>The image \<open>_binary_fs_img\<close> is linked in by the build: a parameter, its size in bytes and its blocks.\<close>

definition ideinit :: "(uint \<Rightarrow> block) \<Rightarrow> uint \<Rightarrow> ('z bcache_scheme, unit) kern" where
  "ideinit img imgsize = kseq
     [kmod (\<lambda>s. s\<lparr>disk := img\<rparr>),
      kmod (\<lambda>s. s\<lparr>disksize := imgsize div of_nat BSIZE\<rparr>)]
     (kret ())"

definition iderw :: "nat \<Rightarrow> ('z bcache_scheme, unit) kern" where
  "iderw b =
     kbind (holdingsleep (BufLock b)) (\<lambda>h. kseq
       [kassert (\<lambda>s. \<not> h = 0) ''iderw: buf not locked'',
        kassert (\<lambda>s. \<not> flags (bufs s ! b) AND (B_VALID OR B_DIRTY) = B_VALID) ''iderw: nothing to do'',
        kassert (\<lambda>s. \<not> bdev (bufs s ! b) \<noteq> 1) ''iderw: request not for disk 1'',
        kassert (\<lambda>s. \<not> blockno (bufs s ! b) \<ge> disksize s) ''iderw: block out of range'',
        kcond (\<lambda>s. flags (bufs s ! b) AND B_DIRTY \<noteq> 0)
          (kseq
             [kmod (upd_buf b (\<lambda>p. p\<lparr>flags := flags p AND NOT B_DIRTY\<rparr>)),
              kmod (\<lambda>s. s\<lparr>disk := (disk s)(blockno (bufs s ! b) := bdata (bufs s ! b))\<rparr>)]
             (kret ()))
          (kmod (\<lambda>s. upd_buf b (\<lambda>p. p\<lparr>bdata := disk s (blockno p)\<rparr>) s)),
        kmod (upd_buf b (\<lambda>p. p\<lparr>flags := flags p OR B_VALID\<rparr>))]
       (kret ()))"

section \<open>\<open>bio.c\<close>\<close>

text \<open>Insertion of buffer \<open>b\<close> right behind the head, as \<open>binit\<close> and \<open>brelse\<close> do it.\<close>

definition link_front :: "nat \<Rightarrow> buf list \<Rightarrow> buf list" where
  "link_front b bs =
     (let bs1 = bs[b := (bs ! b)\<lparr>bnext := bnext (bs ! NBUF)\<rparr>];
          bs2 = bs1[b := (bs1 ! b)\<lparr>bprev := NBUF\<rparr>];
          n = bnext (bs2 ! NBUF);
          bs3 = bs2[n := (bs2 ! n)\<lparr>bprev := b\<rparr>]
      in bs3[NBUF := (bs3 ! NBUF)\<lparr>bnext := b\<rparr>])"

definition unlink :: "nat \<Rightarrow> buf list \<Rightarrow> buf list" where
  "unlink b bs =
     (let n = bnext (bs ! b); bs1 = bs[n := (bs ! n)\<lparr>bprev := bprev (bs ! b)\<rparr>];
          p = bprev (bs1 ! b)
      in bs1[p := (bs1 ! p)\<lparr>bnext := bnext (bs1 ! b)\<rparr>])"

definition binit :: "('z bcache_scheme, unit) kern" where
  "binit = kseq
     [initlock BcacheLock ''bcache'',
      kmod (upd_buf NBUF (\<lambda>h. h\<lparr>bprev := NBUF\<rparr>)),
      kmod (upd_buf NBUF (\<lambda>h. h\<lparr>bnext := NBUF\<rparr>)),
      kfor [0..<NBUF] (\<lambda>b. kseq
        [initsleeplock (BufLock b) ''buffer'',
         kmod (\<lambda>s. s\<lparr>bufs := link_front b (bufs s)\<rparr>)]
        (kret ()))]
     (kret ())"

text \<open>
  The two scans of \<open>bget\<close> along the ring, forwards for the cached block and backwards for the
  least recently used buffer that is free; \<open>NBUF + 1\<close> rounds reach the head from anywhere.
\<close>

definition bget_cached :: "uint \<Rightarrow> uint \<Rightarrow> nat \<Rightarrow> ('z bcache_scheme, nat + nat option) kern" where
  "bget_cached dev bno b =
     (if b = NBUF then kret (Inr None)
      else kbind (kget (\<lambda>s. bufs s ! b)) (\<lambda>p.
        if bdev p = dev \<and> blockno p = bno then kret (Inr (Some b))
        else kret (Inl (bnext p))))"

definition bget_recycle :: "nat \<Rightarrow> ('z bcache_scheme, nat + nat option) kern" where
  "bget_recycle b =
     (if b = NBUF then kret (Inr None)
      else kbind (kget (\<lambda>s. bufs s ! b)) (\<lambda>p.
        if refcnt p = 0 \<and> flags p AND B_DIRTY = 0 then kret (Inr (Some b))
        else kret (Inl (bprev p))))"

definition bget :: "uint \<Rightarrow> uint \<Rightarrow> ('z bcache_scheme, nat) kern" where
  "bget dev bno =
     kbind (acquire BcacheLock) (\<lambda>_.
     kbind (kget (\<lambda>s. bnext (bufs s ! NBUF))) (\<lambda>b0.
     kbind (kloop (NBUF + 1) (bget_cached dev bno) b0) (\<lambda>r.
     case r of
       Some b \<Rightarrow> kseq
         [kmod (upd_buf b (\<lambda>p. p\<lparr>refcnt := refcnt p + 1\<rparr>)),
          release BcacheLock,
          acquiresleep [] (BufLock b)]
         (kret b)
     | None \<Rightarrow>
         kbind (kget (\<lambda>s. bprev (bufs s ! NBUF))) (\<lambda>b1.
         kbind (kloop (NBUF + 1) bget_recycle b1) (\<lambda>r.
         case r of
           Some b \<Rightarrow> kseq
             [kmod (upd_buf b (\<lambda>p. p\<lparr>bdev := dev\<rparr>)),
              kmod (upd_buf b (\<lambda>p. p\<lparr>blockno := bno\<rparr>)),
              kmod (upd_buf b (\<lambda>p. p\<lparr>flags := 0\<rparr>)),
              kmod (upd_buf b (\<lambda>p. p\<lparr>refcnt := 1\<rparr>)),
              release BcacheLock,
              acquiresleep [] (BufLock b)]
             (kret b)
         | None \<Rightarrow> kpanic ''bget: no buffers'')))))"

definition bread :: "uint \<Rightarrow> uint \<Rightarrow> ('z bcache_scheme, nat) kern" where
  "bread dev bno =
     kbind (bget dev bno) (\<lambda>b. kseq
       [kif (\<lambda>s. flags (bufs s ! b) AND B_VALID = 0) (iderw b)]
       (kret b))"

definition bwrite :: "nat \<Rightarrow> ('z bcache_scheme, unit) kern" where
  "bwrite b =
     kbind (holdingsleep (BufLock b)) (\<lambda>h. kseq
       [kassert (\<lambda>s. \<not> h = 0) ''bwrite'',
        kmod (upd_buf b (\<lambda>p. p\<lparr>flags := flags p OR B_DIRTY\<rparr>)),
        iderw b]
       (kret ()))"

definition brelse :: "nat \<Rightarrow> ('z bcache_scheme, unit) kern" where
  "brelse b =
     kbind (holdingsleep (BufLock b)) (\<lambda>h. kseq
       [kassert (\<lambda>s. \<not> h = 0) ''brelse'',
        releasesleep (BufLock b),
        acquire BcacheLock,
        kmod (upd_buf b (\<lambda>p. p\<lparr>refcnt := refcnt p - 1\<rparr>)),
        kif (\<lambda>s. refcnt (bufs s ! b) = 0) (kmod (\<lambda>s. s\<lparr>bufs := link_front b (unlink b (bufs s))\<rparr>)),
        release BcacheLock]
       (kret ()))"

end
