(* ===== verification/Format.thy ===== *)
theory Format
  imports Prelude
begin

text \<open>
  Formatted output: \<open>printint\<close> and the format loop of the kernel's \<open>cprintf\<close> (\<open>console.c\<close>) and of the
  user library's \<open>printf\<close> (\<open>printf.c\<close>), and the string functions of \<open>ulib.c\<close> that work on C strings.

  The output is the list of characters that is handed to \<open>consputc\<close> or \<open>putc\<close>, in order. The words
  on the stack behind the format are the parameter \<open>args\<close>, and the C string at an address is given
  by the parameter \<open>str\<close>. A C string is the list of its characters without the final NUL.
\<close>

section \<open>\<open>printint\<close>\<close>

definition kdigits :: string where "kdigits = ''0123456789abcdef''"

definition udigits :: string where "udigits = ''0123456789ABCDEF''"

text \<open>
  The digits as the loop stores them into \<open>buf\<close>, least significant first. The buffer has 16
  places, which is the number of rounds.
\<close>

primrec digit_loop :: "string \<Rightarrow> nat \<Rightarrow> uint \<Rightarrow> uint \<Rightarrow> string" where
  "digit_loop digits 0 base x = []"
| "digit_loop digits (Suc n) base x =
     digits ! unat (x mod base) # (if x div base \<noteq> 0 then digit_loop digits n base (x div base) else [])"

definition printint :: "uint \<Rightarrow> uint \<Rightarrow> bool \<Rightarrow> string" where
  "printint xx base sign =
     (let neg = sign \<and> sint xx < 0;
          x = (if neg then - xx else xx);
          buf = digit_loop kdigits 16 base x
      in rev (if neg then buf @ ''-'' else buf))"

definition uprintint :: "uint \<Rightarrow> uint \<Rightarrow> bool \<Rightarrow> string" where
  "uprintint xx base sg =
     (let neg = sg \<and> sint xx < 0;
          x = (if neg then - xx else xx);
          buf = digit_loop udigits 16 base x
      in rev (if neg then buf @ ''-'' else buf))"

section \<open>The format loops\<close>

fun cprintf_loop :: "(uint \<Rightarrow> string) \<Rightarrow> (nat \<Rightarrow> uint) \<Rightarrow> nat \<Rightarrow> string \<Rightarrow> string" where
  "cprintf_loop str args k [] = []"
| "cprintf_loop str args k [c] = (if c \<noteq> CHR ''%'' then [c] else [])"
| "cprintf_loop str args k (c # d # fmt) =
     (if c \<noteq> CHR ''%'' then c # cprintf_loop str args k (d # fmt)
      else if d = CHR ''d'' then printint (args k) 10 True @ cprintf_loop str args (k + 1) fmt
      else if d = CHR ''x'' \<or> d = CHR ''p'' then printint (args k) 16 False @ cprintf_loop str args (k + 1) fmt
      else if d = CHR ''s'' then
        (if args k = 0 then ''(null)'' else str (args k)) @ cprintf_loop str args (k + 1) fmt
      else if d = CHR ''%'' then CHR ''%'' # cprintf_loop str args k fmt
      else CHR ''%'' # d # cprintf_loop str args k fmt)"

definition cprintf_str :: "(uint \<Rightarrow> string) \<Rightarrow> (nat \<Rightarrow> uint) \<Rightarrow> string \<Rightarrow> string" where
  "cprintf_str str args fmt = cprintf_loop str args 0 fmt"

text \<open>\<open>printf\<close> keeps the last character in \<open>state\<close>; here \<open>pct\<close> is \<open>state == '%'\<close>.\<close>

fun printf_loop :: "(uint \<Rightarrow> string) \<Rightarrow> (nat \<Rightarrow> uint) \<Rightarrow> nat \<Rightarrow> bool \<Rightarrow> string \<Rightarrow> string" where
  "printf_loop str args k pct [] = []"
| "printf_loop str args k False (c # fmt) =
     (if c = CHR ''%'' then printf_loop str args k True fmt else c # printf_loop str args k False fmt)"
| "printf_loop str args k True (c # fmt) =
     (if c = CHR ''d'' then uprintint (args k) 10 True @ printf_loop str args (k + 1) False fmt
      else if c = CHR ''x'' \<or> c = CHR ''p'' then uprintint (args k) 16 False @ printf_loop str args (k + 1) False fmt
      else if c = CHR ''s'' then
        (if args k = 0 then ''(null)'' else str (args k)) @ printf_loop str args (k + 1) False fmt
      else if c = CHR ''c'' then char_of (unat (args k)) # printf_loop str args (k + 1) False fmt
      else if c = CHR ''%'' then c # printf_loop str args k False fmt
      else CHR ''%'' # c # printf_loop str args k False fmt)"

definition printf_str :: "(uint \<Rightarrow> string) \<Rightarrow> (nat \<Rightarrow> uint) \<Rightarrow> string \<Rightarrow> string" where
  "printf_str str args fmt = printf_loop str args 0 False fmt"

section \<open>\<open>ulib.c\<close>\<close>

text \<open>The first character of the rest of a C string, NUL at its end.\<close>

definition hd0 :: "string \<Rightarrow> char" where
  "hd0 s = (case s of [] \<Rightarrow> CHR 0x00 | c # _ \<Rightarrow> c)"

fun strcmp :: "string \<Rightarrow> string \<Rightarrow> int" where
  "strcmp (c # p) (d # q) = (if c = d then strcmp p q else of_char c - of_char d)"
| "strcmp p q = of_char (hd0 p) - of_char (hd0 q)"

fun strchr :: "string \<Rightarrow> char \<Rightarrow> string option" where
  "strchr [] c = None"
| "strchr (d # s) c = (if d = c then Some (d # s) else strchr s c)"

definition is_digit :: "char \<Rightarrow> bool" where
  "is_digit c \<longleftrightarrow> of_char CHR ''0'' \<le> (of_char c :: nat) \<and> of_char c \<le> (of_char CHR ''9'' :: nat)"

fun atoi_loop :: "uint \<Rightarrow> string \<Rightarrow> uint" where
  "atoi_loop n [] = n"
| "atoi_loop n (c # s) =
     (if is_digit c then atoi_loop (n * 10 + of_char c - of_char CHR ''0'') s else n)"

definition atoi :: "string \<Rightarrow> uint" where
  "atoi s = atoi_loop 0 s"

text \<open>
  \<open>gets\<close> with the input as a parameter: the characters that \<open>read(0, &c, 1)\<close> delivers one after the
  other until it returns less than 1. The result is the contents of \<open>buf\<close> up to the final NUL.
\<close>

fun gets_loop :: "nat \<Rightarrow> nat \<Rightarrow> string \<Rightarrow> string" where
  "gets_loop i mx [] = []"
| "gets_loop i mx (c # inp) =
     (if i + 1 < mx then
        c # (if c = CHR ''\<newline>'' \<or> c = CHR 0x0D then [] else gets_loop (i + 1) mx inp)
      else [])"

definition gets :: "nat \<Rightarrow> string \<Rightarrow> string" where
  "gets mx inp = gets_loop 0 mx inp"

section \<open>Printing and reading decimals\<close>

text \<open>The value of a list of digits, least significant first.\<close>

primrec dval :: "nat list \<Rightarrow> nat" where
  "dval [] = 0"
| "dval (d # ds) = d + 10 * dval ds"

text \<open>The digits of a number below \<open>10 ^ n\<close>, and the character of a digit.\<close>

primrec ndigits :: "nat \<Rightarrow> nat \<Rightarrow> nat list" where
  "ndigits 0 x = []"
| "ndigits (Suc n) x = x mod 10 # (if x div 10 \<noteq> 0 then ndigits n (x div 10) else [])"

lemma dval_ndigits: "x < 10 ^ n \<Longrightarrow> dval (ndigits n x) = x"
proof (induction n arbitrary: x)
  case (Suc n)
  then have "x div 10 < 10 ^ n" by (simp add: less_mult_imp_div_less mult.commute)
  with Suc.IH [of "x div 10"] show ?case by auto
qed simp

lemma ndigits_digit: "d \<in> set (ndigits n x) \<Longrightarrow> d < 10"
  by (induction n arbitrary: x) (auto split: if_splits)

lemma length_ndigits: "length (ndigits n x) \<le> n"
  by (induction n arbitrary: x) auto

lemma ndigits_enough: "x < 10 ^ n \<Longrightarrow> n \<le> m \<Longrightarrow> 0 < n \<Longrightarrow> ndigits m x = ndigits n x"
proof (induction n arbitrary: x m)
  case (Suc n)
  then obtain k where k: "m = Suc k" by (cases m) auto
  have "x div 10 < 10 ^ n" using Suc.prems(1) by (simp add: less_mult_imp_div_less mult.commute)
  then show ?case using Suc.IH [of "x div 10" k] Suc.prems k by (cases n) auto
qed simp

lemma digit_loop_ndigits:
  assumes "\<And>d. d < 10 \<Longrightarrow> digits ! d = char_of (48 + d)"
  shows "digit_loop digits n 10 x = map (\<lambda>d. char_of (48 + d)) (ndigits n (unat x))"
proof (induction n arbitrary: x)
  case (Suc n)
  have "unat (x mod 10) = unat x mod 10" "unat (x div 10) = unat x div 10"
    by (simp_all add: unat_mod unat_div)
  moreover have "x div 10 \<noteq> 0 \<longleftrightarrow> unat x div 10 \<noteq> 0"
    by (metis calculation(2) unat_eq_zero)
  ultimately show ?case using Suc assms [of "unat x mod 10"] by simp
qed simp

lemma digits_ok: "d < 10 \<Longrightarrow> kdigits ! d = char_of (48 + d)" "d < 10 \<Longrightarrow> udigits ! d = char_of (48 + d)"
proof -
  have "\<forall>d \<in> set [0..<10]. kdigits ! d = char_of (48 + d) \<and> udigits ! d = char_of (48 + d)" by code_simp
  then show "d < 10 \<Longrightarrow> kdigits ! d = char_of (48 + d)" "d < 10 \<Longrightarrow> udigits ! d = char_of (48 + d)" by simp_all
qed

lemma of_digit:
  assumes "d < 10"
  shows "is_digit (char_of (48 + d))" "of_char (char_of (48 + d) :: char) = (48 + of_nat d :: uint)"
proof -
  have n: "of_char (char_of (48 + d) :: char) = 48 + d" using assms by (simp add: of_char_of)
  show "is_digit (char_of (48 + d))" using assms by (simp add: is_digit_def n)
  have "of_char (char_of (48 + d) :: char) = (of_nat (of_char (char_of (48 + d) :: char)) :: uint)"
    by (simp only: of_nat_of_char)
  also have "\<dots> = 48 + of_nat d" unfolding n by simp
  finally show "of_char (char_of (48 + d) :: char) = (48 + of_nat d :: uint)" .
qed

lemma dval_append: "dval (xs @ ys) = dval xs + 10 ^ length xs * dval ys"
  by (induction xs) (simp_all add: algebra_simps)

lemma atoi_loop_digits:
  "(\<And>d. d \<in> set ds \<Longrightarrow> d < 10) \<Longrightarrow>
     atoi_loop n (map (\<lambda>d. char_of (48 + d)) ds) = n * 10 ^ length ds + of_nat (dval (rev ds))"
proof (induction ds arbitrary: n)
  case (Cons d ds)
  then have d: "d < 10" by simp
  have "atoi_loop n (map (\<lambda>d. char_of (48 + d)) (d # ds)) = atoi_loop (n * 10 + of_nat d) (map (\<lambda>d. char_of (48 + d)) ds)"
    using of_digit [OF d] by simp
  also have "\<dots> = (n * 10 + of_nat d) * 10 ^ length ds + of_nat (dval (rev ds))"
    using Cons by simp
  finally show ?case by (simp add: dval_append algebra_simps)
qed simp

text \<open>What \<open>printint\<close> prints in decimal.\<close>

definition decimal :: "nat \<Rightarrow> string" where
  "decimal x = map (\<lambda>d. char_of (48 + d)) (rev (ndigits 10 x))"

lemma digit_loop_decimal:
  fixes x :: uint
  shows "rev (digit_loop kdigits 16 10 x) = decimal (unat x)" "rev (digit_loop udigits 16 10 x) = decimal (unat x)"
proof -
  have "unat x < 10 ^ 10" using unsigned_less [of x, where 'a = nat] by simp
  then have "ndigits 16 (unat x) = ndigits 10 (unat x)" by (intro ndigits_enough) simp_all
  then show "rev (digit_loop kdigits 16 10 x) = decimal (unat x)" "rev (digit_loop udigits 16 10 x) = decimal (unat x)"
    by (simp_all add: digit_loop_ndigits digits_ok decimal_def rev_map)
qed

lemma atoi_decimal: "x < 2 ^ 32 \<Longrightarrow> atoi (decimal x) = of_nat x"
  using dval_ndigits [of x 10] atoi_loop_digits [of "rev (ndigits 10 x)" 0] ndigits_digit [of _ 10 x]
  by (simp add: atoi_def decimal_def)


end
