(* ===== verification/Log.thy ===== *)
theory Log
  imports Bio Format
begin

text \<open>
  The write-ahead log (\<open>log.c\<close>) and the super block (\<open>fs.h\<close>, \<open>readsb\<close> of \<open>fs.c\<close>). Blocks are lists
  of bytes; the integers in them are little endian. \<open>begin_op\<close> takes what other threads do during
  each of its sleeps.
\<close>

section \<open>Integers in blocks\<close>

definition rd16 :: "block \<Rightarrow> nat \<Rightarrow> ushort" where
  "rd16 bs i = ucast (bs ! i) OR push_bit 8 (ucast (bs ! (i + 1)))"

definition wr16 :: "block \<Rightarrow> nat \<Rightarrow> ushort \<Rightarrow> block" where
  "wr16 bs i v = bs[i := ucast v, i + 1 := ucast (drop_bit 8 v)]"

definition rd32 :: "block \<Rightarrow> nat \<Rightarrow> uint" where
  "rd32 bs i = ucast (bs ! i) OR push_bit 8 (ucast (bs ! (i + 1)))
     OR push_bit 16 (ucast (bs ! (i + 2))) OR push_bit 24 (ucast (bs ! (i + 3)))"

definition wr32 :: "block \<Rightarrow> nat \<Rightarrow> uint \<Rightarrow> block" where
  "wr32 bs i v = bs[i := ucast v, i + 1 := ucast (drop_bit 8 v),
     i + 2 := ucast (drop_bit 16 v), i + 3 := ucast (drop_bit 24 v)]"

section \<open>The super block\<close>

record superblock =
  sb_size :: uint
  sb_nblocks :: uint
  sb_ninodes :: uint
  sb_nlog :: uint
  sb_logstart :: uint
  sb_inodestart :: uint
  sb_bmapstart :: uint

definition superblock_of :: "block \<Rightarrow> superblock" where
  "superblock_of bs =
     \<lparr>sb_size = rd32 bs 0, sb_nblocks = rd32 bs 4, sb_ninodes = rd32 bs 8, sb_nlog = rd32 bs 12,
      sb_logstart = rd32 bs 16, sb_inodestart = rd32 bs 20, sb_bmapstart = rd32 bs 24\<rparr>"

definition readsb :: "uint \<Rightarrow> ('z bcache_scheme, superblock) kern" where
  "readsb dev =
     kbind (bread dev 1) (\<lambda>bp.
     kbind (kget (\<lambda>s. superblock_of (bdata (bufs s ! bp)))) (\<lambda>sb. kseq [brelse bp] (kret sb)))"

section \<open>\<open>log.c\<close>\<close>

definition LOGSIZE :: nat where "LOGSIZE = MAXOPBLOCKS * 3"

record logs = bcache +
  lstart :: uint
  lsize :: int
  outstanding :: int
  committing :: int
  ldev :: uint
  lh_n :: int
  lh_block :: "uint list"

definition sizeof_logheader :: nat where "sizeof_logheader = 4 + 4 * LOGSIZE"

definition set_bdata :: "nat \<Rightarrow> (block \<Rightarrow> block) \<Rightarrow> ('z bcache_scheme, unit) kern" where
  "set_bdata b f = kmod (upd_buf b (\<lambda>p. p\<lparr>bdata := f (bdata p)\<rparr>))"

text \<open>The body of the loop in \<open>install_trans\<close>, and the loop.\<close>

definition install_block :: "nat \<Rightarrow> ('z logs_scheme, unit) kern" where
  "install_block tail =
     kbind (\<lambda>s. bread (ldev s) (lstart s + of_nat tail + 1) s) (\<lambda>lbuf.
     kbind (\<lambda>s. bread (ldev s) (lh_block s ! tail) s) (\<lambda>dbuf. kseq
       [(\<lambda>s. set_bdata dbuf (\<lambda>_. bdata (bufs s ! lbuf)) s),
        bwrite dbuf,
        brelse lbuf,
        brelse dbuf]
       (kret ())))"

definition install_trans :: "('z logs_scheme, unit) kern" where
  "install_trans = (\<lambda>s. kfor [0..<nat (lh_n s)] install_block s)"

definition read_head :: "('z logs_scheme, unit) kern" where
  "read_head =
     kbind (\<lambda>s. bread (ldev s) (lstart s) s) (\<lambda>buf. kseq
       [kmod (\<lambda>s. s\<lparr>lh_n := sint (rd32 (bdata (bufs s ! buf)) 0)\<rparr>),
        (\<lambda>s. kfor [0..<nat (lh_n s)] (\<lambda>i.
          kmod (\<lambda>s. s\<lparr>lh_block := (lh_block s)[i := rd32 (bdata (bufs s ! buf)) (4 + 4 * i)]\<rparr>)) s),
        brelse buf]
       (kret ()))"

definition write_head :: "('z logs_scheme, unit) kern" where
  "write_head =
     kbind (\<lambda>s. bread (ldev s) (lstart s) s) (\<lambda>buf. kseq
       [(\<lambda>s. set_bdata buf (\<lambda>d. wr32 d 0 (word_of_int (lh_n s))) s),
        (\<lambda>s. kfor [0..<nat (lh_n s)] (\<lambda>i.
          (\<lambda>s. set_bdata buf (\<lambda>d. wr32 d (4 + 4 * i) (lh_block s ! i)) s)) s),
        bwrite buf,
        brelse buf]
       (kret ()))"

definition recover_from_log :: "('z logs_scheme, unit) kern" where
  "recover_from_log = kseq
     [read_head,
      install_trans,
      kmod (\<lambda>s. s\<lparr>lh_n := 0\<rparr>),
      write_head]
     (kret ())"

definition initlog :: "uint \<Rightarrow> ('z logs_scheme, unit) kern" where
  "initlog dev =
     kbind (kassert (\<lambda>s. \<not> sizeof_logheader \<ge> BSIZE) ''initlog: too big logheader'') (\<lambda>_.
     kbind (initlock LogLock ''log'') (\<lambda>_.
     kbind (readsb dev) (\<lambda>sb. kseq
       [kmod (\<lambda>s. s\<lparr>lstart := sb_logstart sb\<rparr>),
        kmod (\<lambda>s. s\<lparr>lsize := sint (sb_nlog sb)\<rparr>),
        kmod (\<lambda>s. s\<lparr>ldev := dev\<rparr>),
        recover_from_log]
       (kret ()))))"

fun begin_op_loop :: "('z logs_scheme \<Rightarrow> 'z logs_scheme) list \<Rightarrow> ('z logs_scheme, unit) kern" where
  "begin_op_loop envs =
     kcond (\<lambda>s. committing s \<noteq> 0 \<or> lh_n s + (outstanding s + 1) * int MAXOPBLOCKS > int LOGSIZE)
       (case envs of
          [] \<Rightarrow> sleep_forever Ch_log LogLock
        | e # es \<Rightarrow> kbind (sleep e Ch_log LogLock) (\<lambda>_. begin_op_loop es))
       (kseq
          [kmod (\<lambda>s. s\<lparr>outstanding := outstanding s + 1\<rparr>),
           release LogLock]
          (kret ()))"

definition begin_op :: "('z logs_scheme \<Rightarrow> 'z logs_scheme) list \<Rightarrow> ('z logs_scheme, unit) kern" where
  "begin_op envs = kbind (acquire LogLock) (\<lambda>_. begin_op_loop envs)"

definition log_block :: "nat \<Rightarrow> ('z logs_scheme, unit) kern" where
  "log_block tail =
     kbind (\<lambda>s. bread (ldev s) (lstart s + of_nat tail + 1) s) (\<lambda>dst.
     kbind (\<lambda>s. bread (ldev s) (lh_block s ! tail) s) (\<lambda>src. kseq
       [(\<lambda>s. set_bdata dst (\<lambda>_. bdata (bufs s ! src)) s),
        bwrite dst,
        brelse src,
        brelse dst]
       (kret ())))"

definition write_log :: "('z logs_scheme, unit) kern" where
  "write_log = (\<lambda>s. kfor [0..<nat (lh_n s)] log_block s)"

definition commit :: "('z logs_scheme, unit) kern" where
  "commit = kif (\<lambda>s. lh_n s > 0)
     (kseq
        [write_log,
         write_head,
         install_trans,
         kmod (\<lambda>s. s\<lparr>lh_n := 0\<rparr>),
         write_head]
        (kret ()))"

definition end_op :: "('z logs_scheme, unit) kern" where
  "end_op =
     kbind (acquire LogLock) (\<lambda>_.
     kbind (kmod (\<lambda>s. s\<lparr>outstanding := outstanding s - 1\<rparr>)) (\<lambda>_.
     kbind (kassert (\<lambda>s. \<not> committing s \<noteq> 0) ''log.committing'') (\<lambda>_.
     kbind (kget (\<lambda>s. outstanding s = 0)) (\<lambda>do_commit. kseq
       [if do_commit then kmod (\<lambda>s. s\<lparr>committing := 1\<rparr>) else wakeup Ch_log,
        release LogLock,
        if do_commit then kseq
          [commit,
           acquire LogLock,
           kmod (\<lambda>s. s\<lparr>committing := 0\<rparr>),
           wakeup Ch_log,
           release LogLock]
          (kret ())
        else kret ()]
       (kret ())))))"

text \<open>The index \<open>log_write\<close> stores to: that of the block if it is in the log already, else the next.\<close>

fun absorb :: "uint list \<Rightarrow> nat \<Rightarrow> uint \<Rightarrow> nat" where
  "absorb bs 0 bno = 0"
| "absorb [] (Suc n) bno = Suc n"
| "absorb (b # bs) (Suc n) bno = (if b = bno then 0 else Suc (absorb bs n bno))"

definition log_write :: "nat \<Rightarrow> ('z logs_scheme, unit) kern" where
  "log_write b = kseq
     [kassert (\<lambda>s. \<not> (lh_n s \<ge> int LOGSIZE \<or> lh_n s \<ge> lsize s - 1)) ''too big a transaction'',
      kassert (\<lambda>s. \<not> outstanding s < 1) ''log_write outside of trans'',
      acquire LogLock,
      kmod (\<lambda>s.
        let i = absorb (lh_block s) (nat (lh_n s)) (blockno (bufs s ! b)) in
        s\<lparr>lh_block := (lh_block s)[i := blockno (bufs s ! b)],
          lh_n := (if int i = lh_n s then lh_n s + 1 else lh_n s)\<rparr>),
      kmod (upd_buf b (\<lambda>p. p\<lparr>flags := flags p OR B_DIRTY\<rparr>)),
      release LogLock]
     (kret ())"

end
