(* ===== verification/Inode.thy ===== *)
theory Inode
  imports Log
begin

text \<open>
  The lower half of \<open>fs.c\<close>: disk blocks and their bitmap, the inode cache, and the block list of an
  inode. An in-memory inode is named by its index in \<open>icache.inode\<close>; a null pointer is \<open>None\<close>.
\<close>

section \<open>\<open>fs.h\<close>, \<open>file.h\<close>\<close>

definition NDIRECT :: nat where "NDIRECT = 12"

definition NINDIRECT :: nat where "NINDIRECT = BSIZE div 4"

definition MAXFILE :: nat where "MAXFILE = NDIRECT + NINDIRECT"

definition NINODE :: nat where "NINODE = 50"

definition ROOTDEV :: uint where "ROOTDEV = 1"

definition ROOTINO :: uint where "ROOTINO = 1"

definition T_DIR :: ushort where "T_DIR = 1"

definition T_FILE :: ushort where "T_FILE = 2"

definition T_DEV :: ushort where "T_DEV = 3"

definition I_VALID :: uint where "I_VALID = 0x2"

record dinode =
  itype :: ushort
  major :: ushort
  minor :: ushort
  nlink :: ushort
  isize :: uint
  addrs :: "uint list"

record inode = dinode +
  idev :: uint
  inum :: uint
  iref :: int
  iflags :: uint

definition sizeof_dinode :: nat where "sizeof_dinode = 64"

definition IPB :: nat where "IPB = BSIZE div sizeof_dinode"

definition IBLOCK :: "uint \<Rightarrow> superblock \<Rightarrow> uint" where
  "IBLOCK i sb = i div of_nat IPB + sb_inodestart sb"

definition BPB :: nat where "BPB = BSIZE * 8"

definition BBLOCK :: "uint \<Rightarrow> superblock \<Rightarrow> uint" where
  "BBLOCK b sb = b div of_nat BPB + sb_bmapstart sb"

text \<open>The disk inode at byte offset \<open>o\<close> of a block: its fields read and written.\<close>

definition dinode_at :: "block \<Rightarrow> nat \<Rightarrow> dinode" where
  "dinode_at bs k =
     \<lparr>itype = rd16 bs k, major = rd16 bs (k + 2), minor = rd16 bs (k + 4), nlink = rd16 bs (k + 6),
      isize = rd32 bs (k + 8), addrs = map (\<lambda>j. rd32 bs (k + 12 + 4 * j)) [0..<NDIRECT + 1]\<rparr>"

definition put_dinode :: "block \<Rightarrow> nat \<Rightarrow> 'z dinode_scheme \<Rightarrow> block" where
  "put_dinode bs k d =
     foldl (\<lambda>b j. wr32 b (k + 12 + 4 * j) (addrs d ! j))
       (wr32 (wr16 (wr16 (wr16 (wr16 bs k (itype d)) (k + 2) (major d)) (k + 4) (minor d)) (k + 6) (nlink d))
          (k + 8) (isize d))
       [0..<NDIRECT + 1]"

definition inode_off :: "uint \<Rightarrow> nat" where
  "inode_off i = unat (i mod of_nat IPB) * sizeof_dinode"

record fss = logs +
  sb :: superblock
  icache :: "inode list"

definition upd_inode :: "nat \<Rightarrow> (inode \<Rightarrow> inode) \<Rightarrow> 'z fss_scheme \<Rightarrow> 'z fss_scheme" where
  "upd_inode ip f s = s\<lparr>icache := (icache s)[ip := f (icache s ! ip)]\<rparr>"

section \<open>Blocks\<close>

definition bzero :: "uint \<Rightarrow> uint \<Rightarrow> ('z fss_scheme, unit) kern" where
  "bzero dev bno =
     kbind (bread dev bno) (\<lambda>bp. kseq
       [set_bdata bp (\<lambda>_. replicate BSIZE 0),
        log_write bp,
        brelse bp]
       (kret ()))"

text \<open>The bit of block \<open>b + bi\<close> in its bitmap block.\<close>

definition bit_free :: "block \<Rightarrow> nat \<Rightarrow> bool" where
  "bit_free d bi \<longleftrightarrow> (d ! (bi div 8)) AND push_bit (bi mod 8) 1 = 0"

definition set_bit :: "nat \<Rightarrow> block \<Rightarrow> block" where
  "set_bit bi d = d[bi div 8 := (d ! (bi div 8)) OR push_bit (bi mod 8) 1]"

definition clear_bit :: "nat \<Rightarrow> block \<Rightarrow> block" where
  "clear_bit bi d = d[bi div 8 := (d ! (bi div 8)) AND NOT (push_bit (bi mod 8) 1)]"

definition balloc_body :: "uint \<Rightarrow> nat \<Rightarrow> ('z fss_scheme, nat + uint) kern" where
  "balloc_body dev b =
     kcond (\<lambda>s. \<not> b < unat (sb_size (sb s)))
       (kpanic ''balloc: out of blocks'')
       (kbind (\<lambda>s. bread dev (BBLOCK (of_nat b) (sb s)) s) (\<lambda>bp.
        kbind (kget (\<lambda>s. find (\<lambda>bi. b + bi < unat (sb_size (sb s)) \<and> bit_free (bdata (bufs s ! bp)) bi) [0..<BPB])) (\<lambda>r.
        case r of
          Some bi \<Rightarrow> kseq
            [set_bdata bp (set_bit bi),
             log_write bp,
             brelse bp,
             bzero dev (of_nat (b + bi))]
            (kret (Inr (of_nat (b + bi))))
        | None \<Rightarrow> kseq [brelse bp] (kret (Inl (b + BPB))))))"

text \<open>A file system of \<open>2 ^ 32\<close> blocks has \<open>2 ^ 20\<close> bitmap blocks; one more round finds the end.\<close>

definition balloc :: "uint \<Rightarrow> ('z fss_scheme, uint) kern" where
  "balloc dev = kloop (2 ^ 20 + 1) (balloc_body dev) 0"

definition bfree :: "uint \<Rightarrow> uint \<Rightarrow> ('z fss_scheme, unit) kern" where
  "bfree dev b =
     kbind (readsb dev) (\<lambda>sb'.
     kbind (kmod (\<lambda>s. s\<lparr>sb := sb'\<rparr>)) (\<lambda>_.
     kbind (\<lambda>s. bread dev (BBLOCK b (sb s)) s) (\<lambda>bp.
       let bi = unat b mod BPB in kseq
         [kassert (\<lambda>s. \<not> bit_free (bdata (bufs s ! bp)) bi) ''freeing free block'',
          set_bdata bp (clear_bit bi),
          log_write bp,
          brelse bp]
         (kret ()))))"

section \<open>Inodes\<close>

definition iinit :: "uint \<Rightarrow> ('z fss_scheme, unit) kern" where
  "iinit dev =
     kbind (initlock IcacheLock ''icache'') (\<lambda>_.
     kbind (kfor [0..<NINODE] (\<lambda>i. initsleeplock (InodeLock i) ''inode'')) (\<lambda>_.
     kbind (readsb dev) (\<lambda>sb'. kseq
       [kmod (\<lambda>s. s\<lparr>sb := sb'\<rparr>),
        kprint (cprintf_str (\<lambda>_. [])
          (\<lambda>k. [sb_size sb', sb_nblocks sb', sb_ninodes sb', sb_nlog sb', sb_logstart sb', sb_inodestart sb',
                sb_bmapstart sb'] ! k)
          ''sb: size %d nblocks %d ninodes %d nlog %d logstart %d inodestart %d bmap start %d'')]
       (kret ()))))"

definition iget :: "uint \<Rightarrow> uint \<Rightarrow> ('z fss_scheme, nat) kern" where
  "iget dev i =
     kbind (acquire IcacheLock) (\<lambda>_.
     kbind (kget (\<lambda>s. find_index (\<lambda>p. iref p > 0 \<and> idev p = dev \<and> inum p = i) (icache s))) (\<lambda>r.
     case r of
       Some ip \<Rightarrow> kseq
         [kmod (upd_inode ip (\<lambda>p. p\<lparr>iref := iref p + 1\<rparr>)),
          release IcacheLock]
         (kret ip)
     | None \<Rightarrow>
         kbind (kget (\<lambda>s. find_index (\<lambda>p. iref p = 0) (icache s))) (\<lambda>e.
         case e of
           None \<Rightarrow> kpanic ''iget: no inodes''
         | Some ip \<Rightarrow> kseq
             [kmod (upd_inode ip (\<lambda>p. p\<lparr>idev := dev\<rparr>)),
              kmod (upd_inode ip (\<lambda>p. p\<lparr>inum := i\<rparr>)),
              kmod (upd_inode ip (\<lambda>p. p\<lparr>iref := 1\<rparr>)),
              kmod (upd_inode ip (\<lambda>p. p\<lparr>iflags := 0\<rparr>)),
              release IcacheLock]
             (kret ip))))"

definition ialloc_body :: "uint \<Rightarrow> ushort \<Rightarrow> uint \<Rightarrow> ('z fss_scheme, uint + nat) kern" where
  "ialloc_body dev ty i =
     kcond (\<lambda>s. \<not> i < sb_ninodes (sb s))
       (kpanic ''ialloc: no inodes'')
       (kbind (\<lambda>s. bread dev (IBLOCK i (sb s)) s) (\<lambda>bp.
        kcond (\<lambda>s. itype (dinode_at (bdata (bufs s ! bp)) (inode_off i)) = 0)
          (kseq
             [set_bdata bp (\<lambda>d. take (inode_off i) d @ replicate sizeof_dinode 0 @ drop (inode_off i + sizeof_dinode) d),
              set_bdata bp (\<lambda>d. wr16 d (inode_off i) ty),
              log_write bp,
              brelse bp]
             (kbind (iget dev i) (\<lambda>ip. kret (Inr ip))))
          (kseq [brelse bp] (kret (Inl (i + 1))))))"

definition ialloc :: "uint \<Rightarrow> ushort \<Rightarrow> ('z fss_scheme, nat) kern" where
  "ialloc dev ty = kloop (2 ^ 32) (ialloc_body dev ty) 1"

definition iupdate :: "nat \<Rightarrow> ('z fss_scheme, unit) kern" where
  "iupdate ip =
     kbind (kget (\<lambda>s. icache s ! ip)) (\<lambda>p.
     kbind (\<lambda>s. bread (idev p) (IBLOCK (inum p) (sb s)) s) (\<lambda>bp. kseq
       [set_bdata bp (\<lambda>d. put_dinode d (inode_off (inum p)) p),
        log_write bp,
        brelse bp]
       (kret ())))"

definition idup :: "nat \<Rightarrow> ('z fss_scheme, nat) kern" where
  "idup ip = kseq
     [acquire IcacheLock,
      kmod (upd_inode ip (\<lambda>p. p\<lparr>iref := iref p + 1\<rparr>)),
      release IcacheLock]
     (kret ip)"

definition ilock :: "nat \<Rightarrow> ('z fss_scheme, unit) kern" where
  "ilock ip = kseq
     [kassert (\<lambda>s. \<not> iref (icache s ! ip) < 1) ''ilock'',
      acquiresleep [] (InodeLock ip),
      kif (\<lambda>s. iflags (icache s ! ip) AND I_VALID = 0)
        (kbind (kget (\<lambda>s. icache s ! ip)) (\<lambda>p.
         kbind (\<lambda>s. bread (idev p) (IBLOCK (inum p) (sb s)) s) (\<lambda>bp. kseq
           [kmod (\<lambda>s.
              let d = dinode_at (bdata (bufs s ! bp)) (inode_off (inum p)) in
              upd_inode ip (\<lambda>p. p\<lparr>itype := itype d, major := major d, minor := minor d, nlink := nlink d,
                isize := isize d, addrs := addrs d\<rparr>) s),
            brelse bp,
            kmod (upd_inode ip (\<lambda>p. p\<lparr>iflags := iflags p OR I_VALID\<rparr>)),
            kassert (\<lambda>s. \<not> itype (icache s ! ip) = 0) ''ilock: no type'']
           (kret ()))))]
     (kret ())"

definition iunlock :: "nat \<Rightarrow> ('z fss_scheme, unit) kern" where
  "iunlock ip =
     kbind (holdingsleep (InodeLock ip)) (\<lambda>h. kseq
       [kassert (\<lambda>s. \<not> (h = 0 \<or> iref (icache s ! ip) < 1)) ''iunlock'',
        releasesleep (InodeLock ip)]
       (kret ()))"

section \<open>The blocks of an inode\<close>

definition bmap :: "nat \<Rightarrow> uint \<Rightarrow> ('z fss_scheme, uint) kern" where
  "bmap ip bn =
     kbind (kget (\<lambda>s. idev (icache s ! ip))) (\<lambda>dev.
     if bn < of_nat NDIRECT then
       kbind (kget (\<lambda>s. addrs (icache s ! ip) ! unat bn)) (\<lambda>addr.
       if addr \<noteq> 0 then kret addr
       else kbind (balloc dev) (\<lambda>addr. kseq
         [kmod (upd_inode ip (\<lambda>p. p\<lparr>addrs := (addrs p)[unat bn := addr]\<rparr>))]
         (kret addr)))
     else if bn - of_nat NDIRECT < of_nat NINDIRECT then
       let bn' = unat (bn - of_nat NDIRECT) in
       kbind (kget (\<lambda>s. addrs (icache s ! ip) ! NDIRECT)) (\<lambda>addr.
       kbind (if addr \<noteq> 0 then kret addr
              else kbind (balloc dev) (\<lambda>addr. kseq
                [kmod (upd_inode ip (\<lambda>p. p\<lparr>addrs := (addrs p)[NDIRECT := addr]\<rparr>))]
                (kret addr))) (\<lambda>ind.
       kbind (bread dev ind) (\<lambda>bp.
       kbind (kget (\<lambda>s. rd32 (bdata (bufs s ! bp)) (4 * bn'))) (\<lambda>addr.
       kbind (if addr \<noteq> 0 then kret addr
              else kbind (balloc dev) (\<lambda>addr. kseq
                [set_bdata bp (\<lambda>d. wr32 d (4 * bn') addr),
                 log_write bp]
                (kret addr))) (\<lambda>addr. kseq [brelse bp] (kret addr))))))
     else kpanic ''bmap: out of range'')"

definition itrunc :: "nat \<Rightarrow> ('z fss_scheme, unit) kern" where
  "itrunc ip =
     kbind (kget (\<lambda>s. idev (icache s ! ip))) (\<lambda>dev. kseq
       [kfor [0..<NDIRECT] (\<lambda>i.
          kbind (kget (\<lambda>s. addrs (icache s ! ip) ! i)) (\<lambda>a.
          if a \<noteq> 0 then kseq
            [bfree dev a,
             kmod (upd_inode ip (\<lambda>p. p\<lparr>addrs := (addrs p)[i := 0]\<rparr>))]
            (kret ())
          else kret ())),
        kbind (kget (\<lambda>s. addrs (icache s ! ip) ! NDIRECT)) (\<lambda>ind.
          if ind \<noteq> 0 then
            kbind (bread dev ind) (\<lambda>bp. kseq
              [kfor [0..<NINDIRECT] (\<lambda>j.
                 kbind (kget (\<lambda>s. rd32 (bdata (bufs s ! bp)) (4 * j))) (\<lambda>a.
                 if a \<noteq> 0 then bfree dev a else kret ())),
               brelse bp,
               (\<lambda>s. bfree dev (addrs (icache s ! ip) ! NDIRECT) s),
               kmod (upd_inode ip (\<lambda>p. p\<lparr>addrs := (addrs p)[NDIRECT := 0]\<rparr>))]
              (kret ()))
          else kret ()),
        kmod (upd_inode ip (\<lambda>p. p\<lparr>isize := 0\<rparr>)),
        iupdate ip]
       (kret ()))"

definition iput :: "nat \<Rightarrow> ('z fss_scheme, unit) kern" where
  "iput ip = kseq
     [acquire IcacheLock,
      kif (\<lambda>s. iref (icache s ! ip) = 1 \<and> iflags (icache s ! ip) AND I_VALID \<noteq> 0 \<and> nlink (icache s ! ip) = 0)
        (kseq
           [release IcacheLock,
            itrunc ip,
            kmod (upd_inode ip (\<lambda>p. p\<lparr>itype := 0\<rparr>)),
            iupdate ip,
            acquire IcacheLock,
            kmod (upd_inode ip (\<lambda>p. p\<lparr>iflags := 0\<rparr>))]
           (kret ())),
      kmod (upd_inode ip (\<lambda>p. p\<lparr>iref := iref p - 1\<rparr>)),
      release IcacheLock]
     (kret ())"

definition iunlockput :: "nat \<Rightarrow> ('z fss_scheme, unit) kern" where
  "iunlockput ip = kseq [iunlock ip, iput ip] (kret ())"

definition stati :: "nat \<Rightarrow> 'z fss_scheme \<Rightarrow> ushort \<times> uint \<times> uint \<times> ushort \<times> uint" where
  "stati ip s =
     (let p = icache s ! ip in (itype p, idev p, inum p, nlink p, isize p))"

end
