(* ===== verification/Console.thy ===== *)
theory Console
  imports Inode
begin

text \<open>
  The console (\<open>console.c\<close>): output to the screen and the serial line, the input line buffer, the
  device routines \<open>consoleread\<close> and \<open>consolewrite\<close>, and \<open>procdump\<close> (\<open>proc.c\<close>).

  The cursor register of the screen controller and the screen memory are state; so is the list of
  bytes sent to the serial port. A C string at an address is read by the parameter \<open>str\<close>.
\<close>

section \<open>State\<close>

definition INPUT_BUF :: uint where "INPUT_BUF = 128"

definition BACKSPACE :: int where "BACKSPACE = 0x100"

definition CTRL :: "char \<Rightarrow> int" where "CTRL x = of_char x - of_char CHR ''@''"

record cons = fss +
  locking :: int
  panicked :: bool
  crt :: "nat \<Rightarrow> ushort"
  crtpos :: int
  uart :: bool
  uartout :: "int list"
  in_buf :: "uchar list"
  in_r :: uint
  in_w :: uint
  in_e :: uint
  devsw :: "nat \<Rightarrow> bool"

section \<open>Output\<close>

definition uartputc :: "int \<Rightarrow> ('z cons_scheme, unit) kern" where
  "uartputc c = kif uart (kmod (\<lambda>s. s\<lparr>uartout := uartout s @ [c]\<rparr>))"

definition cga_move :: "int \<Rightarrow> int \<Rightarrow> int" where
  "cga_move c pos =
     (if c = 10 then pos + 80 - pos mod 80
      else if c = BACKSPACE then (if pos > 0 then pos - 1 else pos)
      else pos + 1)"

definition cga_scroll :: "int \<Rightarrow> (nat \<Rightarrow> ushort) \<Rightarrow> (nat \<Rightarrow> ushort)" where
  "cga_scroll pos m =
     (let m1 = (\<lambda>i. if i < 23 * 80 then m (i + 80) else m i) in
      (\<lambda>i. if nat (pos - 80) \<le> i \<and> i < 24 * 80 then 0 else m1 i))"

definition cgaputc :: "int \<Rightarrow> ('z cons_scheme, unit) kern" where
  "cgaputc c =
     kbind (kget crtpos) (\<lambda>pos0. kseq
       [kif (\<lambda>s. c \<noteq> 10 \<and> c \<noteq> BACKSPACE)
          (kmod (\<lambda>s. s\<lparr>crt := (crt s)(nat pos0 := word_of_int (c mod 256) OR 0x0700)\<rparr>)),
        kassert (\<lambda>s. \<not> (cga_move c pos0 < 0 \<or> cga_move c pos0 > 25 * 80)) ''pos under/overflow'',
        kcond (\<lambda>s. cga_move c pos0 div 80 \<ge> 24)
          (kmod (\<lambda>s. s\<lparr>crt := cga_scroll (cga_move c pos0) (crt s), crtpos := cga_move c pos0 - 80\<rparr>))
          (kmod (\<lambda>s. s\<lparr>crtpos := cga_move c pos0\<rparr>)),
        kmod (\<lambda>s. s\<lparr>crt := (crt s)(nat (crtpos s) := 0x20 OR 0x0700)\<rparr>)]
       (kret ()))"

definition consputc :: "int \<Rightarrow> ('z cons_scheme, unit) kern" where
  "consputc c =
     kcond panicked
       (kseq [cli] (\<lambda>s. Blocked s))
       (kseq
          [if c = BACKSPACE then kseq [uartputc 8, uartputc 32, uartputc 8] (kret ()) else uartputc c,
           cgaputc c]
          (kret ()))"

definition cputs :: "string \<Rightarrow> ('z cons_scheme, unit) kern" where
  "cputs cs = kfor cs (\<lambda>c. consputc (of_char c))"

definition cprintf :: "(uint \<Rightarrow> string) \<Rightarrow> (nat \<Rightarrow> uint) \<Rightarrow> string \<Rightarrow> ('z cons_scheme, unit) kern" where
  "cprintf str args fmt =
     kbind (kget locking) (\<lambda>lck. kseq
       [if lck \<noteq> 0 then acquire ConsLock else kret (),
        cputs (cprintf_str str args fmt),
        if lck \<noteq> 0 then release ConsLock else kret ()]
       (kret ()))"

text \<open>\<open>panic\<close> ends in an endless loop with all other CPUs frozen at their next output.\<close>

definition panic :: "(uint \<Rightarrow> string) \<Rightarrow> string \<Rightarrow> uint \<Rightarrow> ('z cons_scheme, 'a) kern" where
  "panic str msg sp = kseq
     [cli,
      kmod (\<lambda>s. s\<lparr>locking := 0\<rparr>),
      (\<lambda>s. cprintf str (\<lambda>_. ucast (apicid (mycpu s))) ''cpu with apicid %d: panic: '' s),
      cprintf str (\<lambda>_. 0) msg,
      cprintf str (\<lambda>_. 0) ''\<newline>'',
      (\<lambda>s. kfor (getcallerpcs (mem s) sp) (\<lambda>pc. cprintf str (\<lambda>_. pc) '' %p'') s),
      kmod (\<lambda>s. s\<lparr>panicked := True\<rparr>)]
     (\<lambda>s. Blocked s)"

section \<open>\<open>procdump\<close>\<close>

definition state_name :: "procstate \<Rightarrow> string" where
  "state_name x = (case x of
       UNUSED \<Rightarrow> ''unused'' | EMBRYO \<Rightarrow> ''embryo'' | SLEEPING \<Rightarrow> ''sleep '' | RUNNABLE \<Rightarrow> ''runble''
     | RUNNING \<Rightarrow> ''run   '' | ZOMBIE \<Rightarrow> ''zombie'')"

definition procdump_proc :: "nat \<Rightarrow> ('z cons_scheme, unit) kern" where
  "procdump_proc i =
     kif (\<lambda>s. state (ptable s ! i) \<noteq> UNUSED) (kseq
       [(\<lambda>s. cprintf (\<lambda>a. if a = 1 then state_name (state (ptable s ! i)) else pname (ptable s ! i))
          (\<lambda>k. [word_of_int (pid (ptable s ! i)), 1, 2] ! k) ''%d %s %s'' s),
        kif (\<lambda>s. state (ptable s ! i) = SLEEPING)
          (\<lambda>s. kfor (takeWhile (\<lambda>pc. pc \<noteq> 0)
                 (getcallerpcs (mem s) (load32 (mem s) (pcontext (ptable s ! i) + 12) + 8)))
               (\<lambda>pc. cprintf (\<lambda>_. []) (\<lambda>_. pc) '' %p'') s),
        cprintf (\<lambda>_. []) (\<lambda>_. 0) ''\<newline>'']
       (kret ()))"

definition procdump :: "('z cons_scheme, unit) kern" where
  "procdump = (\<lambda>s. kfor [0..<length (ptable s)] procdump_proc s)"

definition hello :: "('z cons_scheme, unit) kern" where
  "hello = cprintf (\<lambda>_. []) (\<lambda>_. 0) ''\<newline>Hello!!!!!!! \<newline>''"

section \<open>Input\<close>

definition in_at :: "'z cons_scheme \<Rightarrow> uint \<Rightarrow> uchar" where
  "in_at s i = in_buf s ! unat (i mod INPUT_BUF)"

text \<open>Erasing the current line; at most \<open>INPUT_BUF\<close> characters can be unfinished.\<close>

primrec kill_line :: "nat \<Rightarrow> ('z cons_scheme, unit) kern" where
  "kill_line 0 = (\<lambda>s. Blocked s)"
| "kill_line (Suc n) =
     kcond (\<lambda>s. in_e s \<noteq> in_w s \<and> in_at s (in_e s - 1) \<noteq> 10)
       (kseq
          [kmod (\<lambda>s. s\<lparr>in_e := in_e s - 1\<rparr>),
           consputc BACKSPACE]
          (kill_line n))
       (kret ())"

definition cons_char :: "int \<Rightarrow> ('z cons_scheme, unit) kern" where
  "cons_char c0 =
     kif (\<lambda>s. c0 \<noteq> 0 \<and> in_e s - in_r s < INPUT_BUF)
       (let c = (if c0 = 13 then 10 else c0) in kseq
          [kmod (\<lambda>s. s\<lparr>in_buf := (in_buf s)[unat (in_e s mod INPUT_BUF) := word_of_int c], in_e := in_e s + 1\<rparr>),
           consputc c,
           kif (\<lambda>s. c = 10 \<or> c = CTRL CHR ''D'' \<or> in_e s = in_r s + INPUT_BUF)
             (kseq
                [kmod (\<lambda>s. s\<lparr>in_w := in_e s\<rparr>),
                 wakeup Ch_input]
                (kret ()))]
          (kret ()))"

text \<open>One round of the loop of \<open>consoleintr\<close>; the result says whether to dump the processes.\<close>

definition cons_intr_char :: "int \<Rightarrow> ('z cons_scheme, bool) kern" where
  "cons_intr_char c =
     (if c = CTRL CHR ''P'' then kret True
      else if c = CTRL CHR ''U'' then kseq [kill_line 129] (kret False)
      else if c = CTRL CHR ''H'' \<or> c = 0x7f then kseq
        [kif (\<lambda>s. in_e s \<noteq> in_w s)
           (kseq [kmod (\<lambda>s. s\<lparr>in_e := in_e s - 1\<rparr>), consputc BACKSPACE] (kret ()))]
        (kret False)
      else kseq [cons_char c] (kret False))"

text \<open>The values of successive calls of \<open>getc\<close> up to the first negative one are a parameter.\<close>

primrec consoleintr_loop :: "int list \<Rightarrow> bool \<Rightarrow> ('z cons_scheme, bool) kern" where
  "consoleintr_loop [] dump = kret dump"
| "consoleintr_loop (c # cs) dump = kbind (cons_intr_char c) (\<lambda>d. consoleintr_loop cs (dump \<or> d))"

definition consoleintr :: "int list \<Rightarrow> ('z cons_scheme, unit) kern" where
  "consoleintr cs =
     kbind (acquire ConsLock) (\<lambda>_.
     kbind (consoleintr_loop cs False) (\<lambda>dump. kseq
       [release ConsLock,
        if dump then procdump else kret ()]
       (kret ())))"

section \<open>The console device\<close>

text \<open>
  \<open>consoleread\<close> hands out the bytes it reads; the caller stores them. \<open>envs\<close> is what other threads do
  during each sleep. The loop returns the bytes and the count \<open>n\<close> that is left.
\<close>

function consoleread_loop ::
    "('z cons_scheme \<Rightarrow> 'z cons_scheme) list \<Rightarrow> nat \<Rightarrow> nat \<Rightarrow> uchar list \<Rightarrow> ('z cons_scheme, (uchar list \<times> nat) option) kern" where
  "consoleread_loop envs target 0 acc = kret (Some (acc, 0))"
| "consoleread_loop envs target (Suc n) acc =
     kcond (\<lambda>s. in_r s = in_w s)
       (kcond (\<lambda>s. killed (curproc s) \<noteq> 0)
          (kret None)
          (case envs of
             [] \<Rightarrow> sleep_forever Ch_input ConsLock
           | e # es \<Rightarrow> kbind (sleep e Ch_input ConsLock) (\<lambda>_. consoleread_loop es target (Suc n) acc)))
       (kbind (kget (\<lambda>s. in_at s (in_r s))) (\<lambda>c.
        kbind (kmod (\<lambda>s. s\<lparr>in_r := in_r s + 1\<rparr>)) (\<lambda>_.
        if uint c = CTRL CHR ''D'' then kseq
          [if Suc n < target then kmod (\<lambda>s. s\<lparr>in_r := in_r s - 1\<rparr>) else kret ()]
          (kret (Some (acc, Suc n)))
        else if c = 10 then kret (Some (acc @ [c], n))
        else consoleread_loop envs target n (acc @ [c]))))"
  by pat_completeness auto

termination
  by (relation "measures [\<lambda>(envs, target, n, acc). length envs + n]") auto

definition consoleread :: "('z cons_scheme \<Rightarrow> 'z cons_scheme) list \<Rightarrow> nat \<Rightarrow> nat \<Rightarrow> ('z cons_scheme, int \<times> uchar list) kern" where
  "consoleread envs ip n =
     kbind (iunlock ip) (\<lambda>_.
     kbind (acquire ConsLock) (\<lambda>_.
     kbind (consoleread_loop envs n n []) (\<lambda>r. kseq
       [release ConsLock,
        ilock ip]
       (kret (case r of None \<Rightarrow> (- 1, []) | Some (bs, m) \<Rightarrow> (int (n - m), bs))))))"

definition consolewrite :: "nat \<Rightarrow> uchar list \<Rightarrow> ('z cons_scheme, int) kern" where
  "consolewrite ip bs = kseq
     [iunlock ip,
      acquire ConsLock,
      kfor bs (\<lambda>c. consputc (uint c)),
      release ConsLock,
      ilock ip]
     (kret (int (length bs)))"

end
