(* ===== verification/Fs.thy ===== *)
theory Fs
  imports Console
begin

text \<open>
  The upper half of \<open>fs.c\<close>: reading and writing the contents of inodes, directories, and path names.

  \<open>readi\<close> returns the bytes it copies to \<open>dst\<close> together with its result, \<open>writei\<close> takes the bytes at
  \<open>src\<close>; the callers say where they come from and go to. A path is the list of its bytes without
  the final NUL, and so is a path element, cut at \<open>DIRSIZ\<close> bytes.
\<close>

section \<open>Inode content\<close>

definition NDEV :: nat where "NDEV = 10"

definition dev_ok :: "nat \<Rightarrow> 'z cons_scheme \<Rightarrow> bool" where
  "dev_ok ip s \<longleftrightarrow> \<not> (sint (major (icache s ! ip)) < 0 \<or> sint (major (icache s ! ip)) \<ge> int NDEV \<or>
     \<not> devsw s (unat (major (icache s ! ip))))"

text \<open>The part of a request that lies in one block.\<close>

definition chunk_len :: "uint \<Rightarrow> uint \<Rightarrow> uint \<Rightarrow> uint" where
  "chunk_len n tot off =
     (let a = n - tot; b = of_nat BSIZE - off mod of_nat BSIZE in if a < b then a else b)"

definition readi_body :: "nat \<Rightarrow> uint \<Rightarrow> uint \<times> uint \<times> uchar list \<Rightarrow> ('z cons_scheme, uint \<times> uint \<times> uchar list + uchar list) kern" where
  "readi_body ip n = (\<lambda>(tot, off, acc).
     if \<not> tot < n then kret (Inr acc)
     else
       kbind (bmap ip (off div of_nat BSIZE)) (\<lambda>a.
       kbind (\<lambda>s. bread (idev (icache s ! ip)) a s) (\<lambda>bp.
         let m = chunk_len n tot off in
         kbind (kget (\<lambda>s. take (unat m) (drop (unat (off mod of_nat BSIZE)) (bdata (bufs s ! bp))))) (\<lambda>bs. kseq
           [brelse bp]
           (kret (Inl (tot + m, off + m, acc @ bs)))))))"

text \<open>Each round but the first starts at a block boundary: \<open>2 ^ 23 + 2\<close> rounds cover any length.\<close>

definition io_rounds :: nat where "io_rounds = 2 ^ 23 + 2"

definition readi :: "nat \<Rightarrow> uint \<Rightarrow> uint \<Rightarrow> ('z cons_scheme, int \<times> uchar list) kern" where
  "readi ip off n =
     kcond (\<lambda>s. itype (icache s ! ip) = T_DEV)
       (kcond (dev_ok ip) (consoleread [] ip (nat (sint n))) (kret (- 1, [])))
       (kbind (kget (\<lambda>s. isize (icache s ! ip))) (\<lambda>sz0.
        if off > sz0 \<or> off + n < off then kret (- 1, [])
        else
          let n' = (if off + n > sz0 then sz0 - off else n) in
          kbind (kloop io_rounds (readi_body ip n') (0, off, [])) (\<lambda>bs. kret (sint n', bs))))"

definition writei_body :: "nat \<Rightarrow> uint \<Rightarrow> uchar list \<Rightarrow> uint \<times> uint \<Rightarrow> ('z cons_scheme, uint \<times> uint + uint) kern" where
  "writei_body ip n src = (\<lambda>(tot, off).
     if \<not> tot < n then kret (Inr off)
     else
       kbind (bmap ip (off div of_nat BSIZE)) (\<lambda>a.
       kbind (\<lambda>s. bread (idev (icache s ! ip)) a s) (\<lambda>bp.
         let m = chunk_len n tot off; k = unat (off mod of_nat BSIZE) in kseq
           [set_bdata bp (\<lambda>d. take k d @ take (unat m) (drop (unat tot) src) @ drop (k + unat m) d),
            log_write bp,
            brelse bp]
           (kret (Inl (tot + m, off + m))))))"

definition writei :: "nat \<Rightarrow> uchar list \<Rightarrow> uint \<Rightarrow> uint \<Rightarrow> ('z cons_scheme, int) kern" where
  "writei ip src off n =
     kcond (\<lambda>s. itype (icache s ! ip) = T_DEV)
       (kcond (dev_ok ip) (consolewrite ip (take (nat (sint n)) src)) (kret (- 1)))
       (kbind (kget (\<lambda>s. isize (icache s ! ip))) (\<lambda>sz0.
        if off > sz0 \<or> off + n < off then kret (- 1)
        else if off + n > of_nat (MAXFILE * BSIZE) then kret (- 1)
        else
          kbind (kloop io_rounds (writei_body ip n src) (0, off)) (\<lambda>off'. kseq
            [kif (\<lambda>s. n > 0 \<and> off' > isize (icache s ! ip))
               (kseq
                  [kmod (upd_inode ip (\<lambda>p. p\<lparr>isize := off'\<rparr>)),
                   iupdate ip]
                  (kret ()))]
            (kret (sint n)))))"

section \<open>Directories\<close>

definition DIRSIZ :: nat where "DIRSIZ = 14"

definition sizeof_dirent :: nat where "sizeof_dirent = 16"

definition de_inum :: "uchar list \<Rightarrow> ushort" where "de_inum de = rd16 de 0"

definition de_name :: "uchar list \<Rightarrow> uchar list" where "de_name de = take DIRSIZ (drop 2 de)"

definition byte0 :: "uchar list \<Rightarrow> uchar" where
  "byte0 s = (case s of [] \<Rightarrow> 0 | c # _ \<Rightarrow> c)"

text \<open>\<open>strncmp\<close> on strings that end with their list or at a NUL.\<close>

primrec strncmp_bytes :: "nat \<Rightarrow> uchar list \<Rightarrow> uchar list \<Rightarrow> int" where
  "strncmp_bytes 0 p q = 0"
| "strncmp_bytes (Suc n) p q =
     (if byte0 p \<noteq> 0 \<and> byte0 p = byte0 q then strncmp_bytes n (tl p) (tl q)
      else uint (byte0 p) - uint (byte0 q))"

definition namecmp :: "uchar list \<Rightarrow> uchar list \<Rightarrow> int" where
  "namecmp p q = strncmp_bytes DIRSIZ p q"

definition dirlookup_body :: "nat \<Rightarrow> uchar list \<Rightarrow> uint \<Rightarrow> ('z cons_scheme, uint + (nat \<times> uint) option) kern" where
  "dirlookup_body dp name off =
     kcond (\<lambda>s. \<not> off < isize (icache s ! dp))
       (kret (Inr None))
       (kbind (readi dp off (of_nat sizeof_dirent)) (\<lambda>(r, de).
        kbind (kassert (\<lambda>s. \<not> r \<noteq> int sizeof_dirent) ''dirlink read'') (\<lambda>_.
        if de_inum de = 0 then kret (Inl (off + of_nat sizeof_dirent))
        else if namecmp name (de_name de) = 0 then
          kbind (\<lambda>s. iget (idev (icache s ! dp)) (ucast (de_inum de)) s) (\<lambda>ip. kret (Inr (Some (ip, off))))
        else kret (Inl (off + of_nat sizeof_dirent)))))"

definition dir_rounds :: nat where "dir_rounds = 2 ^ 28 + 1"

definition dirlookup :: "nat \<Rightarrow> uchar list \<Rightarrow> ('z cons_scheme, (nat \<times> uint) option) kern" where
  "dirlookup dp name =
     kbind (kassert (\<lambda>s. \<not> itype (icache s ! dp) \<noteq> T_DIR) ''dirlookup not DIR'') (\<lambda>_.
     kloop dir_rounds (dirlookup_body dp name) 0)"

definition dirlink_body :: "nat \<Rightarrow> uint \<Rightarrow> ('z cons_scheme, uint + uint) kern" where
  "dirlink_body dp off =
     kcond (\<lambda>s. \<not> off < isize (icache s ! dp))
       (kret (Inr off))
       (kbind (readi dp off (of_nat sizeof_dirent)) (\<lambda>(r, de).
        kbind (kassert (\<lambda>s. \<not> r \<noteq> int sizeof_dirent) ''dirlink read'') (\<lambda>_.
        if de_inum de = 0 then kret (Inr off) else kret (Inl (off + of_nat sizeof_dirent)))))"

definition strncpy_bytes :: "nat \<Rightarrow> uchar list \<Rightarrow> uchar list" where
  "strncpy_bytes n s = take n (takeWhile (\<lambda>c. c \<noteq> 0) s @ replicate n 0)"

definition dirent_bytes :: "ushort \<Rightarrow> uchar list \<Rightarrow> uchar list" where
  "dirent_bytes i name = wr16 (replicate 2 0) 0 i @ strncpy_bytes DIRSIZ name"

definition dirlink :: "nat \<Rightarrow> uchar list \<Rightarrow> uint \<Rightarrow> ('z cons_scheme, int) kern" where
  "dirlink dp name i =
     kbind (dirlookup dp name) (\<lambda>r.
     case r of
       Some (ip, _) \<Rightarrow> kseq [iput ip] (kret (- 1))
     | None \<Rightarrow>
         kbind (kloop dir_rounds (dirlink_body dp) 0) (\<lambda>off.
         kbind (writei dp (dirent_bytes (ucast i) name) off (of_nat sizeof_dirent)) (\<lambda>r.
         kbind (kassert (\<lambda>s. \<not> r \<noteq> int sizeof_dirent) ''dirlink'') (\<lambda>_. kret 0))))"

section \<open>Paths\<close>

definition SLASH :: uchar where "SLASH = 47"

text \<open>\<open>skipelem\<close>: the next element, cut at \<open>DIRSIZ\<close> bytes, and the rest of the path.\<close>

definition skipelem :: "uchar list \<Rightarrow> (uchar list \<times> uchar list) option" where
  "skipelem path0 =
     (let path = dropWhile (\<lambda>c. c = SLASH) path0 in
      if path = [] then None
      else
        let s = takeWhile (\<lambda>c. c \<noteq> SLASH) path;
            name = (if length s \<ge> DIRSIZ then take DIRSIZ s else s);
            rest = dropWhile (\<lambda>c. c = SLASH) (dropWhile (\<lambda>c. c \<noteq> SLASH) path)
        in Some (name, rest))"

lemma skipelem_shorter: "skipelem path = Some (name, rest) \<Longrightarrow> length rest < length path"
proof -
  assume *: "skipelem path = Some (name, rest)"
  define p where "p = dropWhile (\<lambda>c. c = SLASH) path"
  from * have p: "p \<noteq> []" and r: "rest = dropWhile (\<lambda>c. c = SLASH) (dropWhile (\<lambda>c. c \<noteq> SLASH) p)"
    by (auto simp: skipelem_def p_def Let_def split: if_splits)
  have "hd p \<noteq> SLASH" using p hd_dropWhile [of "\<lambda>c. c = SLASH" path] by (auto simp: p_def)
  then have "length (dropWhile (\<lambda>c. c \<noteq> SLASH) p) < length p"
    using p length_dropWhile_le [of "\<lambda>c. c \<noteq> SLASH" "tl p"] by (cases p) auto
  moreover have "length rest \<le> length (dropWhile (\<lambda>c. c \<noteq> SLASH) p)" "length p \<le> length path"
    by (auto simp: r p_def length_dropWhile_le)
  ultimately show ?thesis by linarith
qed

text \<open>The loop of \<open>namex\<close>; the result of \<open>nameiparent\<close> comes with the last element.\<close>

function namex_loop :: "bool \<Rightarrow> nat \<Rightarrow> uchar list \<Rightarrow> uchar list \<Rightarrow> ('z cons_scheme, (nat \<times> uchar list) option) kern" where
  "namex_loop np ip name path =
     (case skipelem path of
        None \<Rightarrow>
          if np then kseq [iput ip] (kret None) else kret (Some (ip, name))
      | Some (name', rest) \<Rightarrow>
          kbind (ilock ip) (\<lambda>_.
          kcond (\<lambda>s. itype (icache s ! ip) \<noteq> T_DIR)
            (kseq [iunlockput ip] (kret None))
            (if np \<and> rest = [] then kseq [iunlock ip] (kret (Some (ip, name')))
             else
               kbind (dirlookup ip name') (\<lambda>r.
               case r of
                 None \<Rightarrow> kseq [iunlockput ip] (kret None)
               | Some (ip', _) \<Rightarrow> kbind (iunlockput ip) (\<lambda>_. namex_loop np ip' name' rest)))))"
  by pat_completeness auto

termination
  by (relation "measure (\<lambda>(np, ip, name, path). length path)") (auto simp: skipelem_shorter)

definition namex :: "uchar list \<Rightarrow> bool \<Rightarrow> ('z cons_scheme, (nat \<times> uchar list) option) kern" where
  "namex path np =
     kbind (if byte0 path = SLASH then iget ROOTDEV ROOTINO
            else (\<lambda>s. idup (the (cwd (curproc s))) s)) (\<lambda>ip.
     namex_loop np ip [] path)"

definition namei :: "uchar list \<Rightarrow> ('z cons_scheme, nat option) kern" where
  "namei path = kbind (namex path False) (\<lambda>r. kret (map_option fst r))"

definition nameiparent :: "uchar list \<Rightarrow> ('z cons_scheme, (nat \<times> uchar list) option) kern" where
  "nameiparent path = namex path True"

end
