(* ===== verification/Pipe.thy ===== *)
theory Pipe
  imports Fs
begin

text \<open>
  Access to user memory through the page table of the running process, pipes (\<open>pipe.c\<close>) and the
  file table (\<open>file.h\<close>, the part of \<open>file.c\<close> that pipes need).

  A pipe is named by the address of the page it lives in. \<open>pipewrite\<close> and \<open>piperead\<close> take what other
  threads do during each of their sleeps.
\<close>

section \<open>User memory\<close>

text \<open>
  The translation the processor does for a kernel access to a user address: the page has to be
  present, and writable for a write (\<open>CR0_WP\<close> is set).
\<close>

definition vtrans :: "mem \<Rightarrow> uint \<Rightarrow> bool \<Rightarrow> uint \<Rightarrow> uint option" where
  "vtrans m d wr va =
     (let e = load32 m (d + 4 * PDX va) in
      if e AND PTE_P = 0 then None
      else
        let f = load32 m (P2V (PTE_ADDR e) + 4 * PTX va) in
        if f AND PTE_P = 0 \<or> wr \<and> f AND PTE_W = 0 then None
        else Some (P2V (PTE_ADDR f) + (va AND 0xFFF)))"

text \<open>Addresses from \<open>KERNBASE\<close> on are the kernel's own; a page fault in the kernel ends in \<open>panic("trap")\<close>.\<close>

definition vaddr :: "bool \<Rightarrow> uint \<Rightarrow> ('z procs_scheme, uint) kern" where
  "vaddr wr va = (\<lambda>s.
     if va \<ge> KERNBASE then Ok va s
     else case vtrans (mem s) (pgdir (curproc s)) wr va of
         None \<Rightarrow> Panic ''trap''
       | Some a \<Rightarrow> Ok a s)"

definition vget :: "uint \<Rightarrow> ('z procs_scheme, uchar) kern" where
  "vget va = kbind (vaddr False va) (\<lambda>a. kget (\<lambda>s. mem s a))"

definition vput :: "uint \<Rightarrow> uchar \<Rightarrow> ('z procs_scheme, unit) kern" where
  "vput va c = kbind (vaddr True va) (\<lambda>a. kmod (\<lambda>s. s\<lparr>mem := (mem s)(a := c)\<rparr>))"

primrec vread :: "nat \<Rightarrow> uint \<Rightarrow> ('z procs_scheme, uchar list) kern" where
  "vread 0 va = kret []"
| "vread (Suc n) va = kbind (vget va) (\<lambda>c. kbind (vread n (va + 1)) (\<lambda>cs. kret (c # cs)))"

primrec vwrite :: "uint \<Rightarrow> uchar list \<Rightarrow> ('z procs_scheme, unit) kern" where
  "vwrite va [] = kret ()"
| "vwrite va (c # cs) = kbind (vput va c) (\<lambda>_. vwrite (va + 1) cs)"

definition vget32 :: "uint \<Rightarrow> ('z procs_scheme, uint) kern" where
  "vget32 va = kbind (vread 4 va) (\<lambda>bs. kret (rd32 bs 0))"

definition vput32 :: "uint \<Rightarrow> uint \<Rightarrow> ('z procs_scheme, unit) kern" where
  "vput32 va v = vwrite va (wr32 (replicate 4 0) 0 v)"

section \<open>\<open>file.h\<close> and the pipe structure\<close>

datatype ftype = FD_NONE | FD_PIPE | FD_INODE

record xfile =
  ftype :: ftype
  fref :: int
  readable :: bool
  writable :: bool
  fpipe :: uint
  fip :: nat
  foff :: uint

definition NFILE :: nat where "NFILE = 100"

definition PIPESIZE :: uint where "PIPESIZE = 512"

record pipe =
  pdata :: "uchar list"
  nread :: uint
  nwrite :: uint
  readopen :: int
  writeopen :: int

record files = cons +
  ftable :: "xfile list"
  pipes :: "uint \<Rightarrow> pipe"

definition upd_file :: "nat \<Rightarrow> (xfile \<Rightarrow> xfile) \<Rightarrow> 'z files_scheme \<Rightarrow> 'z files_scheme" where
  "upd_file f g s = s\<lparr>ftable := (ftable s)[f := g (ftable s ! f)]\<rparr>"

definition upd_pipe :: "uint \<Rightarrow> (pipe \<Rightarrow> pipe) \<Rightarrow> 'z files_scheme \<Rightarrow> 'z files_scheme" where
  "upd_pipe p g s = s\<lparr>pipes := (pipes s)(p := g (pipes s p))\<rparr>"

section \<open>\<open>pipe.c\<close>\<close>

definition pipeclose :: "uint \<Rightarrow> bool \<Rightarrow> ('z files_scheme, unit) kern" where
  "pipeclose p wr = kseq
     [acquire (PipeLock p),
      if wr then kseq [kmod (upd_pipe p (\<lambda>q. q\<lparr>writeopen := 0\<rparr>)), wakeup (Ch_nread p)] (kret ())
      else kseq [kmod (upd_pipe p (\<lambda>q. q\<lparr>readopen := 0\<rparr>)), wakeup (Ch_nwrite p)] (kret ()),
      kcond (\<lambda>s. readopen (pipes s p) = 0 \<and> writeopen (pipes s p) = 0)
        (kseq [release (PipeLock p), kfree p] (kret ()))
        (release (PipeLock p))]
     (kret ())"

text \<open>Storing the next byte, and taking the next byte, of the ring.\<close>

definition pipe_put :: "uchar \<Rightarrow> pipe \<Rightarrow> pipe" where
  "pipe_put c q = q\<lparr>pdata := (pdata q)[unat (nwrite q mod PIPESIZE) := c], nwrite := nwrite q + 1\<rparr>"

definition pipe_top :: "pipe \<Rightarrow> uchar" where
  "pipe_top q = pdata q ! unat (nread q mod PIPESIZE)"

definition pipe_drop :: "pipe \<Rightarrow> pipe" where
  "pipe_drop q = q\<lparr>nread := nread q + 1\<rparr>"

function pipewrite_loop ::
    "('z files_scheme \<Rightarrow> 'z files_scheme) list \<Rightarrow> uint \<Rightarrow> uint \<Rightarrow> int \<Rightarrow> int \<Rightarrow> ('z files_scheme, int) kern" where
  "pipewrite_loop envs p addr i n =
     (if \<not> i < n then kseq [wakeup (Ch_nread p), release (PipeLock p)] (kret n)
      else kcond (\<lambda>s. nwrite (pipes s p) = nread (pipes s p) + PIPESIZE)
        (kcond (\<lambda>s. readopen (pipes s p) = 0 \<or> killed (curproc s) \<noteq> 0)
           (kseq [release (PipeLock p)] (kret (- 1)))
           (kbind (wakeup (Ch_nread p)) (\<lambda>_.
            case envs of
              [] \<Rightarrow> sleep_forever (Ch_nwrite p) (PipeLock p)
            | e # es \<Rightarrow> kbind (sleep e (Ch_nwrite p) (PipeLock p)) (\<lambda>_. pipewrite_loop es p addr i n))))
        (kbind (vget (addr + word_of_int i)) (\<lambda>c.
         kbind (kmod (upd_pipe p (pipe_put c))) (\<lambda>_. pipewrite_loop envs p addr (i + 1) n))))"
  by pat_completeness auto

termination
  by (relation "measure (\<lambda>(envs, p, addr, i, n). length envs + nat (n - i))") auto

definition pipewrite :: "('z files_scheme \<Rightarrow> 'z files_scheme) list \<Rightarrow> uint \<Rightarrow> uint \<Rightarrow> int \<Rightarrow> ('z files_scheme, int) kern" where
  "pipewrite envs p addr n = kbind (acquire (PipeLock p)) (\<lambda>_. pipewrite_loop envs p addr 0 n)"

text \<open>The two loops of \<open>piperead\<close>: waiting for data, then copying.\<close>

fun piperead_wait :: "('z files_scheme \<Rightarrow> 'z files_scheme) list \<Rightarrow> uint \<Rightarrow> ('z files_scheme, bool) kern" where
  "piperead_wait envs p =
     kcond (\<lambda>s. nread (pipes s p) = nwrite (pipes s p) \<and> writeopen (pipes s p) \<noteq> 0)
       (kcond (\<lambda>s. killed (curproc s) \<noteq> 0)
          (kseq [release (PipeLock p)] (kret False))
          (case envs of
             [] \<Rightarrow> sleep_forever (Ch_nread p) (PipeLock p)
           | e # es \<Rightarrow> kbind (sleep e (Ch_nread p) (PipeLock p)) (\<lambda>_. piperead_wait es p)))
       (kret True)"

function piperead_copy :: "uint \<Rightarrow> uint \<Rightarrow> int \<Rightarrow> int \<Rightarrow> ('z files_scheme, int) kern" where
  "piperead_copy p addr i n =
     (if \<not> i < n then kret i
      else kcond (\<lambda>s. nread (pipes s p) = nwrite (pipes s p))
        (kret i)
        (kbind (kget (\<lambda>s. pipe_top (pipes s p))) (\<lambda>c.
         kbind (kmod (upd_pipe p pipe_drop)) (\<lambda>_.
         kbind (vput (addr + word_of_int i) c) (\<lambda>_. piperead_copy p addr (i + 1) n)))))"
  by pat_completeness auto

termination
  by (relation "measure (\<lambda>(p, addr, i, n). nat (n - i))") auto

definition piperead :: "('z files_scheme \<Rightarrow> 'z files_scheme) list \<Rightarrow> uint \<Rightarrow> uint \<Rightarrow> int \<Rightarrow> ('z files_scheme, int) kern" where
  "piperead envs p addr n =
     kbind (acquire (PipeLock p)) (\<lambda>_.
     kbind (piperead_wait envs p) (\<lambda>ok.
     if \<not> ok then kret (- 1)
     else kbind (piperead_copy p addr 0 n) (\<lambda>i. kseq
       [wakeup (Ch_nwrite p),
        release (PipeLock p)]
       (kret i))))"

end
