(* ===== verification/File.thy ===== *)
theory File
  imports Pipe
begin

text \<open>
  The file table (\<open>file.c\<close>) and the creation of pipes (\<open>pipealloc\<close> of \<open>pipe.c\<close>). A file is named by
  its index in \<open>ftable.file\<close>.
\<close>

definition fileinit :: "('z files_scheme, unit) kern" where
  "fileinit = initlock FtableLock ''ftable''"

definition filealloc :: "('z files_scheme, nat option) kern" where
  "filealloc =
     kbind (acquire FtableLock) (\<lambda>_.
     kbind (kget (\<lambda>s. find_index (\<lambda>f. fref f = 0) (ftable s))) (\<lambda>r.
     case r of
       Some f \<Rightarrow> kseq [kmod (upd_file f (\<lambda>p. p\<lparr>fref := 1\<rparr>)), release FtableLock] (kret (Some f))
     | None \<Rightarrow> kseq [release FtableLock] (kret None)))"

definition filedup :: "nat \<Rightarrow> ('z files_scheme, nat) kern" where
  "filedup f = kseq
     [acquire FtableLock,
      kassert (\<lambda>s. \<not> fref (ftable s ! f) < 1) ''filedup'',
      kmod (upd_file f (\<lambda>p. p\<lparr>fref := fref p + 1\<rparr>)),
      release FtableLock]
     (kret f)"

definition fileclose :: "nat \<Rightarrow> ('z files_scheme, unit) kern" where
  "fileclose f =
     kbind (acquire FtableLock) (\<lambda>_.
     kbind (kassert (\<lambda>s. \<not> fref (ftable s ! f) < 1) ''fileclose'') (\<lambda>_.
     kbind (kmod (upd_file f (\<lambda>p. p\<lparr>fref := fref p - 1\<rparr>))) (\<lambda>_.
     kcond (\<lambda>s. fref (ftable s ! f) > 0)
       (release FtableLock)
       (kbind (kget (\<lambda>s. ftable s ! f)) (\<lambda>ff. kseq
          [kmod (upd_file f (\<lambda>p. p\<lparr>fref := 0\<rparr>)),
           kmod (upd_file f (\<lambda>p. p\<lparr>ftype := FD_NONE\<rparr>)),
           release FtableLock,
           (case ftype ff of
              FD_PIPE \<Rightarrow> pipeclose (fpipe ff) (writable ff)
            | FD_INODE \<Rightarrow> kseq [begin_op [], iput (fip ff), end_op] (kret ())
            | FD_NONE \<Rightarrow> kret ())]
          (kret ()))))))"

text \<open>\<open>filestat\<close> hands out the fields of \<open>struct stat\<close>; the caller stores them.\<close>

definition filestat :: "nat \<Rightarrow> ('z files_scheme, (ushort \<times> uint \<times> uint \<times> ushort \<times> uint) option) kern" where
  "filestat f =
     kbind (kget (\<lambda>s. ftable s ! f)) (\<lambda>p.
     if ftype p = FD_INODE then
       kbind (ilock (fip p)) (\<lambda>_.
       kbind (kget (stati (fip p))) (\<lambda>st0. kseq [iunlock (fip p)] (kret (Some st0))))
     else kret None)"

definition fileread :: "nat \<Rightarrow> uint \<Rightarrow> int \<Rightarrow> ('z files_scheme, int) kern" where
  "fileread f addr n =
     kbind (kget (\<lambda>s. ftable s ! f)) (\<lambda>p.
     if \<not> readable p then kret (- 1)
     else case ftype p of
         FD_PIPE \<Rightarrow> piperead [] (fpipe p) addr n
       | FD_INODE \<Rightarrow>
           kbind (ilock (fip p)) (\<lambda>_.
           kbind (readi (fip p) (foff p) (word_of_int n)) (\<lambda>(r, bs). kseq
             [vwrite addr bs,
              kif (\<lambda>s. r > 0) (kmod (upd_file f (\<lambda>q. q\<lparr>foff := foff q + word_of_int r\<rparr>))),
              iunlock (fip p)]
             (kret r)))
       | FD_NONE \<Rightarrow> kpanic ''fileread'')"

definition filewrite_max :: int where
  "filewrite_max = ((int LOGSIZE - 1 - 1 - 2) div 2) * 512"

text \<open>The body of the loop of \<open>filewrite\<close>: one transaction.\<close>

definition filewrite_chunk :: "nat \<Rightarrow> uint \<Rightarrow> int \<Rightarrow> int \<Rightarrow> ('z files_scheme, int) kern" where
  "filewrite_chunk f addr i n1 =
     kbind (kget (\<lambda>s. fip (ftable s ! f))) (\<lambda>ip.
     kbind (begin_op []) (\<lambda>_.
     kbind (ilock ip) (\<lambda>_.
     kbind (vread (nat n1) (addr + word_of_int i)) (\<lambda>src.
     kbind (\<lambda>s. writei ip src (foff (ftable s ! f)) (word_of_int n1) s) (\<lambda>r. kseq
       [kif (\<lambda>s. r > 0) (kmod (upd_file f (\<lambda>q. q\<lparr>foff := foff q + word_of_int r\<rparr>))),
        iunlock ip,
        end_op]
       (kret r))))))"

function filewrite_loop :: "nat \<Rightarrow> uint \<Rightarrow> int \<Rightarrow> int \<Rightarrow> ('z files_scheme, int) kern" where
  "filewrite_loop f addr i n =
     (if \<not> i < n then kret (if i = n then n else - 1)
      else
        let n1 = (if n - i > filewrite_max then filewrite_max else n - i) in
        kbind (filewrite_chunk f addr i n1) (\<lambda>r.
        if r < 0 then kret (if i = n then n else - 1)
        else if r \<noteq> n1 then kpanic ''short filewrite''
        else filewrite_loop f addr (i + n1) n))"
  by pat_completeness auto

termination
  by (relation "measure (\<lambda>(f, addr, i, n). nat (n - i))") (auto simp: filewrite_max_def LOGSIZE_def MAXOPBLOCKS_def)

definition filewrite :: "nat \<Rightarrow> uint \<Rightarrow> int \<Rightarrow> ('z files_scheme, int) kern" where
  "filewrite f addr n =
     kbind (kget (\<lambda>s. ftable s ! f)) (\<lambda>p.
     if \<not> writable p then kret (- 1)
     else case ftype p of
         FD_PIPE \<Rightarrow> pipewrite [] (fpipe p) addr n
       | FD_INODE \<Rightarrow> filewrite_loop f addr 0 n
       | FD_NONE \<Rightarrow> kpanic ''filewrite'')"

section \<open>\<open>pipealloc\<close>\<close>

definition pipealloc_bad :: "uint \<Rightarrow> nat option \<Rightarrow> nat option \<Rightarrow> ('z files_scheme, (nat \<times> nat) option) kern" where
  "pipealloc_bad p f0 f1 = kseq
     [if p \<noteq> 0 then kfree p else kret (),
      (case f0 of Some f \<Rightarrow> fileclose f | None \<Rightarrow> kret ()),
      (case f1 of Some f \<Rightarrow> fileclose f | None \<Rightarrow> kret ())]
     (kret None)"

definition pipealloc :: "('z files_scheme, (nat \<times> nat) option) kern" where
  "pipealloc =
     kbind filealloc (\<lambda>r0.
     case r0 of None \<Rightarrow> pipealloc_bad 0 None None
     | Some f0 \<Rightarrow>
         kbind filealloc (\<lambda>r1.
         case r1 of None \<Rightarrow> pipealloc_bad 0 (Some f0) None
         | Some f1 \<Rightarrow>
             kbind kalloc (\<lambda>p.
             if p = 0 then pipealloc_bad 0 (Some f0) (Some f1)
             else kseq
               [kmod (upd_pipe p (\<lambda>q. q\<lparr>readopen := 1\<rparr>)),
                kmod (upd_pipe p (\<lambda>q. q\<lparr>writeopen := 1\<rparr>)),
                kmod (upd_pipe p (\<lambda>q. q\<lparr>nwrite := 0\<rparr>)),
                kmod (upd_pipe p (\<lambda>q. q\<lparr>nread := 0\<rparr>)),
                initlock (PipeLock p) ''pipe'',
                kmod (upd_file f0 (\<lambda>g. g\<lparr>ftype := FD_PIPE, readable := True, writable := False, fpipe := p\<rparr>)),
                kmod (upd_file f1 (\<lambda>g. g\<lparr>ftype := FD_PIPE, readable := False, writable := True, fpipe := p\<rparr>))]
               (kret (Some (f0, f1))))))"

end
