(* ===== verification/Sysfile.thy ===== *)
theory Sysfile
  imports File
begin

text \<open>
  System call arguments (\<open>syscall.c\<close>) and the system calls on files (\<open>sysfile.c\<close>). A result of -1 of
  the routines that fetch an argument is \<open>None\<close>; a string argument is fetched as the list of its
  bytes, since no other process can change it during the call.
\<close>

section \<open>Arguments\<close>

text \<open>Offsets in \<open>struct trapframe\<close> (\<open>x86.h\<close>).\<close>

definition tf_eax :: uint where "tf_eax = 28"

definition tf_trapno :: uint where "tf_trapno = 48"

definition tf_eip :: uint where "tf_eip = 56"

definition tf_cs :: uint where "tf_cs = 60"

definition tf_esp :: uint where "tf_esp = 68"

definition tf_get :: "uint \<Rightarrow> ('z procs_scheme, uint) kern" where
  "tf_get off = kget (\<lambda>s. load32 (mem s) (tf (curproc s) + off))"

definition tf_set :: "uint \<Rightarrow> uint \<Rightarrow> ('z procs_scheme, unit) kern" where
  "tf_set off v = kmod (\<lambda>s. s\<lparr>mem := store32 (mem s) (tf (curproc s) + off) v\<rparr>)"

definition fetchint :: "uint \<Rightarrow> ('z procs_scheme, uint option) kern" where
  "fetchint addr =
     kcond (\<lambda>s. addr \<ge> sz (curproc s) \<or> addr + 4 > sz (curproc s))
       (kret None)
       (kbind (vget32 addr) (\<lambda>v. kret (Some v)))"

text \<open>The loop of \<open>fetchstr\<close> from address \<open>p\<close> on, with the bytes seen so far.\<close>

definition fetchstr_body :: "uint \<times> uchar list \<Rightarrow> ('z procs_scheme, uint \<times> uchar list + uchar list option) kern" where
  "fetchstr_body = (\<lambda>(p, acc).
     kcond (\<lambda>s. \<not> p < sz (curproc s))
       (kret (Inr None))
       (kbind (vget p) (\<lambda>c.
        if c = 0 then kret (Inr (Some acc)) else kret (Inl (p + 1, acc @ [c])))))"

definition fetchstr :: "uint \<Rightarrow> ('z procs_scheme, uchar list option) kern" where
  "fetchstr addr =
     kcond (\<lambda>s. addr \<ge> sz (curproc s))
       (kret None)
       (kloop (2 ^ 32) fetchstr_body (addr, []))"

definition argint :: "nat \<Rightarrow> ('z procs_scheme, uint option) kern" where
  "argint n = kbind (tf_get tf_esp) (\<lambda>esp. fetchint (esp + 4 + 4 * of_nat n))"

definition argptr :: "nat \<Rightarrow> int \<Rightarrow> ('z procs_scheme, uint option) kern" where
  "argptr n sze =
     kbind (argint n) (\<lambda>r. case r of None \<Rightarrow> kret None
     | Some i \<Rightarrow>
         kcond (\<lambda>s. sze < 0 \<or> i \<ge> sz (curproc s) \<or> i + word_of_int sze > sz (curproc s))
           (kret None) (kret (Some i)))"

definition argstr :: "nat \<Rightarrow> ('z procs_scheme, uchar list option) kern" where
  "argstr n = kbind (argint n) (\<lambda>r. case r of None \<Rightarrow> kret None | Some addr \<Rightarrow> fetchstr addr)"

section \<open>File descriptors\<close>

definition argfd :: "nat \<Rightarrow> ('z files_scheme, (nat \<times> nat) option) kern" where
  "argfd n =
     kbind (argint n) (\<lambda>r. case r of None \<Rightarrow> kret None
     | Some v \<Rightarrow>
         let fd = sint v in
         if fd < 0 \<or> fd \<ge> int NOFILE then kret None
         else kget (\<lambda>s. map_option (Pair (nat fd)) (ofile (curproc s) ! nat fd)))"

definition fdalloc :: "nat \<Rightarrow> ('z files_scheme, nat option) kern" where
  "fdalloc f =
     kbind (kget (\<lambda>s. find_index (\<lambda>x. x = None) (ofile (curproc s)))) (\<lambda>r.
     case r of
       None \<Rightarrow> kret None
     | Some fd \<Rightarrow> kseq [kmod (upd_me (\<lambda>p. p\<lparr>ofile := (ofile p)[fd := Some f]\<rparr>))] (kret (Some fd)))"

definition sys_dup :: "('z files_scheme, int) kern" where
  "sys_dup =
     kbind (argfd 0) (\<lambda>r. case r of None \<Rightarrow> kret (- 1)
     | Some (_, f) \<Rightarrow>
         kbind (fdalloc f) (\<lambda>r. case r of None \<Rightarrow> kret (- 1)
         | Some fd \<Rightarrow> kbind (filedup f) (\<lambda>_. kret (int fd))))"

definition sys_rw :: "(nat \<Rightarrow> uint \<Rightarrow> int \<Rightarrow> ('z files_scheme, int) kern) \<Rightarrow> ('z files_scheme, int) kern" where
  "sys_rw io =
     kbind (argfd 0) (\<lambda>r. case r of None \<Rightarrow> kret (- 1)
     | Some (_, f) \<Rightarrow>
         kbind (argint 2) (\<lambda>r. case r of None \<Rightarrow> kret (- 1)
         | Some n \<Rightarrow>
             kbind (argptr 1 (sint n)) (\<lambda>r. case r of None \<Rightarrow> kret (- 1)
             | Some p \<Rightarrow> io f p (sint n))))"

definition sys_read :: "('z files_scheme, int) kern" where
  "sys_read = sys_rw fileread"

definition sys_write :: "('z files_scheme, int) kern" where
  "sys_write = sys_rw filewrite"

definition sys_close :: "('z files_scheme, int) kern" where
  "sys_close =
     kbind (argfd 0) (\<lambda>r. case r of None \<Rightarrow> kret (- 1)
     | Some (fd, f) \<Rightarrow> kseq
         [kmod (upd_me (\<lambda>p. p\<lparr>ofile := (ofile p)[fd := None]\<rparr>)),
          fileclose f]
         (kret 0))"

text \<open>The layout of \<open>struct stat\<close>: type, device, inode number, links, size, with padding.\<close>

definition sizeof_stat :: int where "sizeof_stat = 20"

definition put_stat :: "uint \<Rightarrow> ushort \<times> uint \<times> uint \<times> ushort \<times> uint \<Rightarrow> ('z procs_scheme, unit) kern" where
  "put_stat a = (\<lambda>(ty, dev, ino, nl, szz). kseq
     [vput32 (a + 4) dev,
      vput32 (a + 8) ino,
      vwrite a (wr16 (replicate 2 0) 0 ty),
      vwrite (a + 12) (wr16 (replicate 2 0) 0 nl),
      vput32 (a + 16) szz]
     (kret ()))"

definition sys_fstat :: "('z files_scheme, int) kern" where
  "sys_fstat =
     kbind (argfd 0) (\<lambda>r. case r of None \<Rightarrow> kret (- 1)
     | Some (_, f) \<Rightarrow>
         kbind (argptr 1 sizeof_stat) (\<lambda>r. case r of None \<Rightarrow> kret (- 1)
         | Some a \<Rightarrow>
             kbind (filestat f) (\<lambda>r. case r of None \<Rightarrow> kret (- 1)
             | Some st0 \<Rightarrow> kseq [put_stat a st0] (kret 0))))"

section \<open>Links\<close>

definition sys_link_bad :: "nat \<Rightarrow> ('z files_scheme, int) kern" where
  "sys_link_bad ip = kseq
     [ilock ip,
      kmod (upd_inode ip (\<lambda>p. p\<lparr>nlink := nlink p - 1\<rparr>)),
      iupdate ip,
      iunlockput ip,
      end_op]
     (kret (- 1))"

definition sys_link_new :: "nat \<Rightarrow> uchar list \<Rightarrow> ('z files_scheme, int) kern" where
  "sys_link_new ip new =
     kbind (nameiparent new) (\<lambda>r. case r of None \<Rightarrow> sys_link_bad ip
     | Some (dp, name) \<Rightarrow>
         kbind (ilock dp) (\<lambda>_.
         kbind (kcond (\<lambda>s. idev (icache s ! dp) \<noteq> idev (icache s ! ip)) (kret (- 1))
                  (\<lambda>s. dirlink dp name (inum (icache s ! ip)) s)) (\<lambda>r.
         if r < 0 then kseq [iunlockput dp] (sys_link_bad ip)
         else kseq [iunlockput dp, iput ip, end_op] (kret 0))))"

definition sys_link :: "('z files_scheme, int) kern" where
  "sys_link =
     kbind (argstr 0) (\<lambda>r. case r of None \<Rightarrow> kret (- 1)
     | Some old \<Rightarrow>
         kbind (argstr 1) (\<lambda>r. case r of None \<Rightarrow> kret (- 1)
         | Some new \<Rightarrow>
             kbind (begin_op []) (\<lambda>_.
             kbind (namei old) (\<lambda>r. case r of None \<Rightarrow> kseq [end_op] (kret (- 1))
             | Some ip \<Rightarrow>
                 kbind (ilock ip) (\<lambda>_.
                 kcond (\<lambda>s. itype (icache s ! ip) = T_DIR)
                   (kseq [iunlockput ip, end_op] (kret (- 1)))
                   (kseq
                      [kmod (upd_inode ip (\<lambda>p. p\<lparr>nlink := nlink p + 1\<rparr>)),
                       iupdate ip,
                       iunlock ip]
                      (sys_link_new ip new)))))))"

definition isdirempty_body :: "nat \<Rightarrow> uint \<Rightarrow> ('z files_scheme, uint + bool) kern" where
  "isdirempty_body dp off =
     kcond (\<lambda>s. \<not> off < isize (icache s ! dp))
       (kret (Inr True))
       (kbind (readi dp off (of_nat sizeof_dirent)) (\<lambda>(r, de).
        kbind (kassert (\<lambda>s. \<not> r \<noteq> int sizeof_dirent) ''isdirempty: readi'') (\<lambda>_.
        if de_inum de \<noteq> 0 then kret (Inr False) else kret (Inl (off + of_nat sizeof_dirent)))))"

definition isdirempty :: "nat \<Rightarrow> ('z files_scheme, bool) kern" where
  "isdirempty dp = kloop dir_rounds (isdirempty_body dp) (2 * of_nat sizeof_dirent)"

definition DOT :: "uchar list" where "DOT = [46]"

definition DOTDOT :: "uchar list" where "DOTDOT = [46, 46]"

definition sys_unlink_bad :: "nat \<Rightarrow> ('z files_scheme, int) kern" where
  "sys_unlink_bad dp = kseq [iunlockput dp, end_op] (kret (- 1))"

definition unlink_entry :: "nat \<Rightarrow> nat \<Rightarrow> uint \<Rightarrow> ('z files_scheme, int) kern" where
  "unlink_entry dp ip off =
     kbind (writei dp (replicate sizeof_dirent 0) off (of_nat sizeof_dirent)) (\<lambda>r. kseq
       [kassert (\<lambda>s. \<not> r \<noteq> int sizeof_dirent) ''unlink: writei'',
        kif (\<lambda>s. itype (icache s ! ip) = T_DIR)
          (kseq
             [kmod (upd_inode dp (\<lambda>p. p\<lparr>nlink := nlink p - 1\<rparr>)),
              iupdate dp]
             (kret ())),
        iunlockput dp,
        kmod (upd_inode ip (\<lambda>p. p\<lparr>nlink := nlink p - 1\<rparr>)),
        iupdate ip,
        iunlockput ip,
        end_op]
       (kret 0))"

definition sys_unlink :: "('z files_scheme, int) kern" where
  "sys_unlink =
     kbind (argstr 0) (\<lambda>r. case r of None \<Rightarrow> kret (- 1)
     | Some path \<Rightarrow>
         kbind (begin_op []) (\<lambda>_.
         kbind (nameiparent path) (\<lambda>r. case r of None \<Rightarrow> kseq [end_op] (kret (- 1))
         | Some (dp, name) \<Rightarrow>
             kbind (ilock dp) (\<lambda>_.
             if namecmp name DOT = 0 \<or> namecmp name DOTDOT = 0 then sys_unlink_bad dp
             else
               kbind (dirlookup dp name) (\<lambda>r. case r of None \<Rightarrow> sys_unlink_bad dp
               | Some (ip, off) \<Rightarrow>
                   kbind (ilock ip) (\<lambda>_.
                   kbind (kassert (\<lambda>s. \<not> sint (nlink (icache s ! ip)) < 1) ''unlink: nlink < 1'') (\<lambda>_.
                   kbind (kcond (\<lambda>s. itype (icache s ! ip) = T_DIR) (isdirempty ip) (kret True)) (\<lambda>e.
                   if \<not> e then kseq [iunlockput ip] (sys_unlink_bad dp)
                   else unlink_entry dp ip off))))))))"

section \<open>Creating and opening\<close>

definition create_new :: "nat \<Rightarrow> uchar list \<Rightarrow> ushort \<Rightarrow> ushort \<Rightarrow> ushort \<Rightarrow> ('z files_scheme, nat option) kern" where
  "create_new dp name ty maj mnr =
     kbind (\<lambda>s. ialloc (idev (icache s ! dp)) ty s) (\<lambda>ip. kseq
       [ilock ip,
        kmod (upd_inode ip (\<lambda>p. p\<lparr>major := maj\<rparr>)),
        kmod (upd_inode ip (\<lambda>p. p\<lparr>minor := mnr\<rparr>)),
        kmod (upd_inode ip (\<lambda>p. p\<lparr>nlink := 1\<rparr>)),
        iupdate ip,
        (if ty = T_DIR then kseq
           [kmod (upd_inode dp (\<lambda>p. p\<lparr>nlink := nlink p + 1\<rparr>)),
            iupdate dp,
            kbind (\<lambda>s. dirlink ip DOT (inum (icache s ! ip)) s) (\<lambda>r.
              kassert (\<lambda>s. \<not> r < 0) ''create dots''),
            kbind (\<lambda>s. dirlink ip DOTDOT (inum (icache s ! dp)) s) (\<lambda>r.
              kassert (\<lambda>s. \<not> r < 0) ''create dots'')]
           (kret ())
         else kret ()),
        kbind (\<lambda>s. dirlink dp name (inum (icache s ! ip)) s) (\<lambda>r.
          kassert (\<lambda>s. \<not> r < 0) ''create: dirlink''),
        iunlockput dp]
       (kret (Some ip)))"

definition create :: "uchar list \<Rightarrow> ushort \<Rightarrow> ushort \<Rightarrow> ushort \<Rightarrow> ('z files_scheme, nat option) kern" where
  "create path ty maj mnr =
     kbind (nameiparent path) (\<lambda>r. case r of None \<Rightarrow> kret None
     | Some (dp, name) \<Rightarrow>
         kbind (ilock dp) (\<lambda>_.
         kbind (dirlookup dp name) (\<lambda>r. case r of
           Some (ip, _) \<Rightarrow>
             kbind (iunlockput dp) (\<lambda>_.
             kbind (ilock ip) (\<lambda>_.
             kcond (\<lambda>s. ty = T_FILE \<and> itype (icache s ! ip) = T_FILE)
               (kret (Some ip))
               (kseq [iunlockput ip] (kret None))))
         | None \<Rightarrow> create_new dp name ty maj mnr)))"

definition O_RDONLY :: uint where "O_RDONLY = 0x000"

definition O_WRONLY :: uint where "O_WRONLY = 0x001"

definition O_RDWR :: uint where "O_RDWR = 0x002"

definition O_CREATE :: uint where "O_CREATE = 0x200"

text \<open>The inode that \<open>open\<close> opens, locked; \<open>None\<close> after the transaction has ended.\<close>

definition open_inode :: "uchar list \<Rightarrow> uint \<Rightarrow> ('z files_scheme, nat option) kern" where
  "open_inode path omode =
     (if omode AND O_CREATE \<noteq> 0 then
        kbind (create path T_FILE 0 0) (\<lambda>r. case r of None \<Rightarrow> kseq [end_op] (kret None)
        | Some ip \<Rightarrow> kret (Some ip))
      else
        kbind (namei path) (\<lambda>r. case r of None \<Rightarrow> kseq [end_op] (kret None)
        | Some ip \<Rightarrow>
            kbind (ilock ip) (\<lambda>_.
            kcond (\<lambda>s. itype (icache s ! ip) = T_DIR \<and> omode \<noteq> O_RDONLY)
              (kseq [iunlockput ip, end_op] (kret None))
              (kret (Some ip)))))"

definition open_file :: "nat \<Rightarrow> uint \<Rightarrow> ('z files_scheme, int) kern" where
  "open_file ip omode =
     kbind filealloc (\<lambda>r. case r of None \<Rightarrow> kseq [iunlockput ip, end_op] (kret (- 1))
     | Some f \<Rightarrow>
         kbind (fdalloc f) (\<lambda>r. case r of None \<Rightarrow> kseq [fileclose f, iunlockput ip, end_op] (kret (- 1))
         | Some fd \<Rightarrow> kseq
             [iunlock ip,
              end_op,
              kmod (upd_file f (\<lambda>g. g\<lparr>ftype := FD_INODE\<rparr>)),
              kmod (upd_file f (\<lambda>g. g\<lparr>fip := ip\<rparr>)),
              kmod (upd_file f (\<lambda>g. g\<lparr>foff := 0\<rparr>)),
              kmod (upd_file f (\<lambda>g. g\<lparr>readable := (omode AND O_WRONLY = 0)\<rparr>)),
              kmod (upd_file f (\<lambda>g. g\<lparr>writable := (omode AND O_WRONLY \<noteq> 0 \<or> omode AND O_RDWR \<noteq> 0)\<rparr>))]
             (kret (int fd))))"

definition sys_open :: "('z files_scheme, int) kern" where
  "sys_open =
     kbind (argstr 0) (\<lambda>r. case r of None \<Rightarrow> kret (- 1)
     | Some path \<Rightarrow>
         kbind (argint 1) (\<lambda>r. case r of None \<Rightarrow> kret (- 1)
         | Some omode \<Rightarrow>
             kbind (begin_op []) (\<lambda>_.
             kbind (open_inode path omode) (\<lambda>r. case r of None \<Rightarrow> kret (- 1)
             | Some ip \<Rightarrow> open_file ip omode))))"

text \<open>The end of \<open>sys_mkdir\<close> and \<open>sys_mknod\<close>.\<close>

definition created :: "nat option \<Rightarrow> ('z files_scheme, int) kern" where
  "created r = (case r of
       None \<Rightarrow> kseq [end_op] (kret (- 1))
     | Some ip \<Rightarrow> kseq [iunlockput ip, end_op] (kret 0))"

definition sys_mkdir :: "('z files_scheme, int) kern" where
  "sys_mkdir =
     kbind (begin_op []) (\<lambda>_.
     kbind (argstr 0) (\<lambda>r. case r of None \<Rightarrow> created None
     | Some path \<Rightarrow> kbind (create path T_DIR 0 0) created))"

definition sys_mknod :: "('z files_scheme, int) kern" where
  "sys_mknod =
     kbind (begin_op []) (\<lambda>_.
     kbind (argstr 0) (\<lambda>r. case r of None \<Rightarrow> created None
     | Some path \<Rightarrow>
         kbind (argint 1) (\<lambda>r. case r of None \<Rightarrow> created None
         | Some maj \<Rightarrow>
             kbind (argint 2) (\<lambda>r. case r of None \<Rightarrow> created None
             | Some mnr \<Rightarrow> kbind (create path T_DEV (ucast maj) (ucast mnr)) created))))"

definition sys_chdir :: "('z files_scheme, int) kern" where
  "sys_chdir =
     kbind (begin_op []) (\<lambda>_.
     kbind (argstr 0) (\<lambda>r. case r of None \<Rightarrow> kseq [end_op] (kret (- 1))
     | Some path \<Rightarrow>
         kbind (namei path) (\<lambda>r. case r of None \<Rightarrow> kseq [end_op] (kret (- 1))
         | Some ip \<Rightarrow>
             kbind (ilock ip) (\<lambda>_.
             kcond (\<lambda>s. itype (icache s ! ip) \<noteq> T_DIR)
               (kseq [iunlockput ip, end_op] (kret (- 1)))
               (kseq
                  [iunlock ip,
                   (\<lambda>s. iput (the (cwd (curproc s))) s),
                   end_op,
                   kmod (upd_me (\<lambda>p. p\<lparr>cwd := Some ip\<rparr>))]
                  (kret 0))))))"

definition sys_pipe :: "('z files_scheme, int) kern" where
  "sys_pipe =
     kbind (argptr 0 8) (\<lambda>r. case r of None \<Rightarrow> kret (- 1)
     | Some a \<Rightarrow>
         kbind pipealloc (\<lambda>r. case r of None \<Rightarrow> kret (- 1)
         | Some (rf0, wf0) \<Rightarrow>
             kbind (fdalloc rf0) (\<lambda>r. case r of None \<Rightarrow> kseq [fileclose rf0, fileclose wf0] (kret (- 1))
             | Some fd0 \<Rightarrow>
                 kbind (fdalloc wf0) (\<lambda>r. case r of
                   None \<Rightarrow> kseq
                     [kmod (upd_me (\<lambda>p. p\<lparr>ofile := (ofile p)[fd0 := None]\<rparr>)),
                      fileclose rf0,
                      fileclose wf0]
                     (kret (- 1))
                 | Some fd1 \<Rightarrow> kseq
                     [vput32 a (of_nat fd0),
                      vput32 (a + 4) (of_nat fd1)]
                     (kret 0)))))"

end
