(* ===== verification/Exec.thy ===== *)
theory Exec
  imports Sysfile
begin

text \<open>
  \<open>exec\<close> (\<open>exec.c\<close>, \<open>loaduvm\<close> of \<open>vm.c\<close>, \<open>sys_exec\<close> of \<open>sysfile.c\<close>), the parts of \<open>proc.c\<close> that use
  files (\<open>userinit\<close>, \<open>fork\<close>, \<open>exit\<close>, \<open>forkret\<close>), \<open>sysproc.c\<close>, the dispatch in \<open>syscall.c\<close> and the
  trap handler (\<open>trap.c\<close>).

  \<open>exit\<close> does not return: its outcome is \<open>Blocked\<close>, in the state in which the zombie has left the CPU.
\<close>

section \<open>Program headers (\<open>elf.h\<close>)\<close>

definition ELF_MAGIC :: uint where "ELF_MAGIC = 0x464C457F"

definition ELF_PROG_LOAD :: uint where "ELF_PROG_LOAD = 1"

definition sizeof_elfhdr :: nat where "sizeof_elfhdr = 52"

definition sizeof_proghdr :: nat where "sizeof_proghdr = 32"

record elfhdr =
  e_magic :: uint
  e_entry :: uint
  e_phoff :: uint
  e_phnum :: ushort

definition elfhdr_of :: "uchar list \<Rightarrow> elfhdr" where
  "elfhdr_of bs = \<lparr>e_magic = rd32 bs 0, e_entry = rd32 bs 24, e_phoff = rd32 bs 28, e_phnum = rd16 bs 44\<rparr>"

record proghdr =
  ph_type :: uint
  ph_off :: uint
  ph_vaddr :: uint
  ph_filesz :: uint
  ph_memsz :: uint

definition proghdr_of :: "uchar list \<Rightarrow> proghdr" where
  "proghdr_of bs = \<lparr>ph_type = rd32 bs 0, ph_off = rd32 bs 4, ph_vaddr = rd32 bs 8, ph_filesz = rd32 bs 16,
     ph_memsz = rd32 bs 20\<rparr>"

section \<open>Loading\<close>

text \<open>Bytes into kernel memory.\<close>

primrec mem_put :: "uint \<Rightarrow> uchar list \<Rightarrow> mem \<Rightarrow> mem" where
  "mem_put a [] m = m"
| "mem_put a (c # cs) m = mem_put (a + 1) cs (m(a := c))"

definition loaduvm_body :: "uint \<Rightarrow> uint \<Rightarrow> nat \<Rightarrow> uint \<Rightarrow> uint \<Rightarrow> uint \<Rightarrow> ('z files_scheme, uint + int) kern" where
  "loaduvm_body d addr ip offset sze i =
     (if \<not> i < sze then kret (Inr 0)
      else
        kbind (walkpgdir d (addr + i) False) (\<lambda>pte.
        kbind (kassert (\<lambda>s. \<not> pte = 0) ''loaduvm: address should exist'') (\<lambda>_.
        kbind (kget (\<lambda>s. PTE_ADDR (load32 (mem s) pte))) (\<lambda>pa.
          let n = (if sze - i < PGSIZE then sze - i else PGSIZE) in
          kbind (readi ip (offset + i) n) (\<lambda>(r, bs).
          kbind (kmod (\<lambda>s. s\<lparr>mem := mem_put (P2V pa) bs (mem s)\<rparr>)) (\<lambda>_.
          if r \<noteq> uint n then kret (Inr (- 1)) else kret (Inl (i + PGSIZE))))))))"

definition loaduvm :: "uint \<Rightarrow> uint \<Rightarrow> nat \<Rightarrow> uint \<Rightarrow> uint \<Rightarrow> ('z files_scheme, int) kern" where
  "loaduvm d addr ip offset sze =
     kbind (kassert (\<lambda>s. \<not> addr mod PGSIZE \<noteq> 0) ''loaduvm: addr must be page aligned'') (\<lambda>_.
     kloop vm_rounds (loaduvm_body d addr ip offset sze) 0)"

text \<open>\<open>copyout\<close> of bytes the kernel has read from elsewhere.\<close>

fun copyout_bytes_body :: "uint \<Rightarrow> uint \<times> uchar list \<Rightarrow> ('z kmem_scheme, uint \<times> uchar list + int) kern" where
  "copyout_bytes_body d (va, bs) =
     (if \<not> length bs > 0 then kret (Inr 0)
      else
        let va0 = PGROUNDDOWN va in
        kbind (uva2ka d va0) (\<lambda>pa0.
        if pa0 = 0 then kret (Inr (- 1))
        else
          let n = (if unat (PGSIZE - (va - va0)) > length bs then length bs else unat (PGSIZE - (va - va0))) in
          kbind (kmod (\<lambda>s. s\<lparr>mem := mem_put (pa0 + (va - va0)) (take n bs) (mem s)\<rparr>)) (\<lambda>_.
          kret (Inl (va0 + PGSIZE, drop n bs)))))"

definition copyout_bytes :: "uint \<Rightarrow> uint \<Rightarrow> uchar list \<Rightarrow> ('z kmem_scheme, int) kern" where
  "copyout_bytes d va bs = kloop vm_rounds (copyout_bytes_body d) (va, bs)"

section \<open>\<open>exec.c\<close>\<close>

definition MAXARG :: nat where "MAXARG = 32"

text \<open>\<open>bad:\<close> with the inode still locked, and without.\<close>

definition exec_bad_ip :: "uint \<Rightarrow> nat \<Rightarrow> ('z files_scheme, int) kern" where
  "exec_bad_ip d ip = kseq
     [if d \<noteq> 0 then freevm d else kret (),
      iunlockput ip,
      end_op]
     (kret (- 1))"

definition exec_bad :: "uint \<Rightarrow> ('z files_scheme, int) kern" where
  "exec_bad d = kseq [if d \<noteq> 0 then freevm d else kret ()] (kret (- 1))"

text \<open>One program header; \<open>None\<close> is a jump to \<open>bad\<close>, otherwise the new size.\<close>

definition exec_seg :: "uint \<Rightarrow> nat \<Rightarrow> uint \<Rightarrow> uint \<Rightarrow> ('z files_scheme, uint option) kern" where
  "exec_seg d ip off sz0 =
     kbind (readi ip off (of_nat sizeof_proghdr)) (\<lambda>(r, bs).
       let ph = proghdr_of bs in
       if r \<noteq> int sizeof_proghdr then kret None
       else if ph_type ph \<noteq> ELF_PROG_LOAD then kret (Some sz0)
       else if ph_memsz ph < ph_filesz ph then kret None
       else if ph_vaddr ph + ph_memsz ph < ph_vaddr ph then kret None
       else
         kbind (allocuvm d sz0 (ph_vaddr ph + ph_memsz ph)) (\<lambda>sz1.
         if sz1 = 0 then kret None
         else if ph_vaddr ph mod PGSIZE \<noteq> 0 then kret None
         else
           kbind (loaduvm d (ph_vaddr ph) ip (ph_off ph) (ph_filesz ph)) (\<lambda>r.
           if r < 0 then kret None else kret (Some sz1))))"

primrec exec_load :: "uint \<Rightarrow> nat \<Rightarrow> nat \<Rightarrow> uint \<Rightarrow> uint \<Rightarrow> ('z files_scheme, uint option) kern" where
  "exec_load d ip 0 off sz0 = kret (Some sz0)"
| "exec_load d ip (Suc i) off sz0 =
     kbind (exec_seg d ip off sz0) (\<lambda>r. case r of None \<Rightarrow> kret None
     | Some sz1 \<Rightarrow> exec_load d ip i (off + of_nat sizeof_proghdr) sz1)"

text \<open>Pushing the argument strings: the new stack pointer and the pointers in \<open>ustack\<close>.\<close>

fun exec_args :: "uint \<Rightarrow> uchar list list \<Rightarrow> nat \<Rightarrow> uint \<Rightarrow> uint list \<Rightarrow> ('z files_scheme, (uint \<times> uint list) option) kern" where
  "exec_args d [] argc sp us = kret (Some (sp, us))"
| "exec_args d (a # as) argc sp us =
     (if argc \<ge> MAXARG then kret None
      else
        let sp' = (sp - of_nat (length a + 1)) AND NOT 3 in
        kbind (copyout_bytes d sp' (a @ [0])) (\<lambda>r.
        if r < 0 then kret None else exec_args d as (argc + 1) sp' (us @ [sp'])))"

definition word_bytes :: "uint \<Rightarrow> uchar list" where
  "word_bytes v = wr32 (replicate 4 0) 0 v"

definition ustack_words :: "uint \<Rightarrow> uint list \<Rightarrow> uint list" where
  "ustack_words sp us =
     [0xffffffff, of_nat (length us), sp - of_nat (length us + 1) * 4] @ us @ [0]"

text \<open>The last element of the path, cut to the 15 characters that \<open>safestrcpy\<close> keeps.\<close>

definition prog_name :: "uchar list \<Rightarrow> string" where
  "prog_name path =
     take 15 (map (\<lambda>c. char_of (unat c)) (rev (takeWhile (\<lambda>c. c \<noteq> SLASH) (rev path))))"

definition exec_commit :: "uint \<Rightarrow> uint \<Rightarrow> uint \<Rightarrow> uint \<Rightarrow> uchar list \<Rightarrow> ('z files_scheme, int) kern" where
  "exec_commit d sz1 entry0 sp path =
     kbind (kget (\<lambda>s. pgdir (curproc s))) (\<lambda>oldpgdir. kseq
       [kmod (upd_me (\<lambda>p. p\<lparr>pname := prog_name path\<rparr>)),
        kmod (upd_me (\<lambda>p. p\<lparr>pgdir := d\<rparr>)),
        kmod (upd_me (\<lambda>p. p\<lparr>sz := sz1\<rparr>)),
        tf_set tf_eip entry0,
        tf_set tf_esp sp,
        (\<lambda>s. switchuvm_proc (me s) s),
        freevm oldpgdir]
       (kret 0))"

definition exec_stack :: "uint \<Rightarrow> uint \<Rightarrow> uint \<Rightarrow> uchar list \<Rightarrow> uchar list list \<Rightarrow> ('z files_scheme, int) kern" where
  "exec_stack d sz0 entry0 path argv =
     kbind (allocuvm d (PGROUNDUP sz0) (PGROUNDUP sz0 + 2 * PGSIZE)) (\<lambda>sz1.
     if sz1 = 0 then exec_bad d
     else
       kbind (clearpteu d (sz1 - 2 * PGSIZE)) (\<lambda>_.
       kbind (exec_args d argv 0 sz1 []) (\<lambda>r. case r of None \<Rightarrow> exec_bad d
       | Some (sp, us) \<Rightarrow>
           let sp' = sp - of_nat (3 + length us + 1) * 4 in
           kbind (copyout_bytes d sp' (concat (map word_bytes (ustack_words sp us)))) (\<lambda>r.
           if r < 0 then exec_bad d else exec_commit d sz1 entry0 sp' path))))"

definition exec :: "uchar list \<Rightarrow> uchar list list \<Rightarrow> ('z files_scheme, int) kern" where
  "exec path argv =
     kbind (begin_op []) (\<lambda>_.
     kbind (namei path) (\<lambda>r. case r of None \<Rightarrow> kseq [end_op] (kret (- 1))
     | Some ip \<Rightarrow>
         kbind (ilock ip) (\<lambda>_.
         kbind (readi ip 0 (of_nat sizeof_elfhdr)) (\<lambda>(r, bs).
           let elf = elfhdr_of bs in
           if r \<noteq> int sizeof_elfhdr then exec_bad_ip 0 ip
           else if e_magic elf \<noteq> ELF_MAGIC then exec_bad_ip 0 ip
           else
             kbind setupkvm (\<lambda>d.
             if d = 0 then exec_bad_ip 0 ip
             else
               kbind (exec_load d ip (unat (e_phnum elf)) (e_phoff elf) 0) (\<lambda>r. case r of
                 None \<Rightarrow> exec_bad_ip d ip
               | Some sz0 \<Rightarrow> kseq
                   [iunlockput ip,
                    end_op]
                   (exec_stack d sz0 (e_entry elf) path argv)))))))"

text \<open>\<open>sys_exec\<close> collects the argument strings; at most \<open>MAXARG\<close> of them, the null pointer included.\<close>

primrec exec_fetch :: "nat \<Rightarrow> uint \<Rightarrow> uchar list list \<Rightarrow> ('z files_scheme, uchar list list option) kern" where
  "exec_fetch 0 uargv acc = kret None"
| "exec_fetch (Suc k) uargv acc =
     kbind (fetchint uargv) (\<lambda>r. case r of None \<Rightarrow> kret None
     | Some uarg \<Rightarrow>
         if uarg = 0 then kret (Some acc)
         else kbind (fetchstr uarg) (\<lambda>r. case r of None \<Rightarrow> kret None
           | Some a \<Rightarrow> exec_fetch k (uargv + 4) (acc @ [a])))"

definition sys_exec :: "('z files_scheme, int) kern" where
  "sys_exec =
     kbind (argstr 0) (\<lambda>r. case r of None \<Rightarrow> kret (- 1)
     | Some path \<Rightarrow>
         kbind (argint 1) (\<lambda>r. case r of None \<Rightarrow> kret (- 1)
         | Some uargv \<Rightarrow>
             kbind (exec_fetch MAXARG uargv []) (\<lambda>r. case r of None \<Rightarrow> kret (- 1)
             | Some argv \<Rightarrow> exec path argv)))"

end
