(* ===== verification/Syscall.thy ===== *)
theory Syscall
  imports Exec
begin

text \<open>
  The parts of \<open>proc.c\<close> that use files and the file system (\<open>userinit\<close>, \<open>fork\<close>, \<open>exit\<close>, \<open>forkret\<close>), the
  system calls of \<open>sysproc.c\<close>, the dispatch in \<open>syscall.c\<close>, and the trap handler (\<open>trap.c\<close>).

  \<open>exit\<close> does not return: its outcome is \<open>Blocked\<close>, in the state in which the zombie has left the CPU.
  The image of the first program, \<open>_binary_initcode_start\<close>, is linked in by the build: a parameter.
  Acknowledging an interrupt at the local APIC (\<open>lapiceoi\<close>) does not change the modelled state.
\<close>

record sys = files +
  ticks :: uint
  first :: bool

section \<open>\<open>proc.c\<close>\<close>

definition copy_tf :: "uint \<Rightarrow> uint \<Rightarrow> mem \<Rightarrow> mem" where
  "copy_tf dst src m = memmove m dst src sizeof_trapframe"

text \<open>The segment selectors and flags of a fresh user process.\<close>

definition UCODE_SEL :: uint where "UCODE_SEL = (push_bit 3 4) OR 3"

definition UDATA_SEL :: uint where "UDATA_SEL = (push_bit 3 5) OR 3"

definition set_state_locked :: "nat \<Rightarrow> ('z procs_scheme, unit) kern" where
  "set_state_locked i = kseq
     [acquire PtableLock,
      kmod (upd_proc i (\<lambda>p. p\<lparr>state := RUNNABLE\<rparr>)),
      release PtableLock]
     (kret ())"

definition userinit :: "uint \<Rightarrow> uint \<Rightarrow> ('z sys_scheme, unit) kern" where
  "userinit initcode codesize =
     kbind allocproc (\<lambda>r. let i = the r in
     kbind (kmod (\<lambda>s. s\<lparr>initproc := r\<rparr>)) (\<lambda>_.
     kbind setupkvm (\<lambda>d.
     kbind (kmod (upd_proc i (\<lambda>p. p\<lparr>pgdir := d\<rparr>))) (\<lambda>_.
     kbind (kassert (\<lambda>s. \<not> d = 0) ''userinit: out of memory?'') (\<lambda>_.
     kbind (inituvm d initcode codesize) (\<lambda>_.
     kbind (kmod (upd_proc i (\<lambda>p. p\<lparr>sz := PGSIZE\<rparr>))) (\<lambda>_.
     kbind (kget (\<lambda>s. tf (ptable s ! i))) (\<lambda>f. kseq
       [kmod (\<lambda>s. s\<lparr>mem := memset (mem s) f 0 sizeof_trapframe\<rparr>),
        kmod (\<lambda>s. s\<lparr>mem := store32 (mem s) (f + tf_cs) UCODE_SEL\<rparr>),
        kmod (\<lambda>s. s\<lparr>mem := store32 (mem s) (f + 44) UDATA_SEL\<rparr>),
        kmod (\<lambda>s. s\<lparr>mem := store32 (mem s) (f + 40) (load32 (mem s) (f + 44))\<rparr>),
        kmod (\<lambda>s. s\<lparr>mem := store32 (mem s) (f + 72) (load32 (mem s) (f + 44))\<rparr>),
        kmod (\<lambda>s. s\<lparr>mem := store32 (mem s) (f + 64) FL_IF\<rparr>),
        kmod (\<lambda>s. s\<lparr>mem := store32 (mem s) (f + tf_esp) PGSIZE\<rparr>),
        kmod (\<lambda>s. s\<lparr>mem := store32 (mem s) (f + tf_eip) 0\<rparr>),
        kmod (upd_proc i (\<lambda>p. p\<lparr>pname := ''initcode''\<rparr>)),
        kbind (namei [SLASH]) (\<lambda>c. kmod (upd_proc i (\<lambda>p. p\<lparr>cwd := c\<rparr>))),
        set_state_locked i]
       (kret ())))))))))"

text \<open>Duplicating the open files and the directory of the parent.\<close>

definition fork_files :: "nat \<Rightarrow> ('z sys_scheme, unit) kern" where
  "fork_files np = kseq
     [kfor [0..<NOFILE] (\<lambda>i.
        kbind (kget (\<lambda>s. ofile (curproc s) ! i)) (\<lambda>o'. case o' of None \<Rightarrow> kret ()
        | Some f \<Rightarrow> kbind (filedup f) (\<lambda>g. kmod (upd_proc np (\<lambda>p. p\<lparr>ofile := (ofile p)[i := Some g]\<rparr>))))),
      kbind (\<lambda>s. idup (the (cwd (curproc s))) s) (\<lambda>c. kmod (upd_proc np (\<lambda>p. p\<lparr>cwd := Some c\<rparr>)))]
     (kret ())"

definition fork_fail :: "nat \<Rightarrow> ('z sys_scheme, int) kern" where
  "fork_fail np = kseq
     [(\<lambda>s. kfree (kstack (ptable s ! np)) s),
      kmod (upd_proc np (\<lambda>p. p\<lparr>kstack := 0\<rparr>)),
      kmod (upd_proc np (\<lambda>p. p\<lparr>state := UNUSED\<rparr>))]
     (kret (- 1))"

definition fork :: "('z sys_scheme, int) kern" where
  "fork =
     kbind allocproc (\<lambda>r. case r of None \<Rightarrow> kret (- 1)
     | Some np \<Rightarrow>
         kbind (\<lambda>s. copyuvm (pgdir (curproc s)) (sz (curproc s)) s) (\<lambda>d.
         kbind (kmod (upd_proc np (\<lambda>p. p\<lparr>pgdir := d\<rparr>))) (\<lambda>_.
         if d = 0 then fork_fail np
         else kseq
           [kmod (\<lambda>s. upd_proc np (\<lambda>p. p\<lparr>sz := sz (curproc s)\<rparr>) s),
            kmod (\<lambda>s. upd_proc np (\<lambda>p. p\<lparr>parent := Some (me s)\<rparr>) s),
            kmod (\<lambda>s. s\<lparr>mem := copy_tf (tf (ptable s ! np)) (tf (curproc s)) (mem s)\<rparr>),
            kmod (\<lambda>s. s\<lparr>mem := store32 (mem s) (tf (ptable s ! np) + tf_eax) 0\<rparr>),
            fork_files np,
            kmod (\<lambda>s. upd_proc np (\<lambda>p. p\<lparr>pname := take 15 (pname (curproc s))\<rparr>) s)]
           (kbind (kget (\<lambda>s. pid (ptable s ! np))) (\<lambda>q. kseq [set_state_locked np] (kret q))))))"

definition exit_files :: "('z sys_scheme, unit) kern" where
  "exit_files = kseq
     [kfor [0..<NOFILE] (\<lambda>fd.
        kbind (kget (\<lambda>s. ofile (curproc s) ! fd)) (\<lambda>o'. case o' of None \<Rightarrow> kret ()
        | Some f \<Rightarrow> kseq
            [fileclose f,
             kmod (upd_me (\<lambda>p. p\<lparr>ofile := (ofile p)[fd := None]\<rparr>))]
            (kret ()))),
      begin_op [],
      (\<lambda>s. iput (the (cwd (curproc s))) s),
      end_op,
      kmod (upd_me (\<lambda>p. p\<lparr>cwd := None\<rparr>))]
     (kret ())"

definition exit :: "int \<Rightarrow> ('z sys_scheme, 'a) kern" where
  "exit status = kseq
     [kassert (\<lambda>s. \<not> cproc (mycpu s) = initproc s) ''init exiting'',
      exit_files,
      exit_locked status]
     (kpanic ''zombie exit'')"

definition forkret :: "('z sys_scheme, unit) kern" where
  "forkret = kseq
     [release PtableLock,
      kif first
        (kseq
           [kmod (\<lambda>s. s\<lparr>first := False\<rparr>),
            iinit ROOTDEV,
            initlog ROOTDEV]
           (kret ()))]
     (kret ())"

section \<open>\<open>sysproc.c\<close>\<close>

definition sys_fork :: "('z sys_scheme, int) kern" where
  "sys_fork = fork"

text \<open>An argument that cannot be fetched leaves the local variable as it is: a parameter.\<close>

definition sys_exit :: "uint \<Rightarrow> ('z sys_scheme, int) kern" where
  "sys_exit junk = kbind (argint 0) (\<lambda>r. exit (sint (case r of Some v \<Rightarrow> v | None \<Rightarrow> junk)))"

definition sys_wait :: "('z sys_scheme, int) kern" where
  "sys_wait = kbind (argint 0) (\<lambda>_. wait [])"

definition sys_kill :: "('z sys_scheme, int) kern" where
  "sys_kill = kbind (argint 0) (\<lambda>r. case r of None \<Rightarrow> kret (- 1) | Some v \<Rightarrow> kill (sint v))"

definition sys_getpid :: "('z sys_scheme, int) kern" where
  "sys_getpid = kget (\<lambda>s. pid (curproc s))"

definition sys_sbrk :: "('z sys_scheme, int) kern" where
  "sys_sbrk =
     kbind (argint 0) (\<lambda>r. case r of None \<Rightarrow> kret (- 1)
     | Some n \<Rightarrow>
         kbind (kget (\<lambda>s. sint (sz (curproc s)))) (\<lambda>addr.
         kbind (growproc (sint n)) (\<lambda>r.
         if r < 0 then kret (- 1) else kret addr)))"

text \<open>\<open>ticks - ticks0 < n\<close> compares unsigned numbers.\<close>

fun sleep_loop :: "('z sys_scheme \<Rightarrow> 'z sys_scheme) list \<Rightarrow> uint \<Rightarrow> uint \<Rightarrow> ('z sys_scheme, int) kern" where
  "sleep_loop envs ticks0 n =
     kcond (\<lambda>s. ticks s - ticks0 < n)
       (kcond (\<lambda>s. killed (curproc s) \<noteq> 0)
          (kseq [release TicksLock] (kret (- 1)))
          (case envs of
             [] \<Rightarrow> sleep_forever Ch_ticks TicksLock
           | e # es \<Rightarrow> kbind (sleep e Ch_ticks TicksLock) (\<lambda>_. sleep_loop es ticks0 n)))
       (kseq [release TicksLock] (kret 0))"

definition sys_sleep :: "('z sys_scheme \<Rightarrow> 'z sys_scheme) list \<Rightarrow> ('z sys_scheme, int) kern" where
  "sys_sleep envs =
     kbind (argint 0) (\<lambda>r. case r of None \<Rightarrow> kret (- 1)
     | Some n \<Rightarrow>
         kbind (acquire TicksLock) (\<lambda>_.
         kbind (kget ticks) (\<lambda>ticks0. sleep_loop envs ticks0 n)))"

definition sys_uptime :: "('z sys_scheme, int) kern" where
  "sys_uptime =
     kbind (acquire TicksLock) (\<lambda>_.
     kbind (kget ticks) (\<lambda>xticks. kseq [release TicksLock] (kret (sint xticks))))"

definition sys_hello :: "('z sys_scheme, int) kern" where
  "sys_hello = kseq [hello] (kret 0)"

section \<open>\<open>syscall.c\<close>\<close>

text \<open>The table \<open>syscalls\<close>, indexed by the numbers of \<open>syscall.h\<close>.\<close>

definition syscalls :: "uint \<Rightarrow> ('z sys_scheme, int) kern list" where
  "syscalls junk =
     [sys_fork, sys_exit junk, sys_wait, sys_pipe, sys_read, sys_kill, sys_exec, sys_fstat, sys_chdir, sys_dup,
      sys_getpid, sys_sbrk, sys_sleep [], sys_uptime, sys_open, sys_write, sys_mknod, sys_unlink, sys_link,
      sys_mkdir, sys_close, sys_hello]"

definition syscall :: "uint \<Rightarrow> ('z sys_scheme, unit) kern" where
  "syscall junk =
     kbind (tf_get tf_eax) (\<lambda>eax.
     let num = sint eax in
     if num > 0 \<and> num < 23 then
       kbind (syscalls junk ! nat (num - 1)) (\<lambda>r. tf_set tf_eax (word_of_int r))
     else kseq
       [(\<lambda>s. cprintf (\<lambda>_. pname (curproc s)) (\<lambda>k. [word_of_int (pid (curproc s)), 1, eax] ! k)
           ''%d %s: unknown sys call %d\<newline>'' s),
        tf_set tf_eax (- 1)]
       (kret ()))"

section \<open>\<open>trap.c\<close>\<close>

definition T_SYSCALL :: uint where "T_SYSCALL = 64"

definition T_IRQ0 :: uint where "T_IRQ0 = 32"

definition IRQ_TIMER :: uint where "IRQ_TIMER = 0"

definition IRQ_KBD :: uint where "IRQ_KBD = 1"

definition IRQ_COM1 :: uint where "IRQ_COM1 = 4"

definition IRQ_IDE :: uint where "IRQ_IDE = 14"

definition IRQ_SPURIOUS :: uint where "IRQ_SPURIOUS = 31"

definition is_killed :: "'z procs_scheme \<Rightarrow> bool" where
  "is_killed s \<longleftrightarrow> killed (curproc s) \<noteq> 0"

definition timer_tick :: "('z sys_scheme, unit) kern" where
  "timer_tick = kseq
     [acquire TicksLock,
      kmod (\<lambda>s. s\<lparr>ticks := ticks s + 1\<rparr>),
      wakeup Ch_ticks,
      release TicksLock]
     (kret ())"

text \<open>
  The \<open>switch\<close> of \<open>trap\<close>. \<open>keys\<close> are the characters the keyboard or the serial port delivers, and
  \<open>cr2\<close> is the faulting address.
\<close>

definition trap_switch :: "int list \<Rightarrow> uint \<Rightarrow> uint \<Rightarrow> uint \<Rightarrow> uint \<Rightarrow> uint \<Rightarrow> ('z sys_scheme, unit) kern" where
  "trap_switch keys cr2 trapno err cs eip =
     (if trapno = T_IRQ0 + IRQ_TIMER then kif (\<lambda>s. curcpu s = 0) timer_tick
      else if trapno = T_IRQ0 + IRQ_IDE then kret ()
      else if trapno = T_IRQ0 + IRQ_IDE + 1 then kret ()
      else if trapno = T_IRQ0 + IRQ_KBD then consoleintr keys
      else if trapno = T_IRQ0 + IRQ_COM1 then consoleintr keys
      else if trapno = T_IRQ0 + 7 \<or> trapno = T_IRQ0 + IRQ_SPURIOUS then
        (\<lambda>s. cprintf (\<lambda>_. []) (\<lambda>k. [of_nat (curcpu s), cs, eip] ! k) ''cpu%d: spurious interrupt at %x:%x\<newline>'' s)
      else kcond (\<lambda>s. cproc (mycpu s) = None \<or> cs AND 3 = 0)
        (kseq
           [(\<lambda>s. cprintf (\<lambda>_. []) (\<lambda>k. [trapno, of_nat (curcpu s), eip, cr2] ! k)
               ''unexpected trap %d from cpu %d eip %x (cr2=0x%x)\<newline>'' s)]
           (kpanic ''trap''))
        (kseq
           [(\<lambda>s. cprintf (\<lambda>_. pname (curproc s))
               (\<lambda>k. [word_of_int (pid (curproc s)), 1, trapno, err, of_nat (curcpu s), eip, cr2] ! k)
               ''pid %d %s: trap %d err %d on cpu %d eip 0x%x addr 0x%x--kill proc\<newline>'' s),
            kmod (upd_me (\<lambda>p. p\<lparr>killed := 1\<rparr>))]
           (kret ())))"

text \<open>Exit if the process has been killed and was in user mode.\<close>

definition exit_if_killed :: "uint \<Rightarrow> ('z sys_scheme, unit) kern" where
  "exit_if_killed cs =
     kif (\<lambda>s. cproc (mycpu s) \<noteq> None \<and> is_killed s \<and> cs AND 3 = 3) (exit 0)"

definition trap :: "('z sys_scheme \<Rightarrow> 'z sys_scheme) \<Rightarrow> int list \<Rightarrow> uint \<Rightarrow> uint \<Rightarrow> uint \<Rightarrow> ('z sys_scheme, unit) kern" where
  "trap others keys cr2 junk tf0 =
     kbind (kget (\<lambda>s. load32 (mem s) (tf0 + tf_trapno))) (\<lambda>trapno.
     kbind (kget (\<lambda>s. load32 (mem s) (tf0 + 52))) (\<lambda>err.
     kbind (kget (\<lambda>s. load32 (mem s) (tf0 + tf_eip))) (\<lambda>eip.
     kbind (kget (\<lambda>s. load32 (mem s) (tf0 + tf_cs) AND 0xFFFF)) (\<lambda>cs.
     if trapno = T_SYSCALL then kseq
       [kif is_killed (exit 0),
        kmod (upd_me (\<lambda>p. p\<lparr>tf := tf0\<rparr>)),
        syscall junk,
        kif is_killed (exit 0)]
       (kret ())
     else kseq
       [trap_switch keys cr2 trapno err cs eip,
        exit_if_killed cs,
        kif (\<lambda>s. cproc (mycpu s) \<noteq> None \<and> state (curproc s) = RUNNING \<and> trapno = T_IRQ0 + IRQ_TIMER)
          (yield others),
        exit_if_killed cs]
       (kret ())))))"

end
