(* ===== verification/Holds.thy ===== *)
theory Holds
  imports Bio
begin

text \<open>
  Rules to run the lock routines along a straight line of code. \<open>holds X s\<close> says that exactly the
  spin locks in \<open>X\<close> are taken, all of them by the CPU that runs; each rule gives the outcome of a
  routine and the locks held afterwards. Routines that take a lock and give it back keep \<open>holds X\<close>.
\<close>

definition holds :: "lockid set \<Rightarrow> 'z machine_scheme \<Rightarrow> bool" where
  "holds X s \<longleftrightarrow> locks_ok s \<and> (\<forall>l. locked (locks s l) \<noteq> 0 \<longleftrightarrow> l \<in> X) \<and> (\<forall>l \<in> X. lcpu (locks s l) = Some (curcpu s))"

lemma holds_free: "holds X s \<Longrightarrow> l \<notin> X \<Longrightarrow> lock_free l s"
  by (auto simp: holds_def lock_free_def)

lemma holds_held: "holds X s \<Longrightarrow> l \<in> X \<Longrightarrow> lock_held l s"
  by (auto simp: holds_def lock_held_def holding_def)

lemma holds_ctl: "lock_ctl t = lock_ctl s \<Longrightarrow> holds X t = holds X s"
  using locks_ok_ctl [of t s] by (simp add: holds_def lock_ctl_def)

lemma holds_acquired: "holds X s \<Longrightarrow> l \<notin> X \<Longrightarrow> holds (insert l X) (acquired l s)"
  using locks_ok_acquired [of s l] by (auto simp: holds_def acquired_def)

lemma holds_released: "holds X s \<Longrightarrow> l \<in> X \<Longrightarrow> holds (X - {l}) (released l s)"
  using locks_ok_released [of s l] by (auto simp: holds_def released_def holding_def)

lemma acquire_holds: "holds X s \<Longrightarrow> l \<notin> X \<Longrightarrow> acquire l s = Ok () (acquired l s)"
  by (simp add: acquire_lock_free holds_free)

lemma release_holds: "holds X s \<Longrightarrow> l \<in> X \<Longrightarrow> release l s = Ok () (released l s)"
  by (simp add: release_lock_held holds_held)

definition woken_up :: "chan \<Rightarrow> 'z procs_scheme \<Rightarrow> 'z procs_scheme" where
  "woken_up ch s = released PtableLock ((acquired PtableLock s)\<lparr>ptable := map (wake ch) (ptable s)\<rparr>)"

lemma holds_upd [simp]:
  "holds X (s\<lparr>ptable := pt\<rparr>) = holds X s" "holds X (t\<lparr>bufs := bs\<rparr>) = holds X t"
  "holds X (t\<lparr>slocks := sl\<rparr>) = holds X t" "holds X (t\<lparr>disk := dk\<rparr>) = holds X t"
  "holds X (upd_buf b g t) = holds X t" "holds X (upd_slock l h t) = holds X t"
  "holds X (upd_proc i f s) = holds X s" "holds X (u\<lparr>mem := m\<rparr>) = holds X u"
  by (rule holds_ctl; simp add: lock_ctl_def upd_buf_def upd_slock_def upd_proc_def)+

lemma wakeup_holds: "holds X s \<Longrightarrow> PtableLock \<notin> X \<Longrightarrow> wakeup ch s = Ok () (woken_up ch s)"
  by (simp add: woken_up_def wakeup_eq holds_free)

lemma holds_woken [simp]:
  assumes "holds X s" "PtableLock \<notin> X"
  shows "holds X (woken_up ch s)"
proof -
  have "holds (insert PtableLock X - {PtableLock}) (woken_up ch s)"
    unfolding woken_up_def by (rule holds_released) (simp_all add: holds_acquired assms)
  with assms(2) show ?thesis by simp
qed

text \<open>What the states of the lock routines keep of the layers above.\<close>

lemma holds_frames [simp]:
  "bufs (acquired l s) = bufs s" "bufs (released l s) = bufs s" "bufs (woken_up ch s) = bufs s"
  "slocks (acquired l s) = slocks s" "slocks (released l s) = slocks s" "slocks (woken_up ch s) = slocks s"
  "disk (acquired l s) = disk s" "disk (released l s) = disk s" "disk (woken_up ch s) = disk s"
  "disksize (acquired l s) = disksize s" "disksize (released l s) = disksize s" "disksize (woken_up ch s) = disksize s"
  for s :: "'z bcache_scheme"
  by (simp_all add: acquired_def released_def woken_up_def upd_lock_def upd_mycpu_def)

lemma upd_frames [simp]:
  "bufs (upd_slock l f s) = bufs s" "slocks (upd_slock l f s) = (slocks s)(l := f (slocks s l))"
  "disk (upd_slock l f s) = disk s" "disksize (upd_slock l f s) = disksize s"
  "bufs (upd_buf b g s) = (bufs s)[b := g (bufs s ! b)]" "slocks (upd_buf b g s) = slocks s"
  "disk (upd_buf b g s) = disk s" "disksize (upd_buf b g s) = disksize s"
  by (simp_all add: upd_slock_def upd_buf_def)

section \<open>Sleep locks\<close>

text \<open>Taking and giving back a sleep lock that no other thread wants.\<close>

lemma acquiresleep_free:
  fixes s :: "'z bcache_scheme"
  assumes "holds {} s" "slocked (slocks s l) = 0"
  shows "\<exists>t. acquiresleep [] l s = Ok () t \<and> holds {} t \<and> bufs t = bufs s \<and> disk t = disk s \<and> disksize t = disksize s
    \<and> (\<exists>q. slocks t = (slocks s)(l := (slocks s l)\<lparr>slocked := 1, spid := q\<rparr>))"
proof -
  define a where "a = acquired l s"
  define b where "b = upd_slock l (\<lambda>x. x\<lparr>slocked := 1\<rparr>) a"
  define c where "c = upd_slock l (\<lambda>x. x\<lparr>spid := pid (curproc b)\<rparr>) b"
  have h: "holds {l} a" "holds {l} c" using holds_acquired [OF assms(1), of l] by (simp_all add: a_def b_def c_def)
  have "acquiresleep [] l s = Ok () (released l c)"
    using assms h by (simp add: acquiresleep_def kbind_apply acquire_holds release_holds a_def [symmetric])
      (simp add: a_def b_def c_def release_holds)
  moreover have "holds {} (released l c)" using holds_released [OF h(2), of l] by simp
  ultimately show ?thesis by (intro exI [of _ "released l c"]) (auto simp: a_def b_def c_def)
qed

lemma releasesleep_eq:
  fixes s :: "'z bcache_scheme"
  assumes "holds {} s" "l \<noteq> PtableLock"
  shows "\<exists>t. releasesleep l s = Ok () t \<and> holds {} t \<and> bufs t = bufs s \<and> disk t = disk s \<and> disksize t = disksize s
    \<and> slocks t = (slocks s)(l := (slocks s l)\<lparr>slocked := 0, spid := 0\<rparr>)"
proof -
  define a where "a = acquired l s"
  define b where "b = upd_slock l (\<lambda>x. x\<lparr>spid := 0\<rparr>) (upd_slock l (\<lambda>x. x\<lparr>slocked := 0\<rparr>) a)"
  define c where "c = woken_up (Ch_lock l) b"
  have h: "holds {l} a" "holds {l} b" using holds_acquired [OF assms(1), of l] by (simp_all add: a_def b_def)
  with assms(2) have hc: "holds {l} c" by (simp add: c_def)
  have "releasesleep l s = Ok () (released l c)"
    using assms h hc
    by (simp add: releasesleep_def kbind_apply acquire_holds a_def [symmetric])
      (simp add: b_def [symmetric] wakeup_holds c_def [symmetric] release_holds)
  moreover have "holds {} (released l c)" using holds_released [OF hc, of l] by simp
  ultimately show ?thesis by (intro exI [of _ "released l c"]) (auto simp: a_def b_def c_def)
qed

lemma holdingsleep_eq:
  fixes s :: "'z bcache_scheme"
  assumes "holds {} s"
  shows "\<exists>t. holdingsleep l s = Ok (slocked (slocks s l)) t \<and> holds {} t \<and> bufs t = bufs s \<and> disk t = disk s
    \<and> disksize t = disksize s \<and> slocks t = slocks s"
proof -
  define a where "a = acquired l s"
  have h: "holds {l} a" using holds_acquired [OF assms(1), of l] by (simp add: a_def)
  have "holdingsleep l s = Ok (slocked (slocks s l)) (released l a)"
    using assms h by (simp add: holdingsleep_def kbind_apply acquire_holds a_def [symmetric] release_holds)
      (simp add: a_def)
  moreover have "holds {} (released l a)" using holds_released [OF h, of l] by simp
  ultimately show ?thesis by (intro exI [of _ "released l a"]) (auto simp: a_def)
qed

section \<open>The disk\<close>

text \<open>The flags a buffer can have: nothing read yet, valid, or valid and to be written.\<close>

definition flags_ok :: "uint \<Rightarrow> bool" where
  "flags_ok f \<longleftrightarrow> f = 0 \<or> f = B_VALID \<or> f = B_VALID OR B_DIRTY"

lemma flags_values [simp]:
  "(B_VALID OR B_DIRTY) AND B_DIRTY = B_DIRTY" "(B_VALID OR B_DIRTY) AND NOT B_DIRTY = B_VALID"
  "B_VALID AND B_DIRTY = 0" "B_VALID AND NOT B_DIRTY = B_VALID" "B_VALID AND B_VALID = B_VALID"
  "B_VALID OR B_VALID = B_VALID" "B_VALID \<noteq> 0" "B_DIRTY \<noteq> 0" "B_VALID OR B_DIRTY \<noteq> 0"
  "B_VALID OR B_DIRTY \<noteq> B_VALID" "B_VALID \<noteq> B_VALID OR B_DIRTY" "(B_VALID OR B_DIRTY) AND B_VALID = B_VALID"
  "(B_VALID OR B_DIRTY) OR B_DIRTY = B_VALID OR B_DIRTY" "B_VALID AND (B_VALID OR B_DIRTY) = B_VALID"
  "(B_VALID OR B_DIRTY) AND (B_VALID OR B_DIRTY) = B_VALID OR B_DIRTY"
  by (simp_all add: B_VALID_def B_DIRTY_def)

lemma iderw_read:
  fixes s :: "'z bcache_scheme"
  assumes "holds {} s" "slocked (slocks s (BufLock b)) = 1" "flags (bufs s ! b) = 0" "bdev (bufs s ! b) = 1"
    "blockno (bufs s ! b) < disksize s" "b < length (bufs s)"
  shows "\<exists>t. iderw b s = Ok () t \<and> holds {} t \<and> slocks t = slocks s \<and> disk t = disk s \<and> disksize t = disksize s
    \<and> bufs t = (bufs s)[b := (bufs s ! b)\<lparr>bdata := disk s (blockno (bufs s ! b)), flags := B_VALID\<rparr>]"
proof -
  obtain t where t: "holdingsleep (BufLock b) s = Ok (slocked (slocks s (BufLock b))) t" "holds {} t" "bufs t = bufs s"
    "disk t = disk s" "disksize t = disksize s" "slocks t = slocks s" using holdingsleep_eq [OF assms(1)] by blast
  with assms show ?thesis by (simp add: iderw_def kbind_apply upd_buf_def)
qed

lemma iderw_write:
  fixes s :: "'z bcache_scheme"
  assumes "holds {} s" "slocked (slocks s (BufLock b)) = 1" "flags (bufs s ! b) = B_VALID OR B_DIRTY"
    "bdev (bufs s ! b) = 1" "blockno (bufs s ! b) < disksize s" "b < length (bufs s)"
  shows "\<exists>t. iderw b s = Ok () t \<and> holds {} t \<and> slocks t = slocks s \<and> disksize t = disksize s
    \<and> disk t = (disk s)(blockno (bufs s ! b) := bdata (bufs s ! b))
    \<and> bufs t = (bufs s)[b := (bufs s ! b)\<lparr>flags := B_VALID\<rparr>]"
proof -
  obtain t where t: "holdingsleep (BufLock b) s = Ok (slocked (slocks s (BufLock b))) t" "holds {} t" "bufs t = bufs s"
    "disk t = disk s" "disksize t = disksize s" "slocks t = slocks s" using holdingsleep_eq [OF assms(1)] by blast
  with assms show ?thesis by (simp add: iderw_def kbind_apply upd_buf_def)
qed

section \<open>The frame of the block layer\<close>

text \<open>
  A projection that does not see locks, processes and the buffer cache keeps its value in every
  routine of the block layer.
\<close>

definition blk_indep :: "('z bcache_scheme \<Rightarrow> 'b) \<Rightarrow> bool" where
  "blk_indep f \<longleftrightarrow> (\<forall>s x. f (s\<lparr>cpus := x\<rparr>) = f s) \<and> (\<forall>s x. f (s\<lparr>locks := x\<rparr>) = f s) \<and> (\<forall>s x. f (s\<lparr>ptable := x\<rparr>) = f s)
     \<and> (\<forall>s x. f (s\<lparr>slocks := x\<rparr>) = f s) \<and> (\<forall>s x. f (s\<lparr>bufs := x\<rparr>) = f s) \<and> (\<forall>s x. f (s\<lparr>disk := x\<rparr>) = f s)"

lemma blk_indepD:
  assumes "blk_indep f"
  shows "f (s\<lparr>cpus := c\<rparr>) = f s" "f (s\<lparr>locks := x\<rparr>) = f s" "f (s\<lparr>ptable := y\<rparr>) = f s"
    "f (s\<lparr>slocks := z\<rparr>) = f s" "f (s\<lparr>bufs := bs\<rparr>) = f s" "f (s\<lparr>disk := d\<rparr>) = f s"
    "f (upd_buf b g s) = f s" "f (upd_slock l h s) = f s" "f (upd_proc i q s) = f s" "f (upd_me q s) = f s"
    "f (upd_mycpu k s) = f s" "f (upd_lock l m s) = f s"
  using assms by (simp_all add: blk_indep_def upd_buf_def upd_slock_def upd_proc_def upd_me_def upd_mycpu_def upd_lock_def)

lemma keeps_acquire_blk: "blk_indep f \<Longrightarrow> keeps f (acquire l)"
  unfolding acquire_def pushcli_def cli_def xchg_locked_def
  by (auto simp: keeps_def kbind_apply blk_indepD)

lemma keeps_popcli_blk: "blk_indep f \<Longrightarrow> keeps f popcli"
  unfolding popcli_def sti_def by (auto simp: keeps_def kbind_apply blk_indepD)

lemma keeps_release_blk: "blk_indep f \<Longrightarrow> keeps f (release l)"
  unfolding release_def using keeps_popcli_blk [of f]
  by (auto intro!: keeps_kbind keeps_mod simp: blk_indepD)

lemma keeps_wakeup_blk: "blk_indep f \<Longrightarrow> keeps f (wakeup ch)"
  unfolding wakeup_def wakeup1_def
  by (auto intro!: keeps_kbind keeps_mod keeps_acquire_blk keeps_release_blk simp: blk_indepD)

lemma keeps_sleep_forever_blk: "blk_indep f \<Longrightarrow> keeps f (sleep_forever ch l)"
  unfolding sleep_forever_def sleep_enter_def sched_def
  by (auto intro!: keeps_kbind keeps_mod keeps_kif keeps_acquire_blk keeps_release_blk simp: blk_indepD keeps_def [of f "Blocked"])

lemma keeps_acquiresleep_blk: "blk_indep f \<Longrightarrow> keeps f (acquiresleep [] l)"
  unfolding acquiresleep_def
  by (auto intro!: keeps_kbind keeps_mod keeps_kcond keeps_acquire_blk keeps_release_blk keeps_sleep_forever_blk simp: blk_indepD)

lemma keeps_releasesleep_blk: "blk_indep f \<Longrightarrow> keeps f (releasesleep l)"
  unfolding releasesleep_def
  by (auto intro!: keeps_kbind keeps_mod keeps_acquire_blk keeps_release_blk keeps_wakeup_blk simp: blk_indepD)

lemma keeps_holdingsleep_blk: "blk_indep f \<Longrightarrow> keeps f (holdingsleep l)"
  unfolding holdingsleep_def
  by (auto intro!: keeps_kbind keeps_acquire_blk keeps_release_blk)

lemma keeps_iderw_blk: "blk_indep f \<Longrightarrow> keeps f (iderw b)"
  unfolding iderw_def
  by (auto intro!: keeps_kbind keeps_kcond keeps_mod keeps_holdingsleep_blk simp: blk_indepD)

lemma keeps_bget_blk: "blk_indep f \<Longrightarrow> keeps f (bget d n)"
  unfolding bget_def bget_cached_def bget_recycle_def
  by (auto intro!: keeps_kbind keeps_kloop keeps_mod keeps_acquire_blk keeps_release_blk keeps_acquiresleep_blk
      simp: blk_indepD simp del: kloop.simps split: option.splits)

lemma keeps_bread_blk: "blk_indep f \<Longrightarrow> keeps f (bread d n)"
  unfolding bread_def by (auto intro!: keeps_kbind keeps_kif keeps_bget_blk keeps_iderw_blk)

lemma keeps_bwrite_blk: "blk_indep f \<Longrightarrow> keeps f (bwrite b)"
  unfolding bwrite_def by (auto intro!: keeps_kbind keeps_mod keeps_holdingsleep_blk keeps_iderw_blk simp: blk_indepD)

lemma keeps_brelse_blk: "blk_indep f \<Longrightarrow> keeps f (brelse b)"
  unfolding brelse_def
  by (auto intro!: keeps_kbind keeps_kif keeps_mod keeps_holdingsleep_blk keeps_releasesleep_blk keeps_acquire_blk
      keeps_release_blk simp: blk_indepD)

lemmas keeps_blk = keeps_bread_blk keeps_bwrite_blk keeps_brelse_blk

end
