(* ===== verification/Bcache.thy ===== *)
theory Bcache
  imports Holds
begin

text \<open>
  The buffer cache at work. The doubly linked list of \<open>bio.c\<close> is a ring through all buffers in
  the order of their last use; \<open>bget\<close> finds a cached block or takes the least recently used free
  buffer; \<open>bread\<close>, \<open>bwrite\<close> and \<open>brelse\<close> together implement a store of blocks.
\<close>

section \<open>The ring\<close>

lemma nth_upd_if: "(xs[i := x]) ! j = (if i = j \<and> i < length xs then x else xs ! j)"
  by (cases "i < length xs") (auto simp: nth_list_update list_update_beyond)

fun chain :: "(nat \<Rightarrow> nat) \<Rightarrow> nat \<Rightarrow> nat list \<Rightarrow> nat \<Rightarrow> bool" where
  "chain f a [] b \<longleftrightarrow> f a = b"
| "chain f a (x # xs) b \<longleftrightarrow> f a = x \<and> chain f x xs b"

lemma chain_append [simp]: "chain f a (xs @ y # ys) b \<longleftrightarrow> chain f a xs y \<and> chain f y ys b"
  by (induction xs arbitrary: a) auto

lemma chain_cong: "(\<And>i. i \<in> insert a (set xs) \<Longrightarrow> f i = g i) \<Longrightarrow> chain f a xs b = chain g a xs b"
  by (induction xs arbitrary: a) auto

lemma chain_upd: "c \<notin> insert a (set xs) \<Longrightarrow> chain (f(c := d)) a xs b = chain f a xs b"
  by (rule chain_cong) auto

lemma chain_end: "chain f a xs b \<Longrightarrow> f (last (a # xs)) = b"
  by (induction xs arbitrary: a) auto

lemma chain_redirect: "chain f a xs b \<Longrightarrow> distinct (a # xs) \<Longrightarrow> chain (f(last (a # xs) := c)) a xs c"
proof (induction xs arbitrary: a)
  case Nil
  then show ?case by simp
next
  case (Cons x xs)
  have "a \<noteq> last (x # xs)" using Cons.prems(2) last_in_set [of "x # xs"] by auto
  with Cons show ?case by auto
qed

text \<open>Leaving out the middle of a chain.\<close>

lemma chain_skip:
  assumes "chain f a (xs @ b # ys) a" "distinct (a # xs @ b # ys)"
  shows "chain (f(last (a # xs) := f b)) a (xs @ ys) a"
proof (cases ys)
  case Nil
  with assms chain_redirect [of f a xs b "f b"] show ?thesis by simp
next
  case (Cons y zs)
  have l: "last (a # xs) \<in> insert a (set xs)" using last_in_set [of "a # xs"] by auto
  have "chain (f(last (a # xs) := y)) a xs y"
    by (rule chain_redirect) (use assms in auto)
  moreover have "chain (f(last (a # xs) := y)) y zs a"
  proof (subst chain_upd)
    show "last (a # xs) \<notin> insert y (set zs)" using l assms(2) Cons by auto
    show "chain f y zs a" using assms(1) Cons by simp
  qed
  ultimately show ?thesis using Cons assms(1) by simp
qed

text \<open>The ring of \<open>bcache.head\<close>: \<open>next\<close> leads through \<open>xs\<close> and back, \<open>prev\<close> the other way.\<close>

definition ring :: "buf list \<Rightarrow> nat list \<Rightarrow> bool" where
  "ring bs xs \<longleftrightarrow> length bs = NBUF + 1 \<and> distinct xs \<and> set xs \<subseteq> {..<NBUF}
     \<and> chain (\<lambda>i. bnext (bs ! i)) NBUF xs NBUF \<and> chain (\<lambda>i. bprev (bs ! i)) NBUF (rev xs) NBUF"

lemma ringD:
  assumes "ring bs xs"
  shows "length bs = Suc NBUF" "distinct xs" "set xs \<subseteq> {..<NBUF}" "NBUF \<notin> set xs"
    "chain (\<lambda>i. bnext (bs ! i)) NBUF xs NBUF" "chain (\<lambda>i. bprev (bs ! i)) NBUF (rev xs) NBUF"
  using assms by (auto simp: ring_def)

lemma chain_hd: "chain f a xs b \<Longrightarrow> f a = hd (xs @ [b])"
  by (cases xs) auto

lemma in_insert_le: "i \<in> insert c A \<Longrightarrow> c \<le> n \<Longrightarrow> A \<subseteq> B \<Longrightarrow> B \<subseteq> {..n} \<Longrightarrow> i \<le> (n :: nat)"
  by auto

lemma link_front_fields:
  assumes "length bs = Suc NBUF" "b < NBUF" "bnext (bs ! NBUF) \<le> NBUF" "bnext (bs ! NBUF) \<noteq> b" "i \<le> NBUF"
  shows "bnext (link_front b bs ! i) = ((\<lambda>i. bnext (bs ! i))(b := bnext (bs ! NBUF), NBUF := b)) i"
    "bprev (link_front b bs ! i) = ((\<lambda>i. bprev (bs ! i))(b := NBUF, bnext (bs ! NBUF) := b)) i"
  using assms by (auto simp: link_front_def Let_def nth_list_update)

lemma ring_link_front:
  assumes r: "ring bs xs" and b: "b < NBUF" "b \<notin> set xs"
  shows "ring (link_front b bs) (b # xs)"
proof -
  note R = ringD [OF r]
  define n where "n = bnext (bs ! NBUF)"
  have n: "n = hd (xs @ [NBUF])" using chain_hd [OF R(5)] by (simp add: n_def)
  have nb: "n \<le> NBUF" "n \<noteq> b" "n \<in> insert NBUF (set xs)" using n R(3) b by (cases xs; auto)+
  note F = link_front_fields [OF R(1) b(1) nb(1,2) [unfolded n_def], folded n_def]
  have sub: "i \<le> NBUF" if "i \<in> insert c (set ys)" "c \<le> NBUF" "set ys \<subseteq> insert b (set xs)" for i c ys
    by (rule in_insert_le [OF that]) (use R(3) b in auto)
  have "chain (\<lambda>i. bnext (link_front b bs ! i)) NBUF (b # xs) NBUF
     = chain ((\<lambda>i. bnext (bs ! i))(b := n, NBUF := b)) NBUF (b # xs) NBUF"
    by (rule chain_cong, rule F, erule sub) auto
  moreover have "chain ((\<lambda>i. bnext (bs ! i))(b := n, NBUF := b)) b xs NBUF"
  proof (cases xs)
    case (Cons y ys)
    then have "chain (\<lambda>i. bnext (bs ! i)) y ys NBUF" "n = y" using R(5) n by auto
    with Cons R(4) b show ?thesis by (simp add: chain_upd)
  qed (use b n in simp)
  moreover have "chain (\<lambda>i. bprev (link_front b bs ! i)) NBUF (rev (b # xs)) NBUF
     = chain ((\<lambda>i. bprev (bs ! i))(b := NBUF, n := b)) NBUF (rev (b # xs)) NBUF"
    by (rule chain_cong, rule F, erule sub) auto
  moreover have "chain ((\<lambda>i. bprev (bs ! i))(b := NBUF, n := b)) NBUF (rev xs) b"
  proof (cases xs)
    case (Cons y ys)
    then have "chain (\<lambda>i. bprev (bs ! i)) NBUF (rev ys) y" "n = y" using R(6) n by auto
    with Cons R(2,4) b show ?thesis by (simp add: chain_upd)
  qed (use b n in simp)
  ultimately show ?thesis
    using R b nb by (simp add: ring_def) (simp add: link_front_def Let_def)
qed

lemma unlink_fields:
  assumes "length bs = Suc NBUF" "b < NBUF" "bnext (bs ! b) \<le> NBUF" "bnext (bs ! b) \<noteq> b" "bprev (bs ! b) \<le> NBUF" "i \<le> NBUF"
  shows "bnext (unlink b bs ! i) = ((\<lambda>i. bnext (bs ! i))(bprev (bs ! b) := bnext (bs ! b))) i"
    "bprev (unlink b bs ! i) = ((\<lambda>i. bprev (bs ! i))(bnext (bs ! b) := bprev (bs ! b))) i"
  using assms by (auto simp: unlink_def Let_def nth_list_update)

lemma ring_unlink:
  assumes r: "ring bs (xs @ b # ys)"
  shows "ring (unlink b bs) (xs @ ys)"
proof -
  note R = ringD [OF r]
  define n p where "n = bnext (bs ! b)" and "p = bprev (bs ! b)"
  have n: "n = hd (ys @ [NBUF])" and p: "p = hd (rev xs @ [NBUF])"
    using R(5,6) chain_hd [of _ b ys NBUF] chain_hd [of _ b "rev xs" NBUF] by (auto simp: n_def p_def)
  have b: "b < NBUF" using R(3) by simp
  have nb: "n \<le> NBUF" "n \<noteq> b" "p \<le> NBUF" using n p R(2,3) b by (cases ys; cases xs rule: rev_cases; auto)+
  note F = unlink_fields [OF R(1) b nb [unfolded n_def p_def], folded n_def p_def]
  have lp: "p = last (NBUF # xs)" "n = last (NBUF # rev ys)"
    using n p by ((cases xs rule: rev_cases; simp), (cases ys; simp))
  have sub: "i \<le> NBUF" if "i \<in> insert NBUF (set zs)" "set zs \<subseteq> set (xs @ ys)" for i zs
    by (rule in_insert_le [OF that(1) _ that(2)]) (use R(3) in auto)
  have "chain (\<lambda>i. bnext (unlink b bs ! i)) NBUF (xs @ ys) NBUF
     = chain ((\<lambda>i. bnext (bs ! i))(p := n)) NBUF (xs @ ys) NBUF"
    by (rule chain_cong, rule F, erule sub) auto
  moreover have "chain ((\<lambda>i. bnext (bs ! i))(p := n)) NBUF (xs @ ys) NBUF"
    using chain_skip [OF R(5)] R(2,4) by (simp add: lp(1) n_def)
  moreover have "chain (\<lambda>i. bprev (unlink b bs ! i)) NBUF (rev (xs @ ys)) NBUF
     = chain ((\<lambda>i. bprev (bs ! i))(n := p)) NBUF (rev (xs @ ys)) NBUF"
    by (rule chain_cong, rule F, erule sub) auto
  moreover have "chain ((\<lambda>i. bprev (bs ! i))(n := p)) NBUF (rev (xs @ ys)) NBUF"
    using chain_skip [of "\<lambda>i. bprev (bs ! i)" NBUF "rev ys" b "rev xs"] R(2,4,6) by (simp add: lp(2) p_def Int_commute split: if_splits)
  ultimately show ?thesis
    using R by (simp add: ring_def) (auto simp: unlink_def Let_def)
qed

text \<open>The ring through all buffers.\<close>

definition full_ring :: "buf list \<Rightarrow> nat list \<Rightarrow> bool" where
  "full_ring bs xs \<longleftrightarrow> ring bs xs \<and> set xs = {..<NBUF}"

lemma full_ring_move:
  assumes "full_ring bs xs" "b < NBUF"
  shows "full_ring (link_front b (unlink b bs)) (b # remove1 b xs)"
proof -
  from assms obtain ys zs where xs: "xs = ys @ b # zs" using split_list [of b xs] by (auto simp: full_ring_def)
  have d: "distinct xs" using assms by (simp add: full_ring_def ring_def)
  with xs have rm: "remove1 b xs = ys @ zs" by (auto simp: remove1_append)
  have "ring (unlink b bs) (ys @ zs)" using ring_unlink assms(1) xs by (simp add: full_ring_def)
  then have "ring (link_front b (unlink b bs)) (b # ys @ zs)"
    by (rule ring_link_front) (use assms(2) d xs in auto)
  moreover have "set (b # ys @ zs) = {..<NBUF}" using assms(1) xs by (auto simp: full_ring_def)
  ultimately show ?thesis by (simp add: full_ring_def rm)
qed

text \<open>Everything of a buffer but its links, which is all that \<open>link_front\<close> and \<open>unlink\<close> change.\<close>

definition nolink :: "buf \<Rightarrow> buf" where
  "nolink p = p\<lparr>bprev := 0, bnext := 0\<rparr>"

lemma nolink_simps [simp]:
  "flags (nolink p) = flags p" "bdev (nolink p) = bdev p" "blockno (nolink p) = blockno p"
  "refcnt (nolink p) = refcnt p" "bdata (nolink p) = bdata p"
  "nolink (p\<lparr>bprev := i\<rparr>) = nolink p" "nolink (p\<lparr>bnext := i\<rparr>) = nolink p"
  by (simp_all add: nolink_def)

lemma map_nolink_upd: "nolink q = nolink (bs ! i) \<Longrightarrow> map nolink (bs[i := q]) = map nolink bs"
  by (rule nth_equalityI) (auto simp: nth_upd_if)

lemma nolink_nth_upd: "nolink q = nolink (bs ! i) \<Longrightarrow> nolink ((bs[i := q]) ! j) = nolink (bs ! j)"
  by (auto simp: nth_upd_if)

lemma map_nolink_move: "map nolink (link_front b bs) = map nolink bs" "map nolink (unlink b bs) = map nolink bs"
  by (simp_all add: link_front_def unlink_def Let_def map_nolink_upd nolink_nth_upd)

lemma length_move [simp]: "length (link_front b bs) = length bs" "length (unlink b bs) = length bs"
  by (simp_all add: link_front_def unlink_def Let_def)

lemma full_ring_upd:
  "bnext q = bnext (bs ! i) \<Longrightarrow> bprev q = bprev (bs ! i) \<Longrightarrow> full_ring (bs[i := q]) xs = full_ring bs xs"
proof -
  assume a: "bnext q = bnext (bs ! i)" "bprev q = bprev (bs ! i)"
  have "(\<lambda>j. bnext (bs[i := q] ! j)) = (\<lambda>j. bnext (bs ! j))" "(\<lambda>j. bprev (bs[i := q] ! j)) = (\<lambda>j. bprev (bs ! j))"
    using a by (auto simp: fun_eq_iff nth_upd_if split: if_splits)
  then show ?thesis by (simp add: full_ring_def ring_def)
qed

section \<open>The scans of \<open>bget\<close>\<close>

lemma scan_chain:
  assumes "chain (\<lambda>i. g (bufs s ! i)) a xs NBUF" "NBUF \<notin> set xs" "length xs < n"
  shows "kloop n (\<lambda>b. if b = NBUF then kret (Inr None)
      else kbind (kget (\<lambda>s. bufs s ! b)) (\<lambda>p. if Q p then kret (Inr (Some b)) else kret (Inl (g p)))) (g (bufs s ! a)) s
    = Ok (find (\<lambda>b. Q (bufs s ! b)) xs) s"
  using assms
proof (induction xs arbitrary: a n)
  case Nil
  then show ?case by (cases n) (simp_all add: kbind_apply)
next
  case (Cons x xs)
  then obtain m where m: "n = Suc m" "length xs < m" by (cases n) auto
  from Cons.prems have c: "g (bufs s ! a) = x" "chain (\<lambda>i. g (bufs s ! i)) x xs NBUF" "x \<noteq> NBUF" "NBUF \<notin> set xs" by auto
  with Cons.IH [OF c(2,4) m(2)] m show ?case by (simp add: kbind_apply)
qed

lemma bget_scans:
  assumes "full_ring (bufs s) xs"
  shows "kloop (NBUF + 1) (bget_cached d n) (bnext (bufs s ! NBUF)) s
      = Ok (find (\<lambda>b. bdev (bufs s ! b) = d \<and> blockno (bufs s ! b) = n) xs) s"
    "kloop (NBUF + 1) bget_recycle (bprev (bufs s ! NBUF)) s
      = Ok (find (\<lambda>b. refcnt (bufs s ! b) = 0 \<and> flags (bufs s ! b) AND B_DIRTY = 0) (rev xs)) s"
proof -
  have r: "ring (bufs s) xs" "set xs = {..<NBUF}" using assms by (simp_all add: full_ring_def)
  note R = ringD [OF r(1)]
  have len: "length xs < NBUF + 1" using r(2) distinct_card [OF R(2)] by simp
  show "kloop (NBUF + 1) (bget_cached d n) (bnext (bufs s ! NBUF)) s
      = Ok (find (\<lambda>b. bdev (bufs s ! b) = d \<and> blockno (bufs s ! b) = n) xs) s"
    using scan_chain [OF R(5) R(4) len, of "\<lambda>p. bdev p = d \<and> blockno p = n"]
    by (simp only: bget_cached_def [abs_def])
  show "kloop (NBUF + 1) bget_recycle (bprev (bufs s ! NBUF)) s
      = Ok (find (\<lambda>b. refcnt (bufs s ! b) = 0 \<and> flags (bufs s ! b) AND B_DIRTY = 0) (rev xs)) s"
    using scan_chain [OF R(6), of "NBUF + 1" "\<lambda>p. refcnt p = 0 \<and> flags p AND B_DIRTY = 0"] R(4) len
    by (simp only: bget_recycle_def [abs_def] set_rev length_rev simp_thms)
qed

section \<open>The routines on a cache no other thread uses\<close>

text \<open>What a routine leaves of the parts of the state that others own.\<close>

definition locked_buf :: "nat \<Rightarrow> 'z bcache_scheme \<Rightarrow> 'z bcache_scheme \<Rightarrow> bool" where
  "locked_buf b s t \<longleftrightarrow> (\<exists>q. slocks t = (slocks s)(BufLock b := (slocks s (BufLock b))\<lparr>slocked := 1, spid := q\<rparr>))"

lemma locked_bufD:
  assumes "locked_buf b s t"
  shows "slocked (slocks t (BufLock b)) = 1" "l \<noteq> BufLock b \<Longrightarrow> slocks t l = slocks s l"
  using assms by (auto simp: locked_buf_def)

lemma bget_hit:
  fixes s :: "'z bcache_scheme"
  assumes h: "holds {} s" and r: "full_ring (bufs s) xs"
    and f: "find (\<lambda>b. bdev (bufs s ! b) = d \<and> blockno (bufs s ! b) = n) xs = Some b"
    and l: "slocked (slocks s (BufLock b)) = 0"
  shows "\<exists>t. bget d n s = Ok b t \<and> holds {} t \<and> disk t = disk s \<and> disksize t = disksize s \<and> locked_buf b s t
    \<and> bufs t = (bufs s)[b := (bufs s ! b)\<lparr>refcnt := refcnt (bufs s ! b) + 1\<rparr>]"
proof -
  define a where "a = acquired BcacheLock s"
  define e where "e = upd_buf b (\<lambda>p. p\<lparr>refcnt := refcnt p + 1\<rparr>) a"
  define c where "c = released BcacheLock e"
  have ha: "holds {BcacheLock} a" "holds {BcacheLock} e"
    using holds_acquired [OF h, of BcacheLock] by (simp_all add: a_def e_def)
  have hc: "holds {} c" using holds_released [of "{BcacheLock}" e BcacheLock] ha by (simp add: c_def)
  have sl: "slocked (slocks c (BufLock b)) = 0" using l by (simp add: c_def e_def a_def)
  obtain t where t: "acquiresleep [] (BufLock b) c = Ok () t" "holds {} t" "bufs t = bufs c" "disk t = disk c"
    "disksize t = disksize c" "\<exists>q. slocks t = (slocks c)(BufLock b := (slocks c (BufLock b))\<lparr>slocked := 1, spid := q\<rparr>)"
    using acquiresleep_free [OF hc sl] by blast
  have ba: "bufs a = bufs s" by (simp add: a_def)
  have "bget d n s = Ok b t"
    using h ha bget_scans(1) [of a xs d n] r f t(1)
    by (simp add: bget_def kbind_apply acquire_holds a_def [symmetric] ba release_holds e_def [symmetric] c_def
        del: kloop.simps)
  with t show ?thesis by (auto simp: c_def e_def a_def locked_buf_def)
qed

lemma bget_miss:
  fixes s :: "'z bcache_scheme"
  assumes h: "holds {} s" and r: "full_ring (bufs s) xs"
    and f: "find (\<lambda>b. bdev (bufs s ! b) = d \<and> blockno (bufs s ! b) = n) xs = None"
    and g: "find (\<lambda>b. refcnt (bufs s ! b) = 0 \<and> flags (bufs s ! b) AND B_DIRTY = 0) (rev xs) = Some b"
    and l: "slocked (slocks s (BufLock b)) = 0" and b: "b < length (bufs s)"
  shows "\<exists>t. bget d n s = Ok b t \<and> holds {} t \<and> disk t = disk s \<and> disksize t = disksize s \<and> locked_buf b s t
    \<and> bufs t = (bufs s)[b := (bufs s ! b)\<lparr>bdev := d, blockno := n, flags := 0, refcnt := 1\<rparr>]"
proof -
  define a where "a = acquired BcacheLock s"
  define e where "e = upd_buf b (\<lambda>p. p\<lparr>refcnt := 1\<rparr>) (upd_buf b (\<lambda>p. p\<lparr>flags := 0\<rparr>)
     (upd_buf b (\<lambda>p. p\<lparr>blockno := n\<rparr>) (upd_buf b (\<lambda>p. p\<lparr>bdev := d\<rparr>) a)))"
  define c where "c = released BcacheLock e"
  have ha: "holds {BcacheLock} a" "holds {BcacheLock} e"
    using holds_acquired [OF h, of BcacheLock] by (simp_all add: a_def e_def)
  have hc: "holds {} c" using holds_released [of "{BcacheLock}" e BcacheLock] ha by (simp add: c_def)
  have sl: "slocked (slocks c (BufLock b)) = 0" using l by (simp add: c_def e_def a_def)
  obtain t where t: "acquiresleep [] (BufLock b) c = Ok () t" "holds {} t" "bufs t = bufs c" "disk t = disk c"
    "disksize t = disksize c" "\<exists>q. slocks t = (slocks c)(BufLock b := (slocks c (BufLock b))\<lparr>slocked := 1, spid := q\<rparr>)"
    using acquiresleep_free [OF hc sl] by blast
  have ba: "bufs a = bufs s" by (simp add: a_def)
  have "bget d n s = Ok b t"
    using h ha bget_scans [of a xs] r f g t(1)
    by (simp add: bget_def kbind_apply acquire_holds a_def [symmetric] ba release_holds e_def [symmetric] c_def
        del: kloop.simps)
  with t b show ?thesis by (auto simp: c_def e_def a_def locked_buf_def)
qed

lemma bget_none:
  fixes s :: "'z bcache_scheme"
  assumes h: "holds {} s" and r: "full_ring (bufs s) xs"
    and f: "find (\<lambda>b. bdev (bufs s ! b) = d \<and> blockno (bufs s ! b) = n) xs = None"
    and g: "find (\<lambda>b. refcnt (bufs s ! b) = 0 \<and> flags (bufs s ! b) AND B_DIRTY = 0) (rev xs) = None"
  shows "bget d n s = Panic ''bget: no buffers''"
proof -
  define a where "a = acquired BcacheLock s"
  have ba: "bufs a = bufs s" by (simp add: a_def)
  show ?thesis
    using h bget_scans [of a xs] r f g
    by (simp add: bget_def kbind_apply acquire_holds a_def [symmetric] ba del: kloop.simps)
qed

lemma bread_hit:
  fixes s :: "'z bcache_scheme"
  assumes "holds {} s" "full_ring (bufs s) xs"
    "find (\<lambda>b. bdev (bufs s ! b) = d \<and> blockno (bufs s ! b) = n) xs = Some b"
    "slocked (slocks s (BufLock b)) = 0" "flags (bufs s ! b) AND B_VALID \<noteq> 0"
  shows "\<exists>t. bread d n s = Ok b t \<and> holds {} t \<and> disk t = disk s \<and> disksize t = disksize s \<and> locked_buf b s t
    \<and> bufs t = (bufs s)[b := (bufs s ! b)\<lparr>refcnt := refcnt (bufs s ! b) + 1\<rparr>]"
proof -
  obtain t where t: "bget d n s = Ok b t" "holds {} t" "disk t = disk s" "disksize t = disksize s" "locked_buf b s t"
    "bufs t = (bufs s)[b := (bufs s ! b)\<lparr>refcnt := refcnt (bufs s ! b) + 1\<rparr>]" using bget_hit [OF assms(1-4)] by blast
  then have "bread d n s = Ok b t" using assms(5) by (auto simp: bread_def kbind_apply nth_upd_if)
  with t show ?thesis by blast
qed

lemma bread_miss:
  fixes s :: "'z bcache_scheme"
  assumes "holds {} s" "full_ring (bufs s) xs"
    "find (\<lambda>b. bdev (bufs s ! b) = 1 \<and> blockno (bufs s ! b) = n) xs = None"
    "find (\<lambda>b. refcnt (bufs s ! b) = 0 \<and> flags (bufs s ! b) AND B_DIRTY = 0) (rev xs) = Some b"
    "slocked (slocks s (BufLock b)) = 0" "b < length (bufs s)" "n < disksize s"
  shows "\<exists>t. bread 1 n s = Ok b t \<and> holds {} t \<and> disk t = disk s \<and> disksize t = disksize s \<and> locked_buf b s t
    \<and> bufs t = (bufs s)[b := (bufs s ! b)\<lparr>bdev := 1, blockno := n, refcnt := 1, bdata := disk s n, flags := B_VALID\<rparr>]"
proof -
  obtain t where t: "bget 1 n s = Ok b t" "holds {} t" "disk t = disk s" "disksize t = disksize s" "locked_buf b s t"
    "bufs t = (bufs s)[b := (bufs s ! b)\<lparr>bdev := 1, blockno := n, flags := 0, refcnt := 1\<rparr>]"
    using bget_miss [OF assms(1-6)] by blast
  obtain u where u: "iderw b t = Ok () u" "holds {} u" "slocks u = slocks t" "disk u = disk t" "disksize u = disksize t"
    "bufs u = (bufs t)[b := (bufs t ! b)\<lparr>bdata := disk t (blockno (bufs t ! b)), flags := B_VALID\<rparr>]"
    using iderw_read [OF t(2) locked_bufD(1) [OF t(5)]] t assms(6,7) by auto
  have "bread 1 n s = Ok b u" using t u(1) assms(6) by (simp add: bread_def kbind_apply)
  with t u assms(6) show ?thesis by (auto simp: locked_buf_def)
qed

lemma bwrite_eq:
  fixes s :: "'z bcache_scheme"
  assumes "holds {} s" "slocked (slocks s (BufLock b)) = 1" "flags (bufs s ! b) AND B_VALID \<noteq> 0" "flags_ok (flags (bufs s ! b))"
    "bdev (bufs s ! b) = 1" "blockno (bufs s ! b) < disksize s" "b < length (bufs s)"
  shows "\<exists>t. bwrite b s = Ok () t \<and> holds {} t \<and> slocks t = slocks s \<and> disksize t = disksize s
    \<and> disk t = (disk s)(blockno (bufs s ! b) := bdata (bufs s ! b))
    \<and> bufs t = (bufs s)[b := (bufs s ! b)\<lparr>flags := B_VALID\<rparr>]"
proof -
  obtain t where t: "holdingsleep (BufLock b) s = Ok (slocked (slocks s (BufLock b))) t" "holds {} t" "bufs t = bufs s"
    "disk t = disk s" "disksize t = disksize s" "slocks t = slocks s" using holdingsleep_eq [OF assms(1)] by blast
  define u where "u = upd_buf b (\<lambda>p. p\<lparr>flags := flags p OR B_DIRTY\<rparr>) t"
  have f: "flags (bufs s ! b) OR B_DIRTY = B_VALID OR B_DIRTY"
    using assms(3,4) by (auto simp: flags_ok_def)
  have bu: "bufs u ! b = (bufs s ! b)\<lparr>flags := B_VALID OR B_DIRTY\<rparr>" "length (bufs u) = length (bufs s)"
    using t assms(7) f by (simp_all add: u_def)
  obtain v where v: "iderw b u = Ok () v" "holds {} v" "slocks v = slocks u" "disksize v = disksize u"
    "disk v = (disk u)(blockno (bufs u ! b) := bdata (bufs u ! b))"
    "bufs v = (bufs u)[b := (bufs u ! b)\<lparr>flags := B_VALID\<rparr>]"
    using iderw_write [of u b] bu t f assms by (auto simp: u_def)
  have "bwrite b s = Ok () v" using t assms(2) v(1) by (simp add: bwrite_def kbind_apply u_def)
  with v t bu show ?thesis by (auto simp: u_def)
qed

lemma brelse_eq:
  fixes s :: "'z bcache_scheme"
  assumes h: "holds {} s" and l: "slocked (slocks s (BufLock b)) = 1" and r: "full_ring (bufs s) xs" and b: "b < NBUF"
  shows "\<exists>t. brelse b s = Ok () t \<and> holds {} t \<and> disk t = disk s \<and> disksize t = disksize s
    \<and> slocks t = (slocks s)(BufLock b := (slocks s (BufLock b))\<lparr>slocked := 0, spid := 0\<rparr>)
    \<and> (\<exists>ys. full_ring (bufs t) ys)
    \<and> map nolink (bufs t) = map nolink ((bufs s)[b := (bufs s ! b)\<lparr>refcnt := refcnt (bufs s ! b) - 1\<rparr>])"
proof -
  obtain t where t: "holdingsleep (BufLock b) s = Ok (slocked (slocks s (BufLock b))) t" "holds {} t" "bufs t = bufs s"
    "disk t = disk s" "disksize t = disksize s" "slocks t = slocks s" using holdingsleep_eq [OF h] by blast
  obtain u where u: "releasesleep (BufLock b) t = Ok () u" "holds {} u" "bufs u = bufs t" "disk u = disk t"
    "disksize u = disksize t" "slocks u = (slocks t)(BufLock b := (slocks t (BufLock b))\<lparr>slocked := 0, spid := 0\<rparr>)"
    using releasesleep_eq [OF t(2), of "BufLock b"] by auto
  define a where "a = upd_buf b (\<lambda>p. p\<lparr>refcnt := refcnt p - 1\<rparr>) (acquired BcacheLock u)"
  define c where "c = (if refcnt (bufs a ! b) = 0 then a\<lparr>bufs := link_front b (unlink b (bufs a))\<rparr> else a)"
  have ha: "holds {BcacheLock} c" using holds_acquired [OF u(2), of BcacheLock] by (simp add: a_def c_def)
  have e: "brelse b s = Ok () (released BcacheLock c)"
    using t(1) u(1,2) l ha
    by (simp add: brelse_def kbind_apply acquire_holds a_def [symmetric] c_def [symmetric] release_holds)
      (auto simp: c_def kbind_apply release_holds split: if_splits)
  have hr: "holds {} (released BcacheLock c)" using holds_released [OF ha, of BcacheLock] by simp
  have ra: "full_ring (bufs a) xs" using r t(3) u(3) by (simp add: a_def full_ring_upd)
  have rc: "\<exists>ys. full_ring (bufs c) ys" using ra full_ring_move [OF ra b] by (auto simp: c_def)
  have "map nolink (bufs c) = map nolink (bufs a)" by (simp add: c_def map_nolink_move)
  with e hr rc t u show ?thesis by (auto simp: c_def a_def)
qed

end
