(* ===== verification/Store.thy ===== *)
theory Store
  imports Bcache Log
begin

text \<open>
  The contract of the buffer cache. To its users (\<open>log.c\<close> and \<open>fs.c\<close>) the cache is a store of blocks
  in front of the disk: \<open>bread\<close> hands out exclusive buffers, a modified block is written through by
  \<open>bwrite\<close> or pinned by the dirty flag, and a block that is neither pinned nor handed out equals
  its disk block. The locale \<open>block_store\<close> states the contract and derives the copying of one block
  to another; the interpretation discharges it for the routines of \<open>bio.c\<close> over \<open>memide.c\<close>.
\<close>

section \<open>The contract\<close>

locale block_store =
  fixes rd :: "uint \<Rightarrow> ('s, nat) kern"
    and wr rl :: "nat \<Rightarrow> ('s, unit) kern"
    and put :: "nat \<Rightarrow> (block \<Rightarrow> block) \<Rightarrow> ('s, unit) kern"
    and get :: "'s \<Rightarrow> nat \<Rightarrow> block"
    and ok :: "'s \<Rightarrow> bool"
    and lim :: "'s \<Rightarrow> uint"
    and str dsk :: "'s \<Rightarrow> uint \<Rightarrow> block"
    and pin :: "'s \<Rightarrow> uint set"
    and hld :: "'s \<Rightarrow> nat \<Rightarrow> uint option"
    and cap :: nat
  assumes rd_law: "ok s \<Longrightarrow> n < lim s \<Longrightarrow> n \<notin> ran (hld s) \<Longrightarrow> n \<in> pin s \<or> card (pin s) + card (dom (hld s)) < cap \<Longrightarrow>
      \<exists>b t. rd n s = Ok b t \<and> ok t \<and> hld s b = None \<and> hld t = (hld s)(b \<mapsto> n) \<and> str t = str s \<and> dsk t = dsk s
        \<and> pin t = pin s \<and> lim t = lim s"
    and get_law: "ok s \<Longrightarrow> hld s b = Some n \<Longrightarrow> get s b = str s n"
    and put_law: "ok s \<Longrightarrow> hld s b = Some n \<Longrightarrow>
      \<exists>t. put b f s = Ok () t \<and> ok t \<and> hld t = hld s \<and> str t = (str s)(n := f (str s n)) \<and> dsk t = dsk s
        \<and> pin t = pin s \<and> lim t = lim s"
    and wr_law: "ok s \<Longrightarrow> hld s b = Some n \<Longrightarrow>
      \<exists>t. wr b s = Ok () t \<and> ok t \<and> hld t = hld s \<and> str t = str s \<and> dsk t = (dsk s)(n := str s n)
        \<and> pin t = pin s - {n} \<and> lim t = lim s"
    and rl_law: "ok s \<Longrightarrow> hld s b = Some n \<Longrightarrow> n \<in> pin s \<or> str s n = dsk s n \<Longrightarrow>
      \<exists>t. rl b s = Ok () t \<and> ok t \<and> hld t = (hld s)(b := None) \<and> str t = str s \<and> dsk t = dsk s
        \<and> pin t = pin s \<and> lim t = lim s"
    and hld_law: "ok s \<Longrightarrow> finite (dom (hld s)) \<and> inj_on (hld s) (dom (hld s))"
    and str_law: "ok s \<Longrightarrow> n \<notin> pin s \<Longrightarrow> n \<notin> ran (hld s) \<Longrightarrow> str s n = dsk s n"
begin

text \<open>No block is handed out.\<close>

definition rest :: "'s \<Rightarrow> bool" where
  "rest s \<longleftrightarrow> ok s \<and> hld s = Map.empty"

lemma upd_rest:
  assumes s: "rest s" and n: "n < lim s" and room: "n \<in> pin s \<or> card (pin s) < cap"
  shows "\<exists>t. kbind (rd n) (\<lambda>b. kseq [put b f, wr b, rl b] (kret ())) s = Ok () t \<and> rest t
    \<and> str t = (str s)(n := f (str s n)) \<and> dsk t = (dsk s)(n := f (str s n)) \<and> pin t = pin s - {n} \<and> lim t = lim s"
proof -
  have s': "ok s" "hld s = Map.empty" using s by (simp_all add: rest_def)
  obtain b t where t: "rd n s = Ok b t" "ok t" "hld t = (hld s)(b \<mapsto> n)" "str t = str s" "dsk t = dsk s" "pin t = pin s" "lim t = lim s"
    using rd_law [OF s'(1) n] s' room by auto
  obtain u where u: "put b f t = Ok () u" "ok u" "hld u = hld t" "str u = (str t)(n := f (str t n))" "dsk u = dsk t"
    "pin u = pin t" "lim u = lim t" using put_law [OF t(2), of b n f] t(3) by auto
  obtain v where v: "wr b u = Ok () v" "ok v" "hld v = hld u" "str v = str u" "dsk v = (dsk u)(n := str u n)"
    "pin v = pin u - {n}" "lim v = lim u" using wr_law [OF u(2), of b n] t u by auto
  obtain w where w: "rl b v = Ok () w" "ok w" "hld w = (hld v)(b := None)" "str w = str v" "dsk w = dsk v"
    "pin w = pin v" "lim w = lim v" using rl_law [OF v(2), of b n] t u v by auto
  from t u v w s' show ?thesis by (intro exI [of _ w]) (simp add: rest_def)
qed

text \<open>The common end of a copy: both blocks are handed out.\<close>

lemma copy_end:
  assumes s: "ok s" and h: "hld s = [x \<mapsto> a, y \<mapsto> b]" and d: "x \<noteq> y" "a \<noteq> b"
    and b: "b \<in> pin s \<or> str s b = dsk s b"
  shows "\<exists>t. kseq [\<lambda>s. put x (\<lambda>_. get s y) s, wr x, rl y, rl x] (kret ()) s = Ok () t \<and> rest t
    \<and> str t = (str s)(a := str s b) \<and> dsk t = (dsk s)(a := str s b) \<and> pin t = pin s - {a} \<and> lim t = lim s"
proof -
  have g: "get s y = str s b" using get_law [OF s, of y b] h by simp
  obtain u where u: "put x (\<lambda>_. str s b) s = Ok () u" "ok u" "hld u = hld s" "str u = (str s)(a := str s b)" "dsk u = dsk s"
    "pin u = pin s" "lim u = lim s" using put_law [OF s, of x a "\<lambda>_. str s b"] h d by auto
  obtain v where v: "wr x u = Ok () v" "ok v" "hld v = hld u" "str v = str u" "dsk v = (dsk u)(a := str u a)"
    "pin v = pin u - {a}" "lim v = lim u" using wr_law [OF u(2), of x a] h d u by auto
  obtain w where w: "rl y v = Ok () w" "ok w" "hld w = (hld v)(y := None)" "str w = str v" "dsk w = dsk v"
    "pin w = pin v" "lim w = lim v" using rl_law [OF v(2), of y b] h d u v b by auto
  obtain z where z: "rl x w = Ok () z" "ok z" "hld z = (hld w)(x := None)" "str z = str w" "dsk z = dsk w"
    "pin z = pin w" "lim z = lim w" using rl_law [OF w(2), of x a] h d u v w by auto
  from g u v w z h d show ?thesis by (intro exI [of _ z]) (simp add: rest_def fun_eq_iff kbind_apply)
qed

lemma rd_two:
  assumes s: "rest s" and n: "a < lim s" "b < lim s" "a \<noteq> b" and room: "card (pin s) < cap"
    and room2: "b \<in> pin s \<or> card (pin s) + 1 < cap"
  shows "\<exists>x y t. x \<noteq> y \<and> ok t \<and> hld t = [x \<mapsto> a, y \<mapsto> b] \<and> str t = str s \<and> dsk t = dsk s \<and> pin t = pin s \<and> lim t = lim s
    \<and> (\<forall>g :: nat \<Rightarrow> nat \<Rightarrow> ('s, unit) kern. kbind (rd a) (\<lambda>x. kbind (rd b) (g x)) s = g x y t)"
proof -
  have s': "ok s" "hld s = Map.empty" using s by (simp_all add: rest_def)
  obtain x t where t: "rd a s = Ok x t" "ok t" "hld t = [x \<mapsto> a]" "str t = str s" "dsk t = dsk s" "pin t = pin s" "lim t = lim s"
    using rd_law [OF s'(1) n(1)] s' room by auto
  obtain y u where u: "rd b t = Ok y u" "ok u" "hld t y = None" "hld u = (hld t)(y \<mapsto> b)" "str u = str t" "dsk u = dsk t"
    "pin u = pin t" "lim u = lim t" using rd_law [OF t(2), of b] t n room2 by auto
  from t(3) u(3) have "x \<noteq> y" by auto
  with t u show ?thesis by (intro exI [of _ x] exI [of _ y] exI [of _ u]) simp
qed

lemma copy_dst_first:
  assumes s: "rest s" and n: "a < lim s" "b < lim s" "a \<noteq> b" and room: "card (pin s) < cap" "b \<in> pin s \<or> card (pin s) + 1 < cap"
  shows "\<exists>t. kbind (rd a) (\<lambda>x. kbind (rd b) (\<lambda>y. kseq [\<lambda>s. put x (\<lambda>_. get s y) s, wr x, rl y, rl x] (kret ()))) s = Ok () t
    \<and> rest t \<and> str t = (str s)(a := str s b) \<and> dsk t = (dsk s)(a := str s b) \<and> pin t = pin s - {a} \<and> lim t = lim s"
proof -
  obtain x y t where t: "x \<noteq> y" "ok t" "hld t = [x \<mapsto> a, y \<mapsto> b]" "str t = str s" "dsk t = dsk s" "pin t = pin s" "lim t = lim s"
    "\<forall>g :: nat \<Rightarrow> nat \<Rightarrow> ('s, unit) kern. kbind (rd a) (\<lambda>x. kbind (rd b) (g x)) s = g x y t" using rd_two [OF s n room] by (elim exE conjE) (rule that)
  have "b \<in> pin s \<or> str s b = dsk s b" using s str_law [of s b] by (auto simp: rest_def)
  then show ?thesis
    using copy_end [OF t(2,3,1) n(3)] t(4-7)
    by (subst t(8) [rule_format, of "\<lambda>x y. kseq [\<lambda>s. put x (\<lambda>_. get s y) s, wr x, rl y, rl x] (kret ())"]) simp
qed

lemma copy_src_first:
  assumes s: "rest s" and n: "a < lim s" "b < lim s" "a \<noteq> b" and room: "card (pin s) < cap" "a \<in> pin s \<or> card (pin s) + 1 < cap"
  shows "\<exists>t. kbind (rd b) (\<lambda>y. kbind (rd a) (\<lambda>x. kseq [\<lambda>s. put x (\<lambda>_. get s y) s, wr x, rl y, rl x] (kret ()))) s = Ok () t
    \<and> rest t \<and> str t = (str s)(a := str s b) \<and> dsk t = (dsk s)(a := str s b) \<and> pin t = pin s - {a} \<and> lim t = lim s"
proof -
  obtain y x t where t: "y \<noteq> x" "ok t" "hld t = [y \<mapsto> b, x \<mapsto> a]" "str t = str s" "dsk t = dsk s" "pin t = pin s" "lim t = lim s"
    "\<forall>g :: nat \<Rightarrow> nat \<Rightarrow> ('s, unit) kern. kbind (rd b) (\<lambda>y. kbind (rd a) (g y)) s = g y x t" using rd_two [OF s n(2,1) n(3) [symmetric] room] by (elim exE conjE) (rule that)
  have h: "hld t = [x \<mapsto> a, y \<mapsto> b]" using t(1,3) by (auto simp: fun_eq_iff)
  have "b \<in> pin s \<or> str s b = dsk s b" using s str_law [of s b] by (auto simp: rest_def)
  then show ?thesis
    using copy_end [OF t(2) h t(1) [symmetric] n(3)] t(4-7)
    by (subst t(8) [rule_format, of "\<lambda>y x. kseq [\<lambda>s. put x (\<lambda>_. get s y) s, wr x, rl y, rl x] (kret ())"]) simp
qed

text \<open>Reading one block without changing it.\<close>

lemma read_rest:
  assumes s: "rest s" and n: "n < lim s" and room: "n \<in> pin s \<or> card (pin s) < cap"
    and m: "\<And>b t. ok t \<Longrightarrow> hld t b = Some n \<Longrightarrow> get t b = str s n \<Longrightarrow>
      \<exists>u. m b t = Ok () u \<and> ok u \<and> hld u = hld t \<and> str u = str t \<and> dsk u = dsk t \<and> pin u = pin t \<and> lim u = lim t"
  shows "\<exists>t. kbind (rd n) (\<lambda>b. kseq [m b, rl b] (kret ())) s = Ok () t \<and> rest t
    \<and> str t = str s \<and> dsk t = dsk s \<and> pin t = pin s \<and> lim t = lim s"
proof -
  have s': "ok s" "hld s = Map.empty" using s by (simp_all add: rest_def)
  obtain b t where t: "rd n s = Ok b t" "ok t" "hld t = (hld s)(b \<mapsto> n)" "str t = str s" "dsk t = dsk s" "pin t = pin s" "lim t = lim s"
    using rd_law [OF s'(1) n] s' room by auto
  obtain u where u: "m b t = Ok () u" "ok u" "hld u = hld t" "str u = str t" "dsk u = dsk t" "pin u = pin t" "lim u = lim t"
    using m [OF t(2), of b] t(3,4) get_law [OF t(2), of b n] by auto
  have "n \<in> pin u \<or> str u n = dsk u n" using str_law [OF s'(1), of n] s' t u by auto
  then obtain w where w: "rl b u = Ok () w" "ok w" "hld w = (hld u)(b := None)" "str w = str u" "dsk w = dsk u"
    "pin w = pin u" "lim w = lim u" using rl_law [OF u(2), of b n] t u by auto
  from t u w s' show ?thesis by (intro exI [of _ w]) (simp add: rest_def)
qed

end

section \<open>The cache as a store\<close>

definition cached :: "'z bcache_scheme \<Rightarrow> uint \<Rightarrow> nat \<Rightarrow> bool" where
  "cached s n b \<longleftrightarrow> b < NBUF \<and> bdev (bufs s ! b) = 1 \<and> blockno (bufs s ! b) = n"

text \<open>The contents of a block as the kernel sees them.\<close>

definition store :: "'z bcache_scheme \<Rightarrow> uint \<Rightarrow> block" where
  "store s n = (case find_index (\<lambda>p. bdev p = 1 \<and> blockno p = n) (take NBUF (bufs s)) of
     None \<Rightarrow> disk s n | Some b \<Rightarrow> bdata (bufs s ! b))"

text \<open>The blocks that have to stay in the cache.\<close>

definition pinned :: "'z bcache_scheme \<Rightarrow> uint set" where
  "pinned s = {n. \<exists>b. cached s n b \<and> flags (bufs s ! b) AND B_DIRTY \<noteq> 0}"

definition handed :: "'z bcache_scheme \<Rightarrow> nat \<Rightarrow> uint option" where
  "handed s b = (if b < NBUF \<and> slocked (slocks s (BufLock b)) \<noteq> 0 then Some (blockno (bufs s ! b)) else None)"

text \<open>The invariant, for one buffer with the word of its sleep lock, and for the cache.\<close>

definition buf_ok :: "uint \<Rightarrow> (uint \<Rightarrow> block) \<Rightarrow> uint \<Rightarrow> buf \<Rightarrow> bool" where
  "buf_ok l dk dn p \<longleftrightarrow> flags_ok (flags p) \<and> (bdev p = 0 \<or> bdev p = 1) \<and> (bdev p = 1 \<longleftrightarrow> flags p \<noteq> 0)
     \<and> refcnt p = l \<and> (l = 0 \<or> l = 1 \<and> flags p \<noteq> 0) \<and> (flags p \<noteq> 0 \<longrightarrow> blockno p < dn)
     \<and> (l = 0 \<and> flags p = B_VALID \<longrightarrow> bdata p = dk (blockno p))"

definition cache_ok :: "'z bcache_scheme \<Rightarrow> bool" where
  "cache_ok s \<longleftrightarrow> holds {} s \<and> (\<exists>xs. full_ring (bufs s) xs)
     \<and> (\<forall>b < NBUF. buf_ok (slocked (slocks s (BufLock b))) (disk s) (disksize s) (bufs s ! b))
     \<and> (\<forall>b < NBUF. \<forall>c < NBUF. bdev (bufs s ! b) = 1 \<longrightarrow> bdev (bufs s ! c) = 1 \<longrightarrow>
          blockno (bufs s ! b) = blockno (bufs s ! c) \<longrightarrow> b = c)"

lemma cache_okD:
  assumes "cache_ok s"
  shows "holds {} s" "\<exists>xs. full_ring (bufs s) xs" "length (bufs s) = Suc NBUF"
    "b < NBUF \<Longrightarrow> buf_ok (slocked (slocks s (BufLock b))) (disk s) (disksize s) (bufs s ! b)"
    "cached s n b \<Longrightarrow> cached s n c \<Longrightarrow> b = c"
  using assms by (auto simp: cache_ok_def cached_def full_ring_def ring_def)

lemma find_buf_None:
  "length bs = Suc n \<Longrightarrow> find_index P (take n bs) = None \<longleftrightarrow> (\<forall>i < n. \<not> P (bs ! i))"
  by (simp add: find_index_None_iff all_set_conv_all_nth)

lemma store_cached:
  assumes "cache_ok s" "cached s n b"
  shows "store s n = bdata (bufs s ! b)"
proof (cases "find_index (\<lambda>p. bdev p = 1 \<and> blockno p = n) (take NBUF (bufs s))")
  case None
  with assms cache_okD(3) [OF assms(1)] show ?thesis by (auto simp: find_buf_None cached_def)
next
  case (Some c)
  then have "cached s n c" using find_index_SomeD [OF Some] by (auto simp: cached_def)
  then have "c = b" using cache_okD(5) [OF assms(1)] assms(2) by blast
  with Some show ?thesis by (simp add: store_def)
qed

lemma store_uncached:
  assumes "length (bufs s) = Suc NBUF" "\<And>b. \<not> cached s n b"
  shows "store s n = disk s n"
proof -
  have "find_index (\<lambda>p. bdev p = 1 \<and> blockno p = n) (take NBUF (bufs s)) = None"
    using assms by (auto simp: find_buf_None cached_def)
  then show ?thesis by (simp add: store_def)
qed

lemma store_eqI:
  assumes "cache_ok t" "\<And>b. cached t n b \<Longrightarrow> bdata (bufs t ! b) = x" "(\<And>b. \<not> cached t n b) \<Longrightarrow> disk t n = x"
  shows "store t n = x"
proof (cases "\<exists>b. cached t n b")
  case True
  then obtain b where "cached t n b" by blast
  with store_cached [OF assms(1)] assms(2) show ?thesis by simp
next
  case False
  with store_uncached [OF cache_okD(3) [OF assms(1)]] assms(3) show ?thesis by simp
qed

lemma find_exists: "x \<in> set xs \<Longrightarrow> P x \<Longrightarrow> \<exists>y. find P xs = Some y \<and> y \<in> set xs \<and> P y"
  by (cases "find P xs") (auto simp: find_None_iff find_Some_iff)

lemma cached_flags: "cache_ok s \<Longrightarrow> cached s n b \<Longrightarrow> flags_ok (flags (bufs s ! b)) \<and> flags (bufs s ! b) \<noteq> 0"
  using cache_okD(4) [of s b] by (auto simp: cached_def buf_ok_def)

lemma flags_ok_valid: "flags_ok f \<Longrightarrow> f \<noteq> 0 \<Longrightarrow> f AND B_VALID \<noteq> 0"
  by (auto simp: flags_ok_def)

lemma flags_ok_dirty: "flags_ok f \<Longrightarrow> f AND B_DIRTY \<noteq> 0 \<longleftrightarrow> f = B_VALID OR B_DIRTY"
  by (auto simp: flags_ok_def)

lemma pinned_iff: "cache_ok s \<Longrightarrow> n \<in> pinned s \<longleftrightarrow> (\<exists>b. cached s n b \<and> flags (bufs s ! b) = B_VALID OR B_DIRTY)"
  using cached_flags [of s n] flags_ok_dirty by (auto simp: pinned_def)

lemma handed_iff: "handed s b = Some n \<longleftrightarrow> b < NBUF \<and> slocked (slocks s (BufLock b)) \<noteq> 0 \<and> blockno (bufs s ! b) = n"
  by (auto simp: handed_def)

lemma handed_cached: "cache_ok s \<Longrightarrow> handed s b = Some n \<Longrightarrow> cached s n b"
  using cache_okD(4) [of s b] by (auto simp: handed_iff cached_def buf_ok_def)

text \<open>A change of one buffer that keeps its block.\<close>

lemma cache_same_block:
  fixes s t :: "'z bcache_scheme"
  assumes s: "cache_ok s" and b: "cached s n b" and h: "holds {} t" "\<exists>xs. full_ring (bufs t) xs" "disksize t = disksize s"
    and o: "\<And>c. c < NBUF \<Longrightarrow> c \<noteq> b \<Longrightarrow> nolink (bufs t ! c) = nolink (bufs s ! c)"
    and l: "\<And>c. c \<noteq> b \<Longrightarrow> slocked (slocks t (BufLock c)) = slocked (slocks s (BufLock c))"
    and d: "\<And>m. m \<noteq> n \<Longrightarrow> disk t m = disk s m"
    and p: "bdev (bufs t ! b) = 1" "blockno (bufs t ! b) = n"
      "buf_ok (slocked (slocks t (BufLock b))) (disk t) (disksize t) (bufs t ! b)"
  shows "cache_ok t" "cached t = cached s" "store t = (store s)(n := bdata (bufs t ! b))"
    "pinned t = (if flags (bufs t ! b) AND B_DIRTY \<noteq> 0 then insert n (pinned s) else pinned s - {n})"
    "handed t = (handed s)(b := (if slocked (slocks t (BufLock b)) \<noteq> 0 then Some n else None))"
proof -
  have bn: "b < NBUF" "bdev (bufs s ! b) = 1" "blockno (bufs s ! b) = n" using b by (simp_all add: cached_def)
  have same: "bdev (bufs t ! c) = bdev (bufs s ! c)" "blockno (bufs t ! c) = blockno (bufs s ! c)" if "c < NBUF" for c
    using o [OF that] p bn by (cases "c = b", simp_all) (metis nolink_simps(2,3))+
  have other: "flags (bufs t ! c) = flags (bufs s ! c)" "bdata (bufs t ! c) = bdata (bufs s ! c)"
    "refcnt (bufs t ! c) = refcnt (bufs s ! c)" if "c < NBUF" "c \<noteq> b" for c
    using o [OF that] by (metis nolink_simps(1,4,5))+
  show ca: "cached t = cached s" using same by (auto simp: cached_def fun_eq_iff)
  have uniq: "c = b" if "cached s n c" for c using cache_okD(5) [OF s that b] .
  have bo: "buf_ok (slocked (slocks t (BufLock c))) (disk t) (disksize t) (bufs t ! c)" if "c < NBUF" for c
  proof (cases "c = b")
    case False
    have "bdev (bufs s ! c) = 1 \<Longrightarrow> blockno (bufs s ! c) \<noteq> n" using uniq [of c] False that by (auto simp: cached_def)
    with False that cache_okD(4) [OF s that] same [OF that] other [OF that False] l [OF False] d h(3)
    show ?thesis by (auto simp: buf_ok_def)
  qed (use p in simp)
  have un: "\<forall>b < NBUF. \<forall>c < NBUF. bdev (bufs t ! b) = 1 \<longrightarrow> bdev (bufs t ! c) = 1 \<longrightarrow>
          blockno (bufs t ! b) = blockno (bufs t ! c) \<longrightarrow> b = c"
  proof (intro allI impI)
    fix b c assume a: "b < NBUF" "c < NBUF" "bdev (bufs t ! b) = 1" "bdev (bufs t ! c) = 1" "blockno (bufs t ! b) = blockno (bufs t ! c)"
    then have "cached s (blockno (bufs t ! b)) b" "cached s (blockno (bufs t ! b)) c" using same by (auto simp: cached_def)
    then show "b = c" by (rule cache_okD(5) [OF s])
  qed
  show ok: "cache_ok t" unfolding cache_ok_def by (rule conjI [OF h(1) conjI [OF h(2) conjI [OF _ un]]], intro allI impI, erule bo)
  show "store t = (store s)(n := bdata (bufs t ! b))"
  proof (rule ext)
    fix m
    show "store t m = ((store s)(n := bdata (bufs t ! b))) m"
    proof (rule store_eqI [OF ok])
      fix c assume c: "cached t m c"
      show "bdata (bufs t ! c) = ((store s)(n := bdata (bufs t ! b))) m"
      proof (cases "c = b")
        case False
        then have "m \<noteq> n" using c uniq [of c] ca by auto
        with False c store_cached [OF s, of m c] other(2) [of c] show ?thesis by (simp add: ca) (simp add: cached_def)
      qed (use c bn ca in \<open>auto simp: cached_def\<close>)
    next
      assume "\<And>c. \<not> cached t m c"
      then show "disk t m = ((store s)(n := bdata (bufs t ! b))) m"
        using ca b store_uncached [OF cache_okD(3) [OF s], of m] d by auto
    qed
  qed
  show "pinned t = (if flags (bufs t ! b) AND B_DIRTY \<noteq> 0 then insert n (pinned s) else pinned s - {n})"
  proof (rule set_eqI)
    fix m
    show "m \<in> pinned t \<longleftrightarrow> m \<in> (if flags (bufs t ! b) AND B_DIRTY \<noteq> 0 then insert n (pinned s) else pinned s - {n})"
    proof (cases "m = n")
      case True
      have "m \<in> pinned t \<longleftrightarrow> flags (bufs t ! b) AND B_DIRTY \<noteq> 0"
        using True b unfolding pinned_def ca by (auto dest: uniq)
      with True show ?thesis by simp
    next
      case False
      have "flags (bufs t ! c) = flags (bufs s ! c)" if "cached s m c" for c
        using that False bn by (intro other(1)) (auto simp: cached_def)
      then have "m \<in> pinned t \<longleftrightarrow> m \<in> pinned s" by (auto simp: pinned_def ca)
      with False show ?thesis by simp
    qed
  qed
  show "handed t = (handed s)(b := (if slocked (slocks t (BufLock b)) \<noteq> 0 then Some n else None))"
    using l same p bn by (auto simp: handed_def fun_eq_iff)
qed

lemma cached_ring: "cache_ok s \<Longrightarrow> cached s n b \<Longrightarrow> b < length (bufs s)"
  using cache_okD(3) [of s] by (simp add: cached_def)

lemma pinned_cached: "cache_ok s \<Longrightarrow> cached s n b \<Longrightarrow> n \<in> pinned s \<longleftrightarrow> flags (bufs s ! b) AND B_DIRTY \<noteq> 0"
  unfolding pinned_def mem_Collect_eq by (metis cache_okD(5))

lemma cache_one:
  fixes s t :: "'z bcache_scheme"
  assumes s: "cache_ok s" and b: "cached s n b" and h: "holds {} t" "disksize t = disksize s"
    and t: "bufs t = (bufs s)[b := q]" and q: "bnext q = bnext (bufs s ! b)" "bprev q = bprev (bufs s ! b)" "bdev q = 1" "blockno q = n"
    and l: "\<And>c. c \<noteq> b \<Longrightarrow> slocks t (BufLock c) = slocks s (BufLock c)"
    and d: "\<And>m. m \<noteq> n \<Longrightarrow> disk t m = disk s m"
    and p: "buf_ok (slocked (slocks t (BufLock b))) (disk t) (disksize s) q"
  shows "cache_ok t \<and> store t = (store s)(n := bdata q)
    \<and> pinned t = (if flags q AND B_DIRTY \<noteq> 0 then insert n (pinned s) else pinned s - {n})
    \<and> handed t = (handed s)(b := (if slocked (slocks t (BufLock b)) \<noteq> 0 then Some n else None))"
proof -
  obtain xs where xs: "full_ring (bufs s) xs" using cache_okD(2) [OF s] by blast
  have tb: "bufs t ! b = q" using t cached_ring [OF s b] by simp
  have r: "\<exists>xs. full_ring (bufs t) xs" using xs by (auto simp: t full_ring_upd q)
  have o: "nolink (bufs t ! c) = nolink (bufs s ! c)" if "c \<noteq> b" for c using that by (simp add: t)
  note R = cache_same_block [OF s b h(1) r h(2), unfolded tb, OF o _ d q(3,4) p [folded h(2)]]
  show ?thesis by (intro conjI R) (simp_all add: l)
qed

lemma bread_cached:
  fixes s :: "'z bcache_scheme"
  assumes s: "cache_ok s" and b: "cached s n b" and l: "n \<notin> ran (handed s)"
  shows "\<exists>t. bread 1 n s = Ok b t \<and> cache_ok t \<and> handed s b = None \<and> handed t = (handed s)(b \<mapsto> n) \<and> store t = store s
    \<and> disk t = disk s \<and> pinned t = pinned s \<and> disksize t = disksize s"
proof -
  obtain xs where xs: "full_ring (bufs s) xs" "set xs = {..<NBUF}" using cache_okD(2) [OF s] by (auto simp: full_ring_def)
  have bn: "b < NBUF" "bdev (bufs s ! b) = 1" "blockno (bufs s ! b) = n" using b by (simp_all add: cached_def)
  have hs: "handed s b = None" "slocked (slocks s (BufLock b)) = 0"
    using l bn by (auto simp: ran_def handed_def split: if_splits)
  obtain c where c: "find (\<lambda>b. bdev (bufs s ! b) = 1 \<and> blockno (bufs s ! b) = n) xs = Some c" "c \<in> set xs"
    "bdev (bufs s ! c) = 1 \<and> blockno (bufs s ! c) = n"
    using find_exists [of b xs "\<lambda>b. bdev (bufs s ! b) = 1 \<and> blockno (bufs s ! b) = n"] bn xs by blast
  then have "cached s n c" using xs by (auto simp: cached_def)
  then have cb: "c = b" using cache_okD(5) [OF s _ b] by blast
  note f = cached_flags [OF s b]
  define q where "q = (bufs s ! b)\<lparr>refcnt := refcnt (bufs s ! b) + 1\<rparr>"
  obtain t where t: "bread 1 n s = Ok b t" "holds {} t" "disk t = disk s" "disksize t = disksize s" "locked_buf b s t"
    "bufs t = (bufs s)[b := q]"
    using bread_hit [OF cache_okD(1) [OF s] xs(1) c(1) [unfolded cb] hs(2)] f flags_ok_valid q_def by blast
  note L = locked_bufD [OF t(5)]
  have "buf_ok 0 (disk s) (disksize s) (bufs s ! b)" using cache_okD(4) [OF s bn(1)] hs(2) by simp
  then have "buf_ok (slocked (slocks t (BufLock b))) (disk t) (disksize s) q"
    using f L(1) t(3) by (auto simp: buf_ok_def q_def)
  then have R: "cache_ok t \<and> store t = (store s)(n := bdata q)
    \<and> pinned t = (if flags q AND B_DIRTY \<noteq> 0 then insert n (pinned s) else pinned s - {n})
    \<and> handed t = (handed s)(b := (if slocked (slocks t (BufLock b)) \<noteq> 0 then Some n else None))"
    using bn t(3) L(2) by (intro cache_one [OF s b t(2,4,6)]) (simp_all add: q_def)
  have "store t = store s" "pinned t = pinned s"
    using R store_cached [OF s b] pinned_cached [OF s b] by (auto simp: q_def)
  with t(1,3,4) R hs L(1) show ?thesis by simp
qed

lemma set_bdata_ok:
  fixes s :: "'z bcache_scheme"
  assumes s: "cache_ok s" and h: "handed s b = Some n"
  shows "\<exists>t. set_bdata b f s = Ok () t \<and> cache_ok t \<and> handed t = handed s \<and> store t = (store s)(n := f (store s n))
    \<and> disk t = disk s \<and> pinned t = pinned s \<and> disksize t = disksize s"
proof -
  have b: "cached s n b" by (rule handed_cached [OF s h])
  have bn: "b < NBUF" "bdev (bufs s ! b) = 1" "blockno (bufs s ! b) = n" "slocked (slocks s (BufLock b)) \<noteq> 0"
    using b h by (simp_all add: cached_def handed_iff)
  define q where "q = (bufs s ! b)\<lparr>bdata := f (bdata (bufs s ! b))\<rparr>"
  define t where "t = upd_buf b (\<lambda>p. p\<lparr>bdata := f (bdata p)\<rparr>) s"
  have t: "holds {} t" "disksize t = disksize s" "bufs t = (bufs s)[b := q]" "slocks t = slocks s" "disk t = disk s"
    using cache_okD(1) [OF s] by (simp_all add: t_def q_def)
  have "buf_ok (slocked (slocks t (BufLock b))) (disk t) (disksize s) q"
    using cache_okD(4) [OF s bn(1)] bn by (auto simp: buf_ok_def q_def t)
  then have R: "cache_ok t \<and> store t = (store s)(n := bdata q)
    \<and> pinned t = (if flags q AND B_DIRTY \<noteq> 0 then insert n (pinned s) else pinned s - {n})
    \<and> handed t = (handed s)(b := (if slocked (slocks t (BufLock b)) \<noteq> 0 then Some n else None))"
    using bn t(4,5) by (intro cache_one [OF s b t(1-3)]) (simp_all add: q_def)
  have "store t = (store s)(n := f (store s n))" "pinned t = pinned s" "handed t = handed s"
    using R store_cached [OF s b] pinned_cached [OF s b] bn t(4) h by (auto simp: q_def)
  with R t show ?thesis by (intro exI [of _ t]) (simp add: set_bdata_def t_def)
qed

lemma bwrite_ok:
  fixes s :: "'z bcache_scheme"
  assumes s: "cache_ok s" and h: "handed s b = Some n"
  shows "\<exists>t. bwrite b s = Ok () t \<and> cache_ok t \<and> handed t = handed s \<and> store t = store s
    \<and> disk t = (disk s)(n := store s n) \<and> pinned t = pinned s - {n} \<and> disksize t = disksize s"
proof -
  have b: "cached s n b" by (rule handed_cached [OF s h])
  have bn: "b < NBUF" "bdev (bufs s ! b) = 1" "blockno (bufs s ! b) = n" "slocked (slocks s (BufLock b)) \<noteq> 0"
    using b h by (simp_all add: cached_def handed_iff)
  note f = cached_flags [OF s b]
  note bo = cache_okD(4) [OF s bn(1)]
  have l: "slocked (slocks s (BufLock b)) = 1" "blockno (bufs s ! b) < disksize s"
    using bo bn(4) f by (auto simp: buf_ok_def)
  define q where "q = (bufs s ! b)\<lparr>flags := B_VALID\<rparr>"
  obtain t where t: "bwrite b s = Ok () t" "holds {} t" "slocks t = slocks s" "disksize t = disksize s"
    "disk t = (disk s)(blockno (bufs s ! b) := bdata (bufs s ! b))" "bufs t = (bufs s)[b := q]"
    using bwrite_eq [OF cache_okD(1) [OF s] l(1) _ _ bn(2) l(2) cached_ring [OF s b]] f flags_ok_valid q_def by blast
  have "buf_ok (slocked (slocks t (BufLock b))) (disk t) (disksize s) q"
    using bo bn l t(3) f by (auto simp: buf_ok_def q_def flags_ok_def)
  then have R: "cache_ok t \<and> store t = (store s)(n := bdata q)
    \<and> pinned t = (if flags q AND B_DIRTY \<noteq> 0 then insert n (pinned s) else pinned s - {n})
    \<and> handed t = (handed s)(b := (if slocked (slocks t (BufLock b)) \<noteq> 0 then Some n else None))"
    using bn t(3,5) by (intro cache_one [OF s b t(2,4,6)]) (simp_all add: q_def)
  have sq: "store s n = bdata q" "bdata (bufs s ! b) = bdata q" using store_cached [OF s b] by (simp_all add: q_def)
  have "store t = store s" using R sq(1) by (simp add: fun_upd_idem)
  moreover have "pinned t = pinned s - {n}" using R by (simp add: q_def)
  moreover have "handed t = handed s" using R bn(4) t(3) h by (simp add: fun_upd_idem)
  ultimately show ?thesis using R t(1,4,5) bn(3) sq by simp
qed

lemma nolink_nth: "map nolink bs = map nolink cs \<Longrightarrow> c < length cs \<Longrightarrow> nolink (bs ! c) = nolink (cs ! c)"
  by (metis length_map nth_map)

lemma nolink_eqD:
  assumes "nolink p = nolink q"
  shows "flags p = flags q" "bdev p = bdev q" "blockno p = blockno q" "refcnt p = refcnt q" "bdata p = bdata q"
  using assms by (metis nolink_simps(1-5))+

lemma buf_ok_nolink: "nolink p = nolink q \<Longrightarrow> buf_ok l dk dn p = buf_ok l dk dn q"
  by (simp add: buf_ok_def nolink_eqD [of p q])

lemma brelse_ok:
  fixes s :: "'z bcache_scheme"
  assumes s: "cache_ok s" and h: "handed s b = Some n" and d: "n \<in> pinned s \<or> store s n = disk s n"
  shows "\<exists>t. brelse b s = Ok () t \<and> cache_ok t \<and> handed t = (handed s)(b := None) \<and> store t = store s
    \<and> disk t = disk s \<and> pinned t = pinned s \<and> disksize t = disksize s"
proof -
  have b: "cached s n b" by (rule handed_cached [OF s h])
  have bn: "b < NBUF" "bdev (bufs s ! b) = 1" "blockno (bufs s ! b) = n" "slocked (slocks s (BufLock b)) \<noteq> 0"
    using b h by (simp_all add: cached_def handed_iff)
  note f = cached_flags [OF s b]
  note bo = cache_okD(4) [OF s bn(1)]
  have l: "slocked (slocks s (BufLock b)) = 1" "refcnt (bufs s ! b) = 1" using bo bn(4) by (auto simp: buf_ok_def)
  obtain xs where xs: "full_ring (bufs s) xs" using cache_okD(2) [OF s] by blast
  define q where "q = (bufs s ! b)\<lparr>refcnt := 0\<rparr>"
  obtain t where t: "brelse b s = Ok () t" "holds {} t" "disk t = disk s" "disksize t = disksize s"
    "slocks t = (slocks s)(BufLock b := (slocks s (BufLock b))\<lparr>slocked := 0, spid := 0\<rparr>)"
    "\<exists>ys. full_ring (bufs t) ys" "map nolink (bufs t) = map nolink ((bufs s)[b := q])"
    using brelse_eq [OF cache_okD(1) [OF s] l(1) xs bn(1)] l(2) unfolding q_def by auto
  have tb: "nolink (bufs t ! b) = nolink q" using nolink_nth [OF t(7), of b] cached_ring [OF s b] by simp
  have o: "nolink (bufs t ! c) = nolink (bufs s ! c)" if "c < NBUF" "c \<noteq> b" for c
    using nolink_nth [OF t(7), of c] that cache_okD(3) [OF s] by simp
  have same: "bdev (bufs t ! b) = 1" "blockno (bufs t ! b) = n" "bdata (bufs t ! b) = store s n" "flags (bufs t ! b) = flags (bufs s ! b)"
    using nolink_eqD [OF tb] bn store_cached [OF s b] by (simp_all add: q_def)
  have "buf_ok 0 (disk s) (disksize s) q"
    using bo bn l f d pinned_cached [OF s b] store_cached [OF s b] by (auto simp: buf_ok_def q_def)
  then have "buf_ok (slocked (slocks t (BufLock b))) (disk t) (disksize t) (bufs t ! b)"
    using t(3-5) buf_ok_nolink [OF tb] by simp
  note R = cache_same_block [OF s b t(2,6,4) o _ _ same(1,2) this]
  have R': "cache_ok t" "store t = (store s)(n := bdata (bufs t ! b))"
    "pinned t = (if flags (bufs t ! b) AND B_DIRTY \<noteq> 0 then insert n (pinned s) else pinned s - {n})"
    "handed t = (handed s)(b := (if slocked (slocks t (BufLock b)) \<noteq> 0 then Some n else None))"
    by (rule R; simp add: t(3,5))+
  have "store t = store s" using R'(2) same(3) by (simp add: fun_upd_idem)
  moreover have "pinned t = pinned s" using R'(3) same(4) pinned_cached [OF s b] by auto
  moreover have "handed t = (handed s)(b := None)" using R'(4) t(5) by simp
  ultimately show ?thesis using t(1,3,4) R'(1) by blast
qed

text \<open>When fewer than \<open>NBUF\<close> buffers are handed out or pinned, there is one to recycle.\<close>

lemma victim_exists:
  assumes s: "cache_ok s" and room: "card (pinned s) + card (dom (handed s)) < NBUF"
  shows "\<exists>b < NBUF. refcnt (bufs s ! b) = 0 \<and> flags (bufs s ! b) AND B_DIRTY = 0"
proof (rule ccontr)
  assume no: "\<not> ?thesis"
  define D where "D = {b. b < NBUF \<and> flags (bufs s ! b) AND B_DIRTY \<noteq> 0}"
  have fin: "finite D" "finite (dom (handed s))"
    by (auto simp: D_def handed_def split: if_splits intro: finite_subset [of _ "{..<NBUF}"])
  have DB: "cached s (blockno (bufs s ! b)) b" if "b \<in> D" for b
    using that cache_okD(4) [OF s, of b] by (auto simp: D_def cached_def buf_ok_def)
  have "inj_on (\<lambda>b. blockno (bufs s ! b)) D"
    by (rule inj_onI) (metis DB cache_okD(5) [OF s])
  moreover have "(\<lambda>b. blockno (bufs s ! b)) ` D = pinned s"
    using DB by (auto simp: pinned_def D_def cached_def)
  ultimately have cD: "card D = card (pinned s)" by (metis card_image)
  have "b \<in> D \<union> dom (handed s)" if "b < NBUF" for b
    using no that cache_okD(4) [OF s that] by (auto simp: D_def handed_def buf_ok_def)
  then have "card {..<NBUF} \<le> card (D \<union> dom (handed s))" using fin by (intro card_mono) auto
  also have "\<dots> \<le> card D + card (dom (handed s))" by (rule card_Un_le)
  finally show False using room cD by simp
qed

lemma bread_uncached:
  fixes s :: "'z bcache_scheme"
  assumes s: "cache_ok s" and no: "\<And>b. \<not> cached s n b" and n: "n < disksize s"
    and room: "card (pinned s) + card (dom (handed s)) < NBUF"
  shows "\<exists>b t. bread 1 n s = Ok b t \<and> cache_ok t \<and> handed s b = None \<and> handed t = (handed s)(b \<mapsto> n) \<and> store t = store s
    \<and> disk t = disk s \<and> pinned t = pinned s \<and> disksize t = disksize s"
proof -
  obtain xs where xs: "full_ring (bufs s) xs" "set xs = {..<NBUF}" using cache_okD(2) [OF s] by (auto simp: full_ring_def)
  obtain b0 where b0: "b0 < NBUF" "refcnt (bufs s ! b0) = 0 \<and> flags (bufs s ! b0) AND B_DIRTY = 0"
    using victim_exists [OF s room] by blast
  obtain b where b: "find (\<lambda>b. refcnt (bufs s ! b) = 0 \<and> flags (bufs s ! b) AND B_DIRTY = 0) (rev xs) = Some b" "b \<in> set (rev xs)"
    "refcnt (bufs s ! b) = 0 \<and> flags (bufs s ! b) AND B_DIRTY = 0"
    using find_exists [of b0 "rev xs" "\<lambda>b. refcnt (bufs s ! b) = 0 \<and> flags (bufs s ! b) AND B_DIRTY = 0"] b0 xs(2) by auto
  have bn: "b < NBUF" "b < length (bufs s)" using b(2) xs(2) cache_okD(3) [OF s] by auto
  have bo: "buf_ok 0 (disk s) (disksize s) (bufs s ! b)" and l: "slocked (slocks s (BufLock b)) = 0"
    using cache_okD(4) [OF s bn(1)] b(3) by (auto simp: buf_ok_def)
  have f: "find (\<lambda>b. bdev (bufs s ! b) = 1 \<and> blockno (bufs s ! b) = n) xs = None"
    using no xs(2) by (auto simp: find_None_iff cached_def)
  define q where "q = (bufs s ! b)\<lparr>bdev := 1, blockno := n, refcnt := 1, bdata := disk s n, flags := B_VALID\<rparr>"
  obtain t where t: "bread 1 n s = Ok b t" "holds {} t" "disk t = disk s" "disksize t = disksize s" "locked_buf b s t"
    "bufs t = (bufs s)[b := q]"
    using bread_miss [OF cache_okD(1) [OF s] xs(1) f b(1) l bn(2) n] q_def by blast
  note L = locked_bufD [OF t(5)]
  have tb: "bufs t ! b = q" using t(6) bn by simp
  have ot: "bufs t ! c = bufs s ! c" if "c \<noteq> b" for c using t(6) that by simp
  have ca: "cached t m c \<longleftrightarrow> (if c = b then m = n else cached s m c)" for m c
    using bn by (auto simp: cached_def tb ot) (simp_all add: q_def)
  have ok: "cache_ok t"
    unfolding cache_ok_def
  proof (intro conjI allI impI)
    show "holds {} t" by (rule t(2))
    show "\<exists>xs. full_ring (bufs t) xs" using xs(1) by (auto simp: t(6) full_ring_upd q_def)
    show "buf_ok (slocked (slocks t (BufLock c))) (disk t) (disksize t) (bufs t ! c)" if "c < NBUF" for c
    proof (cases "c = b")
      case True
      then show ?thesis using L(1) n by (simp add: tb buf_ok_def q_def flags_ok_def t(4))
    qed (use cache_okD(4) [OF s that] L(2) ot t(3,4) in simp)
    show "b1 = b2" if "b1 < NBUF" "b2 < NBUF" "bdev (bufs t ! b1) = 1" "bdev (bufs t ! b2) = 1"
      "blockno (bufs t ! b1) = blockno (bufs t ! b2)" for b1 b2
    proof -
      have "cached t (blockno (bufs t ! b1)) b1" "cached t (blockno (bufs t ! b1)) b2" using that by (simp_all add: cached_def)
      then show ?thesis using no cache_okD(5) [OF s] unfolding ca by (metis (full_types))
    qed
  qed
  have old: "store s m = disk s m" if "cached s m b" for m
    using bo b(3) cached_flags [OF s that] store_cached [OF s that] that by (auto simp: buf_ok_def flags_ok_def cached_def)
  have "store t m = store s m" for m
  proof (rule store_eqI [OF ok])
    show "bdata (bufs t ! c) = store s m" if "cached t m c" for c
      using that store_cached [OF s, of m c] store_uncached [OF cache_okD(3) [OF s] no]
      by (cases "c = b") (simp_all add: ca tb ot, simp add: q_def)
    show "disk t m = store s m" if "\<And>c. \<not> cached t m c"
    proof (cases "\<exists>c. cached s m c")
      case True
      then obtain c where "cached s m c" by blast
      with that [of c] old show ?thesis by (simp add: ca t(3) split: if_splits)
    qed (use store_uncached [OF cache_okD(3) [OF s], of m] t(3) in auto)
  qed
  then have "store t = store s" by (rule ext)
  moreover have "pinned t = pinned s"
  proof -
    have fl: "flags (bufs t ! c) AND B_DIRTY \<noteq> 0 \<longleftrightarrow> c \<noteq> b \<and> flags (bufs s ! c) AND B_DIRTY \<noteq> 0" for c
      by (cases "c = b") (simp_all add: tb ot, simp add: q_def)
    have "cached t m c \<and> flags (bufs t ! c) AND B_DIRTY \<noteq> 0 \<longleftrightarrow> cached s m c \<and> flags (bufs s ! c) AND B_DIRTY \<noteq> 0" for m c
      unfolding fl ca using b(3) by auto
    then show ?thesis by (simp only: pinned_def)
  qed
  moreover have "handed s b = None" using l by (simp add: handed_def)
  moreover have "handed t = (handed s)(b \<mapsto> n)" using L bn by (auto simp: handed_def tb ot fun_eq_iff) (simp_all add: q_def)
  ultimately show ?thesis using t(1,3,4) ok by blast
qed

lemma bread_ok:
  fixes s :: "'z bcache_scheme"
  assumes "cache_ok s" "n < disksize s" "n \<notin> ran (handed s)" "n \<in> pinned s \<or> card (pinned s) + card (dom (handed s)) < NBUF"
  shows "\<exists>b t. bread 1 n s = Ok b t \<and> cache_ok t \<and> handed s b = None \<and> handed t = (handed s)(b \<mapsto> n) \<and> store t = store s
    \<and> disk t = disk s \<and> pinned t = pinned s \<and> disksize t = disksize s"
proof (cases "\<exists>b. cached s n b")
  case True
  with bread_cached [OF assms(1) _ assms(3)] show ?thesis by blast
next
  case False
  then have "n \<notin> pinned s" by (auto simp: pinned_def)
  with False bread_uncached [OF assms(1) _ assms(2)] assms(4) show ?thesis by blast
qed

lemma handed_inj:
  assumes s: "cache_ok s"
  shows "finite (dom (handed s)) \<and> inj_on (handed s) (dom (handed s))"
proof
  show "finite (dom (handed s))" by (rule finite_subset [of _ "{..<NBUF}"]) (auto simp: handed_def split: if_splits)
  show "inj_on (handed s) (dom (handed s))"
    by (rule inj_onI) (metis domD handed_cached [OF s] cache_okD(5) [OF s])
qed

lemma store_clean:
  assumes s: "cache_ok s" and n: "n \<notin> pinned s" "n \<notin> ran (handed s)"
  shows "store s n = disk s n"
proof (rule store_eqI [OF s])
  fix b assume b: "cached s n b"
  have bn: "b < NBUF" "blockno (bufs s ! b) = n" using b by (simp_all add: cached_def)
  have "slocked (slocks s (BufLock b)) = 0" using n(2) bn by (auto simp: ran_def handed_def split: if_splits)
  moreover have "flags (bufs s ! b) = B_VALID"
    using n(1) b cached_flags [OF s b] pinned_cached [OF s b] by (auto simp: flags_ok_def)
  ultimately show "bdata (bufs s ! b) = disk s n" using cache_okD(4) [OF s bn(1)] bn by (simp add: buf_ok_def)
qed simp

interpretation bio: block_store "bread 1" bwrite brelse set_bdata "\<lambda>s b. bdata (bufs s ! b)" cache_ok disksize store disk pinned handed NBUF
proof (unfold_locales, goal_cases)
  case (1 s n) then show ?case by (rule bread_ok)
next
  case (2 s b n) then show ?case using store_cached handed_cached by metis
next
  case (3 s b n f) then show ?case by (rule set_bdata_ok)
next
  case (4 s b n) then show ?case by (rule bwrite_ok)
next
  case (5 s b n) then show ?case by (rule brelse_ok)
next
  case (6 s) then show ?case by (rule handed_inj)
next
  case (7 s n) then show ?case by (rule store_clean)
qed

end
