(* ===== verification/Logsafe.thy ===== *)
theory Logsafe
  imports Store
begin

text \<open>
  The log keeps its promise: whatever disk write a crash interrupts, recovery at the next boot
  (\<open>initlog\<close>) finds either none or all of the writes of the transaction that was committing.
\<close>

section \<open>Integers in blocks\<close>

lemma word32_bytes:
  "ucast (ucast v :: uchar) OR push_bit 8 (ucast (ucast (drop_bit 8 v) :: uchar))
     OR push_bit 16 (ucast (ucast (drop_bit 16 v) :: uchar)) OR push_bit 24 (ucast (ucast (drop_bit 24 v) :: uchar)) = (v :: uint)"
  using load32_bytes [of "store32 (\<lambda>_. 0) 0 v" 0 v] by (simp add: store32_def load32_def)

lemma rd32_wr32: "i + 3 < length bs \<Longrightarrow> rd32 (wr32 bs i v) i = v"
  using word32_bytes [of v] by (simp add: rd32_def wr32_def)

lemma rd32_wr32_other: "j + 3 < i \<or> i + 3 < j \<Longrightarrow> rd32 (wr32 bs i v) j = rd32 bs j"
  by (auto simp: rd32_def wr32_def)

lemma rd32_wr32_slot: "i \<noteq> j \<Longrightarrow> rd32 (wr32 bs (4 + 4 * j) v) (4 + 4 * i) = rd32 bs (4 + 4 * i)"
  by (rule rd32_wr32_other) linarith

lemma length_wr32 [simp]: "length (wr32 bs i v) = length bs"
  by (simp add: wr32_def)

section \<open>The header block\<close>

text \<open>The block \<open>write_head\<close> makes of the header in memory.\<close>

definition head_block :: "nat \<Rightarrow> uint list \<Rightarrow> block \<Rightarrow> block" where
  "head_block n bs d = fold (\<lambda>i d. wr32 d (4 + 4 * i) (bs ! i)) [0..<n] (wr32 d 0 (word_of_nat n))"

lemma length_head_block [simp]: "length (head_block n bs d) = length d"
proof -
  have "length (fold (\<lambda>i d. wr32 d (4 + 4 * i) (bs ! i)) xs e) = length e" for xs e
    by (induction xs arbitrary: e) simp_all
  then show ?thesis by (simp add: head_block_def)
qed

lemma rd32_head_n: "3 < length d \<Longrightarrow> rd32 (head_block n bs d) 0 = word_of_nat n"
proof -
  assume d: "3 < length d"
  have "rd32 (fold (\<lambda>i d. wr32 d (4 + 4 * i) (bs ! i)) xs e) 0 = rd32 e 0" for xs e
    by (induction xs arbitrary: e) (simp_all add: rd32_wr32_other)
  with d show ?thesis by (simp add: head_block_def rd32_wr32)
qed

lemma rd32_head_block:
  assumes "i < n" "4 + 4 * n \<le> length d"
  shows "rd32 (head_block n bs d) (4 + 4 * i) = bs ! i"
proof -
  have later: "rd32 (fold (\<lambda>i d. wr32 d (4 + 4 * i) (bs ! i)) xs e) (4 + 4 * i) = rd32 e (4 + 4 * i)"
    if "i \<notin> set xs" for xs e using that by (induction xs arbitrary: e) (auto simp: rd32_wr32_slot)
  have len: "length (fold (\<lambda>i d. wr32 d (4 + 4 * i) (bs ! i)) xs e) = length e" for xs e
    by (induction xs arbitrary: e) simp_all
  have "[0..<n] = [0..<i] @ i # [Suc i..<n]" 
    using assms(1) upt_add_eq_append [of 0 i "n - i"] upt_conv_Cons [of i n] by simp
  then show ?thesis using assms by (simp add: head_block_def later rd32_wr32 len)
qed

section \<open>The steps of a commit\<close>

text \<open>The part of the log's state that the block layer does not touch.\<close>

definition logf :: "'z logs_scheme \<Rightarrow> uint \<times> int \<times> int \<times> int \<times> uint \<times> int \<times> uint list" where
  "logf s = (lstart s, lsize s, outstanding s, committing s, ldev s, lh_n s, lh_block s)"

lemma blk_indep_logf: "blk_indep logf"
  by (simp add: blk_indep_def logf_def)

lemma logfD:
  "logf t = logf s \<Longrightarrow> lstart t = lstart s \<and> ldev t = ldev s \<and> lh_n t = lh_n s \<and> lh_block t = lh_block s"
  by (simp add: logf_def)

lemma keeps_state_arg: "(\<And>u. keeps f (m u)) \<Longrightarrow> keeps f (\<lambda>s. m s s)"
  by (simp add: keeps_def)

lemma keeps_set_bdata: "keeps logf (set_bdata b f)"
  unfolding set_bdata_def by (rule keeps_mod) (simp add: blk_indepD [OF blk_indep_logf])

lemma keeps_log_block: "keeps logf (log_block k)"
  unfolding log_block_def
  by (auto intro!: keeps_kbind keeps_state_arg [where m = "\<lambda>s. bread (ldev s) (lstart s + of_nat k + 1)"]
      keeps_state_arg [where m = "\<lambda>s. bread (ldev s) (lh_block s ! k)"]
      keeps_state_arg [where m = "\<lambda>s. set_bdata x (\<lambda>_. bdata (bufs s ! y))" for x y]
      keeps_blk [OF blk_indep_logf] keeps_set_bdata)

lemma keeps_install_block: "keeps logf (install_block k)"
  unfolding install_block_def
  by (auto intro!: keeps_kbind keeps_state_arg [where m = "\<lambda>s. bread (ldev s) (lstart s + of_nat k + 1)"]
      keeps_state_arg [where m = "\<lambda>s. bread (ldev s) (lh_block s ! k)"]
      keeps_state_arg [where m = "\<lambda>s. set_bdata x (\<lambda>_. bdata (bufs s ! y))" for x y]
      keeps_blk [OF blk_indep_logf] keeps_set_bdata)

text \<open>The block of the log with index \<open>k\<close>.\<close>

definition lblk :: "'z logs_scheme \<Rightarrow> nat \<Rightarrow> uint" where
  "lblk s k = lstart s + of_nat k + 1"

lemma log_block_eq:
  assumes "ldev s = 1"
  shows "log_block k s = kbind (bread 1 (lblk s k)) (\<lambda>x. kbind (bread 1 (lh_block s ! k)) (\<lambda>y. kseq
    [\<lambda>s. set_bdata x (\<lambda>_. bdata (bufs s ! y)) s, bwrite x, brelse y, brelse x] (kret ()))) s"
proof (cases "bread 1 (lblk s k) s")
  case (Ok x t)
  then have "ldev t = 1" "lh_block t = lh_block s"
    using keepsD [OF keeps_bread_blk [OF blk_indep_logf] Ok] logfD [of t s] assms by auto
  with Ok assms show ?thesis by (simp add: log_block_def kbind_apply lblk_def)
qed (use assms in \<open>simp_all add: log_block_def kbind_apply lblk_def\<close>)

lemma install_block_eq:
  assumes "ldev s = 1"
  shows "install_block k s = kbind (bread 1 (lblk s k)) (\<lambda>y. kbind (bread 1 (lh_block s ! k)) (\<lambda>x. kseq
    [\<lambda>s. set_bdata x (\<lambda>_. bdata (bufs s ! y)) s, bwrite x, brelse y, brelse x] (kret ()))) s"
proof (cases "bread 1 (lblk s k) s")
  case (Ok x t)
  then have "ldev t = 1" "lh_block t = lh_block s"
    using keepsD [OF keeps_bread_blk [OF blk_indep_logf] Ok] logfD [of t s] assms by auto
  with Ok assms show ?thesis by (simp add: install_block_def kbind_apply lblk_def)
qed (use assms in \<open>simp_all add: install_block_def kbind_apply lblk_def\<close>)

lemma log_block_ok:
  fixes s :: "'z logs_scheme"
  assumes "bio.rest s" "ldev s = 1" "lblk s k < disksize s" "lh_block s ! k < disksize s" "lblk s k \<noteq> lh_block s ! k"
    "card (pinned s) < NBUF" "lh_block s ! k \<in> pinned s"
  shows "\<exists>t. log_block k s = Ok () t \<and> bio.rest t \<and> store t = (store s)(lblk s k := store s (lh_block s ! k))
    \<and> disk t = (disk s)(lblk s k := store s (lh_block s ! k)) \<and> pinned t = pinned s - {lblk s k} \<and> disksize t = disksize s
    \<and> logf t = logf s"
  using bio.copy_dst_first [OF assms(1,3,4,5,6)] assms(7) keepsD [OF keeps_log_block, of k s]
  unfolding log_block_eq [OF assms(2)] by blast

lemma install_block_ok:
  fixes s :: "'z logs_scheme"
  assumes "bio.rest s" "ldev s = 1" "lblk s k < disksize s" "lh_block s ! k < disksize s" "lblk s k \<noteq> lh_block s ! k"
    "card (pinned s) < NBUF" "lh_block s ! k \<in> pinned s \<or> card (pinned s) + 1 < NBUF"
  shows "\<exists>t. install_block k s = Ok () t \<and> bio.rest t \<and> store t = (store s)(lh_block s ! k := store s (lblk s k))
    \<and> disk t = (disk s)(lh_block s ! k := store s (lblk s k)) \<and> pinned t = pinned s - {lh_block s ! k} \<and> disksize t = disksize s
    \<and> logf t = logf s"
  using bio.copy_src_first [OF assms(1,4,3) assms(5) [symmetric] assms(6,7)] keepsD [OF keeps_install_block, of k s]
  unfolding install_block_eq [OF assms(2)] by blast

section \<open>Writing the header\<close>

lemma upd_buf_id: "upd_buf b (\<lambda>p. p) s = s"
  by (simp add: upd_buf_def)

lemma upd_buf_compose: "upd_buf b f (upd_buf b g s) = upd_buf b (\<lambda>p. f (g p)) s"
  by (cases "b < length (bufs s)") (simp_all add: upd_buf_def list_update_beyond)

lemma kfor_set_bdata:
  fixes s :: "'z logs_scheme"
  shows "kfor xs (\<lambda>i s. set_bdata b (\<lambda>d. wr32 d (4 + 4 * i) (lh_block s ! i)) s) s
    = set_bdata b (fold (\<lambda>i d. wr32 d (4 + 4 * i) (lh_block s ! i)) xs) s"
proof (induction xs arbitrary: s)
  case Nil
  then show ?case by (simp add: set_bdata_def upd_buf_id)
next
  case (Cons i xs)
  have "lh_block (upd_buf b f s) = lh_block s" for f by (simp add: upd_buf_def)
  with Cons show ?case by (simp add: kbind_apply set_bdata_def upd_buf_compose)
qed

lemma write_head_eq:
  assumes "ldev s = 1" "lh_n s = int n"
  shows "write_head s = kbind (bread 1 (lstart s)) (\<lambda>b. kseq [set_bdata b (head_block n (lh_block s)), bwrite b, brelse b] (kret ())) s"
proof (cases "bread 1 (lstart s) s")
  case (Ok b t)
  then have t: "lh_n t = int n" "lh_block t = lh_block s"
    using keepsD [OF keeps_bread_blk [OF blk_indep_logf] Ok] logfD [of t s] assms by auto
  have "lh_block (upd_buf b f t) = lh_block t" "lh_n (upd_buf b f t) = lh_n t" for f by (simp_all add: upd_buf_def)
  with Ok assms t show ?thesis
    by (simp add: write_head_def kbind_apply kfor_set_bdata head_block_def [abs_def])
      (simp add: set_bdata_def upd_buf_compose kbind_apply)
qed (use assms in \<open>simp_all add: write_head_def kbind_apply\<close>)

lemma keeps_write_head: "keeps logf write_head"
  unfolding write_head_def
  by (auto intro!: keeps_kbind keeps_kfor keeps_state_arg [where m = "\<lambda>s. bread (ldev s) (lstart s)"]
      keeps_state_arg [where m = "\<lambda>s. set_bdata b (\<lambda>d. wr32 d 0 (word_of_int (lh_n s)))" for b]
      keeps_state_arg [where m = "\<lambda>s. set_bdata b (\<lambda>d. wr32 d (4 + 4 * i) (lh_block s ! i))" for b i]
      keeps_state_arg [where m = "\<lambda>s. kfor [0..<nat (lh_n s)] (\<lambda>i s. set_bdata b (\<lambda>d. wr32 d (4 + 4 * i) (lh_block s ! i)) s)" for b]
      keeps_blk [OF blk_indep_logf] keeps_set_bdata)

lemma write_head_ok:
  fixes s :: "'z logs_scheme"
  assumes "bio.rest s" "ldev s = 1" "lh_n s = int n" "lstart s < disksize s" "card (pinned s) < NBUF"
  shows "\<exists>t. write_head s = Ok () t \<and> bio.rest t
    \<and> store t = (store s)(lstart s := head_block n (lh_block s) (store s (lstart s)))
    \<and> disk t = (disk s)(lstart s := head_block n (lh_block s) (store s (lstart s)))
    \<and> pinned t = pinned s - {lstart s} \<and> disksize t = disksize s \<and> logf t = logf s"
  using bio.upd_rest [OF assms(1,4), of "head_block n (lh_block s)"] assms(5) keepsD [OF keeps_write_head, of s]
  unfolding write_head_eq [OF assms(2,3)] by blast

section \<open>Reading the header and the super block\<close>

lemma holds_log [simp]:
  "holds X (s\<lparr>lh_block := a\<rparr>) = holds X s" "holds X (s\<lparr>lh_n := b\<rparr>) = holds X s" "holds X (s\<lparr>lstart := c\<rparr>) = holds X s"
  "holds X (s\<lparr>lsize := d\<rparr>) = holds X s" "holds X (s\<lparr>ldev := e\<rparr>) = holds X s"
  by (rule holds_ctl; simp add: lock_ctl_def)+

lemma cache_cong:
  fixes s t :: "'z bcache_scheme"
  assumes "bufs t = bufs s" "slocks t = slocks s" "disk t = disk s" "disksize t = disksize s" "holds {} t = holds {} s"
  shows "cache_ok t = cache_ok s" "store t = store s" "pinned t = pinned s" "handed t = handed s" "bio.rest t = bio.rest s"
proof -
  show c: "cache_ok t = cache_ok s" by (simp only: cache_ok_def assms)
  show "store t = store s" by (rule ext) (simp add: store_def assms split: option.split)
  show "pinned t = pinned s" by (simp add: pinned_def cached_def assms)
  show h: "handed t = handed s" by (rule ext) (simp add: handed_def assms)
  show "bio.rest t = bio.rest s" using c h by (simp add: bio.rest_def)
qed

lemma cache_log [simp]:
  fixes s :: "'z logs_scheme"
  shows "cache_ok (s\<lparr>lh_block := a\<rparr>) = cache_ok s" "cache_ok (s\<lparr>lh_n := b\<rparr>) = cache_ok s"
    "store (s\<lparr>lh_block := a\<rparr>) = store s" "store (s\<lparr>lh_n := b\<rparr>) = store s"
    "pinned (s\<lparr>lh_block := a\<rparr>) = pinned s" "pinned (s\<lparr>lh_n := b\<rparr>) = pinned s"
    "handed (s\<lparr>lh_block := a\<rparr>) = handed s" "handed (s\<lparr>lh_n := b\<rparr>) = handed s"
    "bio.rest (s\<lparr>lh_block := a\<rparr>) = bio.rest s" "bio.rest (s\<lparr>lh_n := b\<rparr>) = bio.rest s"
  by (rule cache_cong; simp)+

lemma kfor_lh_block:
  fixes s :: "'z logs_scheme"
  assumes "n \<le> length (lh_block s)"
  shows "\<exists>ys. kfor [0..<n] (\<lambda>i. kmod (\<lambda>s. s\<lparr>lh_block := (lh_block s)[i := rd32 (bdata (bufs s ! b)) (4 + 4 * i)]\<rparr>)) s
      = Ok () (s\<lparr>lh_block := ys\<rparr>) \<and> length ys = length (lh_block s) \<and> (\<forall>i < n. ys ! i = rd32 (bdata (bufs s ! b)) (4 + 4 * i))"
proof -
  define B where "B = (\<lambda>i. kmod (\<lambda>s :: 'z logs_scheme. s\<lparr>lh_block := (lh_block s)[i := rd32 (bdata (bufs s ! b)) (4 + 4 * i)]\<rparr>))"
  have B: "B i (s\<lparr>lh_block := ys\<rparr>) = Ok () (s\<lparr>lh_block := ys[i := rd32 (bdata (bufs s ! b)) (4 + 4 * i)]\<rparr>)" for i ys
    by (simp add: B_def)
  have "\<exists>ys. kfor [0..<n] B s = Ok () (s\<lparr>lh_block := ys\<rparr>) \<and> length ys = length (lh_block s)
    \<and> (\<forall>i < n. ys ! i = rd32 (bdata (bufs s ! b)) (4 + 4 * i))"
    using assms
  proof (induction n)
    case 0
    then show ?case by (intro exI [of _ "lh_block s"]) simp
  next
    case (Suc n)
    then obtain ys where ys: "kfor [0..<n] B s = Ok () (s\<lparr>lh_block := ys\<rparr>)" "length ys = length (lh_block s)"
      "\<forall>i < n. ys ! i = rd32 (bdata (bufs s ! b)) (4 + 4 * i)" by auto
    then show ?case using Suc.prems
      by (intro exI [of _ "ys[n := rd32 (bdata (bufs s ! b)) (4 + 4 * n)]"])
        (auto simp: kfor_append B less_Suc_eq)
  qed
  then show ?thesis by (simp only: B_def)
qed

lemma read_head_ok:
  fixes s :: "'z logs_scheme"
  assumes s: "bio.rest s" and d: "ldev s = 1" and L: "lstart s < disksize s" and room: "card (pinned s) < NBUF"
    and n: "sint (rd32 (store s (lstart s)) 0) = int n" "n \<le> length (lh_block s)"
  shows "\<exists>t. read_head s = Ok () t \<and> bio.rest t \<and> store t = store s \<and> disk t = disk s \<and> pinned t = pinned s \<and> disksize t = disksize s
    \<and> lstart t = lstart s \<and> ldev t = 1 \<and> lh_n t = int n \<and> length (lh_block t) = length (lh_block s)
    \<and> (\<forall>i < n. lh_block t ! i = rd32 (store s (lstart s)) (4 + 4 * i))"
proof -
  have s': "cache_ok s" "handed s = Map.empty" using s by (simp_all add: bio.rest_def)
  obtain b t where t: "bread 1 (lstart s) s = Ok b t" "cache_ok t" "handed t = (handed s)(b \<mapsto> lstart s)" "store t = store s"
    "disk t = disk s" "pinned t = pinned s" "disksize t = disksize s" using bread_ok [OF s'(1) L] s'(2) room by auto
  have lt: "lstart t = lstart s" "ldev t = 1" "lh_block t = lh_block s"
    using keepsD [OF keeps_bread_blk [OF blk_indep_logf] t(1)] logfD [of t s] d by auto
  have bd: "bdata (bufs t ! b) = store s (lstart s)" using bio.get_law [OF t(2), of b "lstart s"] t(3,4) by simp
  define u where "u = t\<lparr>lh_n := int n\<rparr>"
  obtain ys where ys: "kfor [0..<n] (\<lambda>i. kmod (\<lambda>s. s\<lparr>lh_block := (lh_block s)[i := rd32 (bdata (bufs s ! b)) (4 + 4 * i)]\<rparr>)) u
      = Ok () (u\<lparr>lh_block := ys\<rparr>)" "length ys = length (lh_block u)" "\<forall>i < n. ys ! i = rd32 (bdata (bufs u ! b)) (4 + 4 * i)"
    using kfor_lh_block [of n u b] n(2) lt by (auto simp: u_def)
  define v where "v = u\<lparr>lh_block := ys\<rparr>"
  have v: "cache_ok v" "handed v b = Some (lstart s)" "store v = store s" "disk v = disk s" "pinned v = pinned s"
    using t by (simp_all add: v_def u_def)
  have "lstart s \<in> pinned v \<or> store v (lstart s) = disk v (lstart s)"
    using store_clean [OF s'(1), of "lstart s"] s'(2) v by auto
  then obtain w where w: "brelse b v = Ok () w" "cache_ok w" "handed w = (handed v)(b := None)" "store w = store v"
    "disk w = disk v" "pinned w = pinned v" "disksize w = disksize v" using brelse_ok [OF v(1,2)] by blast
  have lw: "logf w = logf v" using keepsD [OF keeps_brelse_blk [OF blk_indep_logf] w(1)] .
  have "read_head s = Ok () w"
    using t(1) d w(1) ys(1) bd n(1) by (simp add: read_head_def kbind_apply u_def [symmetric] v_def [symmetric])
      (simp add: u_def)
  then show ?thesis
    using w v t s' lw logfD [OF lw] ys lt bd
    by (intro exI [of _ w]) (auto simp: bio.rest_def v_def u_def fun_eq_iff)
qed

section \<open>A transaction that is ready to commit\<close>

text \<open>The blocks of the log: the header and the copies.\<close>

definition in_log :: "'z logs_scheme \<Rightarrow> uint \<Rightarrow> bool" where
  "in_log s m \<longleftrightarrow> unat (lstart s) \<le> unat m \<and> unat m < unat (lstart s) + LOGSIZE"

text \<open>The file system as \<open>mkfs\<close> lays it out and the log as every finished commit leaves it.\<close>

definition log_clean :: "'z logs_scheme \<Rightarrow> bool" where
  "log_clean s \<longleftrightarrow> ldev s = 1 \<and> length (lh_block s) = LOGSIZE \<and> 1 < unat (lstart s) \<and> unat (lstart s) + LOGSIZE < unat (disksize s)
     \<and> length (disk s (lstart s)) = BSIZE \<and> rd32 (disk s (lstart s)) 0 = 0 \<and> sb_logstart (superblock_of (disk s 1)) = lstart s"

text \<open>The blocks of the transaction.\<close>

definition tblocks :: "'z logs_scheme \<Rightarrow> uint list" where
  "tblocks s = take (nat (lh_n s)) (lh_block s)"

definition log_ready :: "nat \<Rightarrow> 'z logs_scheme \<Rightarrow> bool" where
  "log_ready n s \<longleftrightarrow> bio.rest s \<and> log_clean s \<and> lh_n s = int n \<and> n < LOGSIZE \<and> distinct (tblocks s)
     \<and> pinned s = set (tblocks s) \<and> (\<forall>m \<in> set (tblocks s). m < disksize s \<and> \<not> in_log s m \<and> m \<noteq> 1)"

definition commit_steps :: "nat \<Rightarrow> ('z logs_scheme, unit) kern list" where
  "commit_steps n = map log_block [0..<n] @ [write_head] @ map install_block [0..<n] @ [kmod (\<lambda>s. s\<lparr>lh_n := 0\<rparr>), write_head]"

lemma kfor_kseq: "kseq (map f xs) r = kbind (kfor xs f) (\<lambda>_. r)"
  by (induction xs) (simp_all add: kbind_assoc)

lemma keeps_kfor_log: "keeps logf (kfor xs log_block)" "keeps logf (kfor xs install_block)"
  by (auto intro!: keeps_kfor keeps_log_block keeps_install_block)

text \<open>\<open>commit\<close> is the sequence of these steps, each of which writes at most one block.\<close>

lemma kbind_cong_keeps:
  assumes "\<And>a t. m s = Ok a t \<Longrightarrow> f a t = g a t"
  shows "kbind m f s = kbind m g s"
  using assms by (cases "m s") simp_all

lemma commit_eq_steps:
  assumes "lh_n s = int n" "0 < n"
  shows "commit s = kseq (commit_steps n) (kret ()) s"
proof -
  let ?rest = "kseq [kmod (\<lambda>s. s\<lparr>lh_n := 0\<rparr>), write_head] (kret ())"
  have "commit s = kbind (kfor [0..<n] log_block) (\<lambda>_. kbind write_head (\<lambda>_. kbind install_trans (\<lambda>_. ?rest))) s"
    using assms by (simp add: commit_def write_log_def kbind_apply)
  also have "\<dots> = kbind (kfor [0..<n] log_block) (\<lambda>_. kbind write_head (\<lambda>_. kbind (kfor [0..<n] install_block) (\<lambda>_. ?rest))) s"
  proof (intro kbind_cong_keeps)
    fix a b :: unit and t u :: "'a logs_scheme"
    assume t: "kfor [0..<n] log_block s = Ok a t" and u: "write_head t = Ok b u"
    have "logf u = logf s" using keepsD [OF keeps_kfor_log(1) t] keepsD [OF keeps_write_head u] by simp
    then show "kbind install_trans (\<lambda>_. ?rest) u = kbind (kfor [0..<n] install_block) (\<lambda>_. ?rest) u"
      using logfD [of u s] assms(1) by (simp add: install_trans_def kbind_apply)
  qed
  also have "\<dots> = kseq (commit_steps n) (kret ()) s"
    by (simp add: commit_steps_def kseq_append kfor_kseq)
  finally show ?thesis .
qed

section \<open>Sequences of block writes\<close>

primrec upds :: "(nat \<Rightarrow> uint) \<Rightarrow> (nat \<Rightarrow> block) \<Rightarrow> nat \<Rightarrow> (uint \<Rightarrow> block) \<Rightarrow> (uint \<Rightarrow> block)" where
  "upds a c 0 d = d"
| "upds a c (Suc k) d = (upds a c k d)(a k := c k)"

lemma upds_other: "(\<And>k. k < n \<Longrightarrow> a k \<noteq> m) \<Longrightarrow> upds a c n d m = d m"
  by (induction n) auto

lemma upds_at: "inj_on a {..<n} \<Longrightarrow> k < n \<Longrightarrow> upds a c n d (a k) = c k"
proof (induction n)
  case 0
  then show ?case by simp
next
  case (Suc n)
  have i: "inj_on a {..<n}" using Suc.prems(1) by (rule inj_on_subset) auto
  show ?case
  proof (cases "k = n")
    case False
    with Suc.prems have "k < n" "a k \<noteq> a n" by (auto simp: inj_on_def)
    with Suc.IH [OF i] show ?thesis by simp
  qed simp
qed

lemma upds_cong: "(\<And>k. k < n \<Longrightarrow> a k = a' k \<and> c k = c' k) \<Longrightarrow> upds a c n d = upds a' c' n d"
  by (induction n) auto

section \<open>The phases of a commit\<close>

lemma LOGSIZE_NBUF: "LOGSIZE = 30" "NBUF = 30" "BSIZE = 512"
  by (simp_all add: LOGSIZE_def NBUF_def MAXOPBLOCKS_def BSIZE_def)

lemma unat_lblk:
  assumes "log_clean s" "k < LOGSIZE"
  shows "unat (lblk s k) = unat (lstart s) + k + 1"
proof -
  have b: "unat (lstart s) + LOGSIZE < 2 ^ 32"
    using assms(1) unsigned_less [of "disksize s", where 'a = nat] by (simp add: log_clean_def)
  have k: "unat (word_of_nat k :: uint) = k" using assms(2) by (simp add: LOGSIZE_NBUF)
  have "unat (lstart s + word_of_nat k) = unat (lstart s) + k"
    using b k assms(2) by (subst unat_plus_lt) simp_all
  then show ?thesis unfolding lblk_def using b assms(2) by (subst unat_plus_lt) simp_all
qed

lemma tblocks_nth: "lh_n s = int n \<Longrightarrow> n \<le> length (lh_block s) \<Longrightarrow> k < n \<Longrightarrow> tblocks s ! k = lh_block s ! k"
  by (simp add: tblocks_def)

lemma log_readyD:
  assumes r: "log_ready n s"
  shows "bio.rest s" "ldev s = 1" "lh_n s = int n" "n < LOGSIZE" "length (lh_block s) = LOGSIZE" "length (tblocks s) = n"
    "lstart s < disksize s" "card (pinned s) = n" "n < NBUF"
    "k < n \<Longrightarrow> lblk s k < disksize s" "k < n \<Longrightarrow> lblk s k \<noteq> lstart s" "inj_on (lblk s) {..<n}"
    "k < n \<Longrightarrow> lh_block s ! k < disksize s" "k < n \<Longrightarrow> lh_block s ! k \<in> pinned s" "k < n \<Longrightarrow> lh_block s ! k \<noteq> lstart s"
    "k < n \<Longrightarrow> j < n \<Longrightarrow> lblk s k \<noteq> lh_block s ! j" "inj_on ((!) (lh_block s)) {..<n}"
    "pinned s = (!) (lh_block s) ` {..<n}" "k < n \<Longrightarrow> in_log s (lblk s k)" "in_log s (lstart s)" "k < n \<Longrightarrow> \<not> in_log s (lh_block s ! k)"
proof -
  show R: "bio.rest s" "ldev s = 1" "lh_n s = int n" "n < LOGSIZE" "length (lh_block s) = LOGSIZE" and n: "n < NBUF"
    using r by (simp_all add: log_ready_def log_clean_def LOGSIZE_NBUF)
  have c: "log_clean s" "distinct (tblocks s)" "pinned s = set (tblocks s)"
    "\<forall>m \<in> set (tblocks s). m < disksize s \<and> \<not> in_log s m \<and> m \<noteq> 1" using r by (simp_all add: log_ready_def)
  have len: "n \<le> length (lh_block s)" using R by simp
  show lt: "length (tblocks s) = n" using R by (simp add: tblocks_def)
  have b: "lh_block s ! k \<in> set (tblocks s)" if "k < n" for k
    using tblocks_nth [OF R(3) len that] lt that nth_mem [of k "tblocks s"] by simp
  have sz: "unat (lstart s) + LOGSIZE < unat (disksize s)" using c(1) by (simp add: log_clean_def)
  show L: "lstart s < disksize s" using sz by (simp add: word_less_nat_alt)
  show "card (pinned s) = n" using c(2,3) lt by (simp add: distinct_card)
  have u: "unat (lblk s k) = unat (lstart s) + k + 1" if "k < n" for k using unat_lblk [OF c(1)] that R(4) by simp
  show "lblk s k < disksize s" if "k < n" using u [OF that] sz R(4) that by (simp add: word_less_nat_alt)
  show "lblk s k \<noteq> lstart s" if "k < n" by (rule notI, drule arg_cong [where f = unat]) (simp add: u [OF that])
  show "inj_on (lblk s) {..<n}"
  proof (rule inj_onI)
    fix x y assume a: "x \<in> {..<n}" "y \<in> {..<n}" "lblk s x = lblk s y"
    show "x = y" using arg_cong [OF a(3), of unat] u [of x] u [of y] a(1,2) by simp
  qed
  show ins: "in_log s (lblk s k)" if "k < n" for k using u [OF that] R(4) that by (simp add: in_log_def)
  show "in_log s (lstart s)" by (simp add: in_log_def LOGSIZE_NBUF)
  show nl: "\<not> in_log s (lh_block s ! k)" if "k < n" for k using b [OF that] c(4) by simp
  show "lh_block s ! k < disksize s" "lh_block s ! k \<in> pinned s" if "k < n" using b [OF that] c by simp_all
  show "lh_block s ! k \<noteq> lstart s" if "k < n" using nl [OF that] by (auto simp: in_log_def LOGSIZE_NBUF)
  show "lblk s k \<noteq> lh_block s ! j" if "k < n" "j < n" using ins [OF that(1)] nl [OF that(2)] by auto
  show "inj_on ((!) (lh_block s)) {..<n}"
  proof (rule inj_onI)
    fix x y assume a: "x \<in> {..<n}" "y \<in> {..<n}" "lh_block s ! x = lh_block s ! y"
    then show "x = y"
      using tblocks_nth [OF R(3) len, of x] tblocks_nth [OF R(3) len, of y] nth_eq_iff_index_eq [OF c(2), of x y] lt by simp
  qed
  show "pinned s = (!) (lh_block s) ` {..<n}"
    using c(3) R(3) len by (simp add: tblocks_def nth_image [symmetric] atLeast0LessThan)
qed

text \<open>Writing the copies.\<close>

lemma write_copies:
  fixes s :: "'z logs_scheme"
  assumes r: "log_ready n s" and j: "j \<le> n"
  shows "\<exists>t. kfor [0..<j] log_block s = Ok () t \<and> bio.rest t \<and> logf t = logf s \<and> disksize t = disksize s \<and> pinned t = pinned s
    \<and> store t = upds (lblk s) (\<lambda>k. store s (lh_block s ! k)) j (store s)
    \<and> disk t = upds (lblk s) (\<lambda>k. store s (lh_block s ! k)) j (disk s)"
  using j
proof (induction j)
  case 0
  then show ?case using log_readyD(1) [OF r] by simp
next
  case (Suc j)
  note R = log_readyD [OF r]
  let ?c = "\<lambda>k. store s (lh_block s ! k)"
  from Suc obtain t where t: "kfor [0..<j] log_block s = Ok () t" "bio.rest t" "logf t = logf s" "disksize t = disksize s"
    "pinned t = pinned s" "store t = upds (lblk s) ?c j (store s)" "disk t = upds (lblk s) ?c j (disk s)" by auto
  have jn: "j < n" using Suc.prems by simp
  note lt = logfD [OF t(3)]
  have lb: "lblk t = lblk s" using lt by (simp add: lblk_def fun_eq_iff)
  have src: "store t (lh_block s ! j) = ?c j" unfolding t(6) using jn R(16) by (intro upds_other) auto
  obtain u where u: "log_block j t = Ok () u" "bio.rest u" "store u = (store t)(lblk s j := ?c j)"
    "disk u = (disk t)(lblk s j := ?c j)" "pinned u = pinned t - {lblk s j}" "disksize u = disksize t" "logf u = logf t"
    using log_block_ok [OF t(2), of j] lt lb R(2,8,9) R(10,13,14) [OF jn] R(16) [OF jn jn] t(4,5) src by auto
  have "lblk s j \<notin> pinned s" unfolding R(18) using R(16) [OF jn] by (metis imageE lessThan_iff)
  then have "pinned u = pinned s" using u(5) t(5) by simp
  with t u show ?case by (intro exI [of _ u]) (simp add: kfor_append)
qed

lemma pinned_finite: "finite (pinned s)"
proof (rule finite_subset)
  show "pinned s \<subseteq> (\<lambda>b. blockno (bufs s ! b)) ` {..<NBUF}" by (auto simp: pinned_def cached_def)
qed simp

text \<open>Installing them.\<close>

lemma install_copies:
  fixes t :: "'z logs_scheme"
  assumes r: "log_ready n s" and j: "j \<le> n" and t: "bio.rest t" "lstart t = lstart s" "ldev t = 1"
    "\<forall>k < j. lh_block t ! k = lh_block s ! k" "disksize t = disksize s" "card (pinned t) + 1 < NBUF \<or> pinned t = pinned s"
  shows "\<exists>u. kfor [0..<j] install_block t = Ok () u \<and> bio.rest u \<and> logf u = logf t \<and> disksize u = disksize s
    \<and> pinned u = pinned t - (!) (lh_block s) ` {..<j}
    \<and> store u = upds ((!) (lh_block s)) (\<lambda>k. store t (lblk s k)) j (store t)
    \<and> disk u = upds ((!) (lh_block s)) (\<lambda>k. store t (lblk s k)) j (disk t)"
  using j t(4)
proof (induction j)
  case 0
  then show ?case using t by simp
next
  case (Suc j)
  note R = log_readyD [OF r]
  let ?c = "\<lambda>k. store t (lblk s k)"
  from Suc obtain u where u: "kfor [0..<j] install_block t = Ok () u" "bio.rest u" "logf u = logf t" "disksize u = disksize s"
    "pinned u = pinned t - (!) (lh_block s) ` {..<j}" "store u = upds ((!) (lh_block s)) ?c j (store t)"
    "disk u = upds ((!) (lh_block s)) ?c j (disk t)" by auto
  have jn: "j < n" using Suc.prems by simp
  note lu = logfD [OF u(3)]
  have lb: "lblk u = lblk s" "ldev u = 1" "lh_block u ! j = lh_block s ! j"
    using lu t(2,3) Suc.prems(2) by (simp_all add: lblk_def fun_eq_iff)
  have src: "store u (lblk s j) = ?c j" unfolding u(6)
  proof (rule upds_other)
    show "lh_block s ! k \<noteq> lblk s j" if "k < j" for k using R(16) [OF jn, of k] that jn by auto
  qed
  have fin: "finite (pinned t)" by (rule pinned_finite)
  have nj: "lh_block s ! j \<notin> (!) (lh_block s) ` {..<j}"
    using inj_onD [OF R(17), of j] jn by fastforce
  have cu: "card (pinned u) \<le> card (pinned t)" using card_mono [OF fin, of "pinned u"] u(5) by auto
  have "card (pinned u) < NBUF" using cu t(6) R(8,9) by auto
  moreover have "lh_block s ! j \<in> pinned u \<or> card (pinned u) + 1 < NBUF"
    using t(6) R(14) [OF jn] nj u(5) cu by auto
  ultimately obtain v where v: "install_block j u = Ok () v" "bio.rest v" "store v = (store u)(lh_block s ! j := ?c j)"
    "disk v = (disk u)(lh_block s ! j := ?c j)" "pinned v = pinned u - {lh_block s ! j}" "disksize v = disksize u" "logf v = logf u"
    using install_block_ok [OF u(2), of j] lb R(9) R(10,13) [OF jn] R(16) [OF jn jn] u(4) src by auto
  have "pinned v = pinned t - (!) (lh_block s) ` {..<Suc j}" using v(5) u(5) by (auto simp: less_Suc_eq)
  with u v show ?case by (intro exI [of _ v]) (simp add: kfor_append)
qed

section \<open>Recovery\<close>

lemma sint_of_nat_small: "n < 2 ^ 31 \<Longrightarrow> sint (word_of_nat n :: uint) = int n"
  by (simp add: signed_of_nat signed_take_bit_int_eq_self)

lemma rest_store: "bio.rest s \<Longrightarrow> pinned s = {} \<Longrightarrow> store s = disk s"
  by (rule ext) (auto intro!: store_clean simp: bio.rest_def)

lemma readsb_ok:
  fixes s :: "'z logs_scheme"
  assumes s: "bio.rest s" and L: "1 < disksize s" and room: "card (pinned s) < NBUF"
  shows "\<exists>t. readsb 1 s = Ok (superblock_of (store s 1)) t \<and> bio.rest t \<and> store t = store s \<and> disk t = disk s
    \<and> pinned t = pinned s \<and> disksize t = disksize s \<and> logf t = logf s"
proof -
  have s': "cache_ok s" "handed s = Map.empty" using s by (simp_all add: bio.rest_def)
  obtain b t where t: "bread 1 1 s = Ok b t" "cache_ok t" "handed t = (handed s)(b \<mapsto> 1)" "store t = store s"
    "disk t = disk s" "pinned t = pinned s" "disksize t = disksize s" using bread_ok [OF s'(1) L] s'(2) room by auto
  have bd: "bdata (bufs t ! b) = store s 1" using bio.get_law [OF t(2), of b 1] t(3,4) by simp
  have "1 \<in> pinned t \<or> store t 1 = disk t 1" using store_clean [OF s'(1), of 1] s'(2) t by auto
  then obtain w where w: "brelse b t = Ok () w" "cache_ok w" "handed w = (handed t)(b := None)" "store w = store t"
    "disk w = disk t" "pinned w = pinned t" "disksize w = disksize t" using brelse_ok [OF t(2), of b 1] t(3) by auto
  have "logf w = logf s"
    using keepsD [OF keeps_bread_blk [OF blk_indep_logf] t(1)] keepsD [OF keeps_brelse_blk [OF blk_indep_logf] w(1)] by simp
  with t w bd s' show ?thesis by (intro exI [of _ w]) (simp add: readsb_def kbind_apply bio.rest_def)
qed

text \<open>The state of a kernel that has just booted: nothing is cached, nothing is logged.\<close>

definition rebooted :: "'z logs_scheme \<Rightarrow> 'z logs_scheme \<Rightarrow> bool" where
  "rebooted t r \<longleftrightarrow> bio.rest r \<and> pinned r = {} \<and> disk r = disk t \<and> disksize r = disksize t \<and> length (lh_block r) = LOGSIZE"

text \<open>The effect of recovery when the header says that the blocks of \<open>s\<close> are in the log, or none.\<close>

lemma recover_ok:
  fixes r s :: "'z logs_scheme"
  assumes s: "log_ready n s" and r: "bio.rest r" "pinned r = {}" "disksize r = disksize s" "length (lh_block r) = LOGSIZE"
      "lstart r = lstart s" "ldev r = 1"
    and h: "rd32 (disk r (lstart s)) 0 = word_of_nat j" "j = 0 \<or> j = n"
      "\<And>k. k < j \<Longrightarrow> rd32 (disk r (lstart s)) (4 + 4 * k) = lh_block s ! k"
  shows "\<exists>u. recover_from_log r = Ok () u \<and> bio.rest u \<and> pinned u = {} \<and> disksize u = disksize s \<and> lh_n u = 0
    \<and> disk u = (upds ((!) (lh_block s)) (\<lambda>k. disk r (lblk s k)) j (disk r))
        (lstart s := head_block 0 [] (disk r (lstart s)))"
proof -
  note R = log_readyD [OF s]
  have st: "store r = disk r" by (rule rest_store [OF r(1,2)])
  have jn: "j \<le> n" "j < LOGSIZE" using h(2) R(4) by (auto simp: LOGSIZE_NBUF)
  have sj: "sint (rd32 (store r (lstart r)) 0) = int j" using h(1) jn(2) st r(5) by (simp add: sint_of_nat_small LOGSIZE_NBUF)
  obtain a where a: "read_head r = Ok () a" "bio.rest a" "store a = store r" "disk a = disk r" "pinned a = pinned r"
    "disksize a = disksize r" "lstart a = lstart r" "ldev a = 1" "lh_n a = int j" "length (lh_block a) = length (lh_block r)"
    "\<forall>i < j. lh_block a ! i = rd32 (store r (lstart r)) (4 + 4 * i)"
    using read_head_ok [OF r(1,6) _ _ sj] r R(7) jn(2) by (auto simp: LOGSIZE_NBUF)
  have lb: "\<forall>k < j. lh_block a ! k = lh_block s ! k" using a(11) h(3) st r(5) by simp
  obtain b where b: "kfor [0..<j] install_block a = Ok () b" "bio.rest b" "logf b = logf a" "disksize b = disksize s"
    "pinned b = pinned a - (!) (lh_block s) ` {..<j}"
    "store b = upds ((!) (lh_block s)) (\<lambda>k. store a (lblk s k)) j (store a)"
    "disk b = upds ((!) (lh_block s)) (\<lambda>k. store a (lblk s k)) j (disk a)"
    using install_copies [OF s jn(1) a(2), of] a r lb by (auto simp: LOGSIZE_NBUF)
  note lfb = logfD [OF b(3)]
  define c where "c = b\<lparr>lh_n := 0\<rparr>"
  have c: "bio.rest c" "ldev c = 1" "lh_n c = int 0" "lstart c = lstart s" "disksize c = disksize s" "pinned c = {}"
    "store c = store b" "disk c = disk b"
    using b a r lfb by (simp_all add: c_def)
  obtain u where u: "write_head c = Ok () u" "bio.rest u" "store u = (store c)(lstart c := head_block 0 (lh_block c) (store c (lstart c)))"
    "disk u = (disk c)(lstart c := head_block 0 (lh_block c) (store c (lstart c)))" "pinned u = pinned c - {lstart c}"
    "disksize u = disksize c" "logf u = logf c"
    using write_head_ok [OF c(1-3)] c R(7) by (auto simp: LOGSIZE_NBUF)
  have "store b (lstart s) = disk r (lstart s)"
    unfolding b(6) a(3) st using R(15) jn(1) by (intro upds_other) auto
  moreover have hb: "head_block 0 (lh_block c) d = head_block 0 [] d" for d by (simp add: head_block_def)
  moreover have "recover_from_log r = Ok () u"
    using a(1,9) b(1) u(1) by (simp add: recover_from_log_def install_trans_def kbind_apply c_def)
  ultimately show ?thesis
    using u c b(7) a(3,4) st logfD [OF u(7)] by (intro exI [of _ u]) (simp add: hb)
qed

lemma rest_log [simp]:
  fixes s :: "'z logs_scheme"
  shows "bio.rest (s\<lparr>lstart := c\<rparr>) = bio.rest s" "bio.rest (s\<lparr>lsize := d\<rparr>) = bio.rest s" "bio.rest (s\<lparr>ldev := e\<rparr>) = bio.rest s"
    "pinned (s\<lparr>lstart := c\<rparr>) = pinned s" "pinned (s\<lparr>lsize := d\<rparr>) = pinned s" "pinned (s\<lparr>ldev := e\<rparr>) = pinned s"
  by (rule cache_cong; simp)+

lemma initlock_rest:
  fixes s :: "'z logs_scheme"
  assumes "bio.rest s"
  shows "\<exists>t. initlock l x s = Ok () t \<and> bio.rest t \<and> store t = store s \<and> disk t = disk s \<and> pinned t = pinned s
    \<and> disksize t = disksize s \<and> logf t = logf s"
proof -
  define t where "t = upd_lock l (\<lambda>k. k\<lparr>lname := x, locked := 0, lcpu := None\<rparr>) s"
  have h: "holds {} s" using assms by (simp add: bio.rest_def cache_ok_def)
  have "held_by c t = held_by c s" for c using h by (auto simp: held_by_def t_def holds_def)
  moreover have "{k. locked (locks t k) \<noteq> 0} = {k. locked (locks s k) \<noteq> 0}" using h by (auto simp: t_def holds_def)
  ultimately have "locks_ok t" using h by (simp add: locks_ok_def holds_def) (simp add: t_def)
  then have "holds {} t" using h by (auto simp: holds_def t_def)
  then have hh: "holds {} t = holds {} s" using h by simp
  have f: "bufs t = bufs s" "slocks t = slocks s" "disk t = disk s" "disksize t = disksize s"
    by (simp_all add: t_def upd_lock_def)
  note cache_cong [OF f hh]
  moreover have "initlock l x s = Ok () t" by (simp add: initlock_def t_def)
  ultimately show ?thesis using assms by (intro exI [of _ t]) (simp add: t_def upd_lock_def logf_def)
qed

lemma initlog_ok:
  fixes r s :: "'z logs_scheme"
  assumes s: "log_ready n s" and r: "bio.rest r" "pinned r = {}" "disksize r = disksize s" "length (lh_block r) = LOGSIZE"
    and sb: "sb_logstart (superblock_of (disk r 1)) = lstart s"
    and h: "rd32 (disk r (lstart s)) 0 = word_of_nat j" "j = 0 \<or> j = n"
      "\<And>k. k < j \<Longrightarrow> rd32 (disk r (lstart s)) (4 + 4 * k) = lh_block s ! k"
  shows "\<exists>u. initlog 1 r = Ok () u \<and> bio.rest u \<and> pinned u = {} \<and> disksize u = disksize s \<and> lh_n u = 0
    \<and> disk u = (upds ((!) (lh_block s)) (\<lambda>k. disk r (lblk s k)) j (disk r))
        (lstart s := head_block 0 [] (disk r (lstart s)))"
proof -
  have st: "store r = disk r" by (rule rest_store [OF r(1,2)])
  have one: "1 < disksize r" using s r(3) by (auto simp: log_ready_def log_clean_def word_less_nat_alt)
  obtain a where a: "initlock LogLock ''log'' r = Ok () a" "bio.rest a" "store a = store r" "disk a = disk r" "pinned a = pinned r"
    "disksize a = disksize r" "logf a = logf r" using initlock_rest [OF r(1)] by blast
  obtain b where b: "readsb 1 a = Ok (superblock_of (store a 1)) b" "bio.rest b" "store b = store a" "disk b = disk a"
    "pinned b = pinned a" "disksize b = disksize a" "logf b = logf a"
    using readsb_ok [OF a(2)] a(5,6) one r(2) by (auto simp: LOGSIZE_NBUF)
  define c where "c = b\<lparr>lstart := lstart s, lsize := sint (sb_nlog (superblock_of (store a 1))), ldev := 1\<rparr>"
  have c: "bio.rest c" "pinned c = {}" "disksize c = disksize s" "length (lh_block c) = LOGSIZE" "lstart c = lstart s" "ldev c = 1"
    "disk c = disk r"
    using a b r logfD [of a r] logfD [of b a] by (simp_all add: c_def)
  obtain u where u: "recover_from_log c = Ok () u" "bio.rest u" "pinned u = {}" "disksize u = disksize s" "lh_n u = 0"
    "disk u = (upds ((!) (lh_block s)) (\<lambda>k. disk r (lblk s k)) j (disk r)) (lstart s := head_block 0 [] (disk r (lstart s)))"
    using recover_ok [OF s c(1-6), of j] h c(7) by auto
  have "initlog 1 r = Ok () u"
    using a(1) b(1) u(1) sb st a(3)
    by (simp add: initlog_def kbind_apply sizeof_logheader_def LOGSIZE_NBUF c_def)
  with u show ?thesis by blast
qed

section \<open>The disk at every point of a commit\<close>

lemma ready_header:
  assumes "log_ready n s"
  shows "store s (lstart s) = disk s (lstart s)" "length (disk s (lstart s)) = BSIZE" "rd32 (disk s (lstart s)) 0 = 0"
    "sb_logstart (superblock_of (disk s 1)) = lstart s" "\<not> in_log s 1" "1 \<notin> pinned s"
proof -
  note R = log_readyD [OF assms]
  have "lstart s \<notin> pinned s" unfolding R(18) using R(15) by fastforce
  then show "store s (lstart s) = disk s (lstart s)" using R(1) by (auto intro: store_clean simp: bio.rest_def)
  show "length (disk s (lstart s)) = BSIZE" "rd32 (disk s (lstart s)) 0 = 0" "sb_logstart (superblock_of (disk s 1)) = lstart s"
    "\<not> in_log s 1" "1 \<notin> pinned s"
    using assms by (auto simp: log_ready_def log_clean_def in_log_def)
qed

text \<open>After the copies and the header have been written.\<close>

lemma logged:
  fixes s :: "'z logs_scheme"
  assumes r: "log_ready n s"
  shows "\<exists>t. kbind (kfor [0..<n] log_block) (\<lambda>_. write_head) s = Ok () t \<and> bio.rest t \<and> logf t = logf s \<and> disksize t = disksize s
    \<and> pinned t = pinned s \<and> (\<forall>k < n. store t (lblk s k) = store s (lh_block s ! k))
    \<and> (\<forall>k < n. disk t (lblk s k) = store s (lh_block s ! k))
    \<and> (\<forall>m. \<not> in_log s m \<longrightarrow> disk t m = disk s m)
    \<and> store t (lstart s) = head_block n (lh_block s) (disk s (lstart s))
    \<and> disk t (lstart s) = head_block n (lh_block s) (disk s (lstart s))"
proof -
  note R = log_readyD [OF r]
  let ?c = "\<lambda>k. store s (lh_block s ! k)"
  obtain a where a: "kfor [0..<n] log_block s = Ok () a" "bio.rest a" "logf a = logf s" "disksize a = disksize s" "pinned a = pinned s"
    "store a = upds (lblk s) ?c n (store s)" "disk a = upds (lblk s) ?c n (disk s)" using write_copies [OF r order_refl] by blast
  note la = logfD [OF a(3)]
  have L: "store a (lstart s) = disk s (lstart s)"
    unfolding a(6) ready_header(1) [OF r, symmetric] using R(11) by (intro upds_other) auto
  have wa: "ldev a = 1" "lh_n a = int n" "lstart a < disksize a" "card (pinned a) < NBUF"
    using la R(2,3,7,8,9) a(4,5) by simp_all
  obtain t where t: "write_head a = Ok () t" "bio.rest t" "store t = (store a)(lstart s := head_block n (lh_block s) (disk s (lstart s)))"
    "disk t = (disk a)(lstart s := head_block n (lh_block s) (disk s (lstart s)))" "pinned t = pinned a - {lstart s}"
    "disksize t = disksize a" "logf t = logf a"
    using write_head_ok [OF a(2) wa] la L by auto
  have "pinned t = pinned s" using t(5) a(5) R(15) unfolding R(18) by fastforce
  moreover have "store t (lblk s k) = ?c k" "disk t (lblk s k) = ?c k" if "k < n" for k
    using R(11) [OF that] upds_at [OF R(12) that] by (simp_all add: t(3,4) a(6,7))
  moreover have "disk t m = disk s m" if "\<not> in_log s m" for m
    using that R(19,20) by (auto simp: t(4) a(7) intro!: upds_other)
  ultimately show ?thesis using a t by (intro exI [of _ t]) simp
qed

text \<open>While they are being installed.\<close>

lemma installed:
  fixes s :: "'z logs_scheme"
  assumes r: "log_ready n s" and i: "i \<le> n"
  shows "\<exists>t. kbind (kbind (kfor [0..<n] log_block) (\<lambda>_. write_head)) (\<lambda>_. kfor [0..<i] install_block) s = Ok () t \<and> bio.rest t
    \<and> logf t = logf s \<and> disksize t = disksize s \<and> pinned t = pinned s - (!) (lh_block s) ` {..<i}
    \<and> (\<forall>k < n. disk t (lblk s k) = store s (lh_block s ! k))
    \<and> (\<forall>k < i. disk t (lh_block s ! k) = store s (lh_block s ! k))
    \<and> (\<forall>m. \<not> in_log s m \<longrightarrow> m \<notin> pinned s \<longrightarrow> disk t m = disk s m)
    \<and> store t (lstart s) = head_block n (lh_block s) (disk s (lstart s))
    \<and> disk t (lstart s) = head_block n (lh_block s) (disk s (lstart s))"
proof -
  note R = log_readyD [OF r]
  let ?c = "\<lambda>k. store s (lh_block s ! k)" and ?H = "head_block n (lh_block s) (disk s (lstart s))"
  obtain a where a: "kbind (kfor [0..<n] log_block) (\<lambda>_. write_head) s = Ok () a" "bio.rest a" "logf a = logf s"
    "disksize a = disksize s" "pinned a = pinned s" "\<forall>k < n. store a (lblk s k) = ?c k" "\<forall>k < n. disk a (lblk s k) = ?c k"
    "\<forall>m. \<not> in_log s m \<longrightarrow> disk a m = disk s m" "store a (lstart s) = ?H" "disk a (lstart s) = ?H"
    using logged [OF r] by auto
  note la = logfD [OF a(3)]
  have wa: "lstart a = lstart s" "ldev a = 1" "\<forall>k < i. lh_block a ! k = lh_block s ! k" using la R(2) by simp_all
  obtain t where t: "kfor [0..<i] install_block a = Ok () t" "bio.rest t" "logf t = logf a" "disksize t = disksize s"
    "pinned t = pinned a - (!) (lh_block s) ` {..<i}"
    "store t = upds ((!) (lh_block s)) (\<lambda>k. store a (lblk s k)) i (store a)"
    "disk t = upds ((!) (lh_block s)) (\<lambda>k. store a (lblk s k)) i (disk a)"
    using install_copies [OF r i a(2) wa a(4)] a(5) by blast
  have inj: "inj_on ((!) (lh_block s)) {..<i}" using R(17) by (rule inj_on_subset) (use i in auto)
  have "disk t (lblk s k) = ?c k" if "k < n" for k
  proof -
    have "disk t (lblk s k) = disk a (lblk s k)" unfolding t(7)
      by (rule upds_other) (use R(16) [OF that] i in \<open>metis order.strict_trans2\<close>)
    with a(7) that show ?thesis by simp
  qed
  moreover have "disk t (lh_block s ! k) = ?c k" if "k < i" for k
    unfolding t(7) upds_at [OF inj that] using a(6) that i by simp
  moreover have "disk t m = disk s m" if m: "\<not> in_log s m" "m \<notin> pinned s" for m
  proof -
    have "disk t m = disk a m" unfolding t(7) by (rule upds_other) (use m(2) R(18) i in auto)
    with a(8) m(1) show ?thesis by simp
  qed
  moreover have "store t (lstart s) = ?H" "disk t (lstart s) = ?H"
    using a(9,10) R(15) i by (auto simp: t(6,7) upds_other)
  ultimately show ?thesis using a(1,3,5) t(1-5) by (intro exI [of _ t]) simp
qed

text \<open>After the header has been cleared.\<close>

lemma committed:
  fixes s :: "'z logs_scheme"
  assumes r: "log_ready n s"
  shows "\<exists>t. kseq (commit_steps n) (kret ()) s = Ok () t \<and> bio.rest t \<and> disksize t = disksize s \<and> pinned t = {} \<and> lh_n t = 0
    \<and> lstart t = lstart s \<and> ldev t = 1 \<and> lh_block t = lh_block s
    \<and> (\<forall>m. \<not> in_log s m \<longrightarrow> disk t m = store s m)
    \<and> disk t (lstart s) = head_block 0 [] (head_block n (lh_block s) (disk s (lstart s)))"
proof -
  note R = log_readyD [OF r]
  let ?H = "head_block n (lh_block s) (disk s (lstart s))"
  obtain a where a: "kbind (kbind (kfor [0..<n] log_block) (\<lambda>_. write_head)) (\<lambda>_. kfor [0..<n] install_block) s = Ok () a" "bio.rest a"
    "logf a = logf s" "disksize a = disksize s" "pinned a = pinned s - (!) (lh_block s) ` {..<n}"
    "\<forall>k < n. disk a (lh_block s ! k) = store s (lh_block s ! k)" "\<forall>m. \<not> in_log s m \<longrightarrow> m \<notin> pinned s \<longrightarrow> disk a m = disk s m"
    "store a (lstart s) = ?H" using installed [OF r order_refl] by auto
  note la = logfD [OF a(3)]
  have pa: "pinned a = {}" using a(5) R(18) by simp
  define b where "b = a\<lparr>lh_n := 0\<rparr>"
  have b: "bio.rest b" "ldev b = 1" "lh_n b = int 0" "lstart b < disksize b" "card (pinned b) < NBUF"
    using a(2,4) la R(2,7) pa by (simp_all add: b_def LOGSIZE_NBUF)
  obtain t where t: "write_head b = Ok () t" "bio.rest t" "disk t = (disk b)(lstart b := head_block 0 (lh_block b) (store b (lstart b)))"
    "pinned t = pinned b - {lstart b}" "disksize t = disksize b" "logf t = logf b"
    using write_head_ok [OF b] by blast
  note lt = logfD [OF t(6)]
  have "disk t m = store s m" if m: "\<not> in_log s m" for m
  proof (cases "m \<in> pinned s")
    case True
    then obtain k where "k < n" "m = lh_block s ! k" unfolding R(18) by auto
    with a(6) R(15) la show ?thesis by (simp add: t(3) b_def)
  next
    case False
    then have "store s m = disk s m" using R(1) by (auto intro: store_clean simp: bio.rest_def)
    with a(7) m False R(20) la show ?thesis by (auto simp: t(3) b_def)
  qed
  moreover have "kseq (commit_steps n) (kret ()) s = Ok () t"
    using a(1) t(1) by (simp add: commit_steps_def kseq_append kfor_kseq kbind_assoc) (auto simp: kbind_eq_Ok_iff b_def)
  ultimately show ?thesis
    using t lt la pa a R(2) by (intro exI [of _ t]) (simp add: b_def head_block_def)
qed

section \<open>Crash safety\<close>

lemma commit_steps_prefix:
  "j \<le> n \<Longrightarrow> kseq (take j (commit_steps n)) (kret ()) = kfor [0..<j] log_block"
  "i \<le> n \<Longrightarrow> kseq (take (Suc n + i) (commit_steps n)) (kret ())
    = kbind (kbind (kfor [0..<n] log_block) (\<lambda>_. write_head)) (\<lambda>_. kfor [0..<i] install_block)"
  "kseq (take (2 * n + 2) (commit_steps n)) (kret ())
    = kbind (kbind (kbind (kfor [0..<n] log_block) (\<lambda>_. write_head)) (\<lambda>_. kfor [0..<n] install_block)) (\<lambda>_. kmod (\<lambda>s. s\<lparr>lh_n := 0\<rparr>))"
  "2 * n + 3 \<le> j \<Longrightarrow> kseq (take j (commit_steps n)) (kret ()) = kseq (commit_steps n) (kret ())"
proof -
  have kr: "kbind m kret = m" for m :: "('s, unit) kern"
    by (rule ext) (simp add: kbind_def split: kres.split)
  show "j \<le> n \<Longrightarrow> kseq (take j (commit_steps n)) (kret ()) = kfor [0..<j] log_block"
    by (simp add: commit_steps_def take_map take_upt kfor_kseq kr)
  show "kseq (take (Suc n + i) (commit_steps n)) (kret ())
    = kbind (kbind (kfor [0..<n] log_block) (\<lambda>_. write_head)) (\<lambda>_. kfor [0..<i] install_block)" if i: "i \<le> n"
    using i by (simp add: commit_steps_def take_map take_upt kseq_append kfor_kseq kr kbind_assoc)
  show "kseq (take (2 * n + 2) (commit_steps n)) (kret ())
    = kbind (kbind (kbind (kfor [0..<n] log_block) (\<lambda>_. write_head)) (\<lambda>_. kfor [0..<n] install_block)) (\<lambda>_. kmod (\<lambda>s. s\<lparr>lh_n := 0\<rparr>))"
    by (simp add: commit_steps_def kseq_append kfor_kseq kr kbind_assoc)
  show "2 * n + 3 \<le> j \<Longrightarrow> kseq (take j (commit_steps n)) (kret ()) = kseq (commit_steps n) (kret ())"
    by (simp add: commit_steps_def)
qed

text \<open>The disk after \<open>j\<close> steps, as recovery needs to know it.\<close>

lemma crash_early:
  assumes r: "log_ready n s" and j: "j \<le> n"
  shows "\<exists>t. kseq (take j (commit_steps n)) (kret ()) s = Ok () t \<and> disksize t = disksize s
    \<and> disk t (lstart s) = disk s (lstart s) \<and> (\<forall>m. \<not> in_log s m \<longrightarrow> disk t m = disk s m)"
proof -
  note R = log_readyD [OF r]
  obtain t where t: "kfor [0..<j] log_block s = Ok () t" "disksize t = disksize s"
    "disk t = upds (lblk s) (\<lambda>k. store s (lh_block s ! k)) j (disk s)" using write_copies [OF r j] by blast
  have "disk t (lstart s) = disk s (lstart s)" unfolding t(3) by (rule upds_other) (use R(11) j in auto)
  moreover have "disk t m = disk s m" if "\<not> in_log s m" for m unfolding t(3) by (rule upds_other) (use R(19) that j in auto)
  ultimately show ?thesis using t(1,2) by (simp add: commit_steps_prefix(1) [OF j])
qed

lemma crash_late:
  assumes r: "log_ready n s" and j: "n < j" "j \<le> 2 * n + 2"
  shows "\<exists>t. kseq (take j (commit_steps n)) (kret ()) s = Ok () t \<and> disksize t = disksize s
    \<and> (\<forall>k < n. disk t (lblk s k) = store s (lh_block s ! k))
    \<and> (\<forall>m. \<not> in_log s m \<longrightarrow> m \<notin> pinned s \<longrightarrow> disk t m = disk s m)
    \<and> disk t (lstart s) = head_block n (lh_block s) (disk s (lstart s))"
proof (cases "j = 2 * n + 2")
  case True
  obtain t where t: "kbind (kbind (kfor [0..<n] log_block) (\<lambda>_. write_head)) (\<lambda>_. kfor [0..<n] install_block) s = Ok () t"
    "disksize t = disksize s" "\<forall>k < n. disk t (lblk s k) = store s (lh_block s ! k)"
    "\<forall>m. \<not> in_log s m \<longrightarrow> m \<notin> pinned s \<longrightarrow> disk t m = disk s m"
    "disk t (lstart s) = head_block n (lh_block s) (disk s (lstart s))" using installed [OF r order_refl] by auto
  then show ?thesis unfolding True commit_steps_prefix(3) by simp
next
  case False
  with j obtain i where i: "j = Suc n + i" "i \<le> n" 
    by (intro that [of "j - Suc n"]) auto
  show ?thesis using installed [OF r i(2)] unfolding i(1) commit_steps_prefix(2) [OF i(2)] by auto
qed

lemma recovered:
  fixes s t r :: "'z logs_scheme"
  assumes s: "log_ready n s" and t: "rebooted t r" "disksize t = disksize s" "disk t 1 = disk s 1"
    and h: "rd32 (disk t (lstart s)) 0 = word_of_nat j" "j = 0 \<or> j = n"
      "\<And>k. k < j \<Longrightarrow> rd32 (disk t (lstart s)) (4 + 4 * k) = lh_block s ! k"
  shows "\<exists>u. initlog 1 r = Ok () u \<and> lh_n u = 0
    \<and> disk u = (upds ((!) (lh_block s)) (\<lambda>k. disk t (lblk s k)) j (disk t)) (lstart s := head_block 0 [] (disk t (lstart s)))"
  using initlog_ok [OF s, of r j] assms ready_header(4) [OF s] by (auto simp: rebooted_def)

text \<open>Recovery after the header has been written.\<close>

lemma recovered_new:
  fixes s t r :: "'z logs_scheme"
  assumes s: "log_ready n s" and q: "rebooted t r" and t: "disksize t = disksize s"
      "\<forall>k < n. disk t (lblk s k) = store s (lh_block s ! k)" "\<forall>m. \<not> in_log s m \<longrightarrow> m \<notin> pinned s \<longrightarrow> disk t m = disk s m"
      "disk t (lstart s) = head_block n (lh_block s) (disk s (lstart s))"
  shows "\<exists>u. initlog 1 r = Ok () u \<and> lh_n u = 0 \<and> (\<forall>m. \<not> in_log s m \<longrightarrow> disk u m = store s m)"
proof -
  note R = log_readyD [OF s] and H = ready_header [OF s]
  have hd: "rd32 (disk t (lstart s)) 0 = word_of_nat n" "\<And>k. k < n \<Longrightarrow> rd32 (disk t (lstart s)) (4 + 4 * k) = lh_block s ! k"
    unfolding t(4) using H(2) R(4) by (simp_all add: rd32_head_n rd32_head_block LOGSIZE_NBUF)
  obtain u where u: "initlog 1 r = Ok () u" "lh_n u = 0"
    "disk u = (upds ((!) (lh_block s)) (\<lambda>k. disk t (lblk s k)) n (disk t)) (lstart s := head_block 0 [] (disk t (lstart s)))"
    using recovered [OF s q t(1) _ hd(1) _ hd(2)] t(3) H(5,6) by auto
  have "disk u m = store s m" if m: "\<not> in_log s m" for m
  proof (cases "m \<in> pinned s")
    case True
    then obtain k where k: "k < n" "m = lh_block s ! k" unfolding R(18) by auto
    with upds_at [OF R(17) k(1)] t(2) m R(20) show ?thesis by (auto simp: u(3))
  next
    case False
    then have "upds ((!) (lh_block s)) (\<lambda>k. disk t (lblk s k)) n (disk t) m = disk t m"
      unfolding R(18) by (intro upds_other) auto
    moreover have "store s m = disk s m" using False R(1) by (auto intro: store_clean simp: bio.rest_def)
    ultimately show ?thesis using False t(3) m R(20) by (auto simp: u(3))
  qed
  with u(1,2) show ?thesis by blast
qed

text \<open>
  C1: Crash safety of the log. Let a transaction be ready to commit: its blocks are pinned in the
  cache, distinct, and lie outside the log, whose header on disk is empty. \<open>commit\<close> consists of
  steps that each write at most one block. Stop it after any number \<open>j\<close> of them (a crash) and
  boot: \<open>initlog\<close> succeeds, and every block outside the log is as it was on disk before the commit
  when the header had not been written yet (\<open>j \<le> n\<close>), and as the transaction left it otherwise.
  So no crash leaves part of a transaction behind.
\<close>

theorem log_crash_safe:
  fixes s :: "'z logs_scheme"
  assumes r: "log_ready n s" and n: "0 < n"
  shows "commit s = kseq (commit_steps n) (kret ()) s
    \<and> (\<exists>t. kseq (take j (commit_steps n)) (kret ()) s = Ok () t
         \<and> (\<forall>r. rebooted t r \<longrightarrow> (\<exists>u. initlog 1 r = Ok () u \<and> lh_n u = 0
              \<and> (\<forall>m. \<not> in_log s m \<longrightarrow> disk u m = (if j \<le> n then disk s m else store s m)))))"
proof
  note R = log_readyD [OF r] and H = ready_header [OF r]
  show "commit s = kseq (commit_steps n) (kret ()) s" by (rule commit_eq_steps [OF R(3) n])
  have L: "m \<noteq> lstart s" if "\<not> in_log s m" for m using that R(20) by auto
  have clean: "store s m = disk s m" if "m \<notin> pinned s" for m using that R(1) by (auto intro: store_clean simp: bio.rest_def)
  consider "j \<le> n" | "n < j" "j \<le> 2 * n + 2" | "2 * n + 3 \<le> j" by linarith
  then show "\<exists>t. kseq (take j (commit_steps n)) (kret ()) s = Ok () t
         \<and> (\<forall>r. rebooted t r \<longrightarrow> (\<exists>u. initlog 1 r = Ok () u \<and> lh_n u = 0
              \<and> (\<forall>m. \<not> in_log s m \<longrightarrow> disk u m = (if j \<le> n then disk s m else store s m))))"
  proof cases
    case 1
    obtain t where t: "kseq (take j (commit_steps n)) (kret ()) s = Ok () t" "disksize t = disksize s"
      "disk t (lstart s) = disk s (lstart s)" "\<forall>m. \<not> in_log s m \<longrightarrow> disk t m = disk s m" using crash_early [OF r 1] by blast
    have "\<exists>u. initlog 1 q = Ok () u \<and> lh_n u = 0 \<and> (\<forall>m. \<not> in_log s m \<longrightarrow> disk u m = disk s m)" if q: "rebooted t q" for q
      using recovered [OF r q t(2), of 0] H t(3,4) L by auto
    with 1 t(1) show ?thesis by auto
  next
    case 2
    obtain t where t: "kseq (take j (commit_steps n)) (kret ()) s = Ok () t" "disksize t = disksize s"
      "\<forall>k < n. disk t (lblk s k) = store s (lh_block s ! k)" "\<forall>m. \<not> in_log s m \<longrightarrow> m \<notin> pinned s \<longrightarrow> disk t m = disk s m"
      "disk t (lstart s) = head_block n (lh_block s) (disk s (lstart s))" using crash_late [OF r 2] by blast
    have "\<exists>u. initlog 1 q = Ok () u \<and> lh_n u = 0 \<and> (\<forall>m. \<not> in_log s m \<longrightarrow> disk u m = store s m)" if q: "rebooted t q" for q
      by (rule recovered_new [OF r q t(2-5)])
    with 2 t(1) show ?thesis by auto
  next
    case 3
    obtain t where t: "kseq (commit_steps n) (kret ()) s = Ok () t" "disksize t = disksize s" "\<forall>m. \<not> in_log s m \<longrightarrow> disk t m = store s m"
      "disk t (lstart s) = head_block 0 [] (head_block n (lh_block s) (disk s (lstart s)))" using committed [OF r] by blast
    have "rd32 (disk t (lstart s)) 0 = word_of_nat 0" unfolding t(4) using H(2) by (intro rd32_head_n) (simp add: LOGSIZE_NBUF)
    then have "\<exists>u. initlog 1 q = Ok () u \<and> lh_n u = 0 \<and> (\<forall>m. \<not> in_log s m \<longrightarrow> disk u m = store s m)" if q: "rebooted t q" for q
      using recovered [OF r q t(2), of 0] H t(3) L clean by auto
    with 3 t(1) show ?thesis by (auto simp: commit_steps_prefix(4))
  qed
qed

section \<open>A transaction of one block\<close>

definition ring_bufs :: "(nat \<Rightarrow> buf) \<Rightarrow> buf list" where
  "ring_bufs f = map (\<lambda>i. (f i)\<lparr>bprev := (i + 30) mod 31, bnext := (i + 1) mod 31\<rparr>) [0..<31]"

lemma ring_bufs_nth: "i < 31 \<Longrightarrow> ring_bufs f ! i = (f i)\<lparr>bprev := (i + 30) mod 31, bnext := (i + 1) mod 31\<rparr>"
  by (simp add: ring_bufs_def del: upt.simps)

lemma chain_up: "chain (\<lambda>i. (i + 1) mod 31) 30 [0..<30] 30" "chain (\<lambda>i. (i + 30) mod 31) 30 (rev [0..<30]) 30"
  by code_simp+

lemma full_ring_bufs: "full_ring (ring_bufs f) [0..<30]"
proof -
  have "chain (\<lambda>i. bnext (ring_bufs f ! i)) 30 [0..<30] 30 = chain (\<lambda>i. (i + 1) mod 31) 30 [0..<30] 30"
    "chain (\<lambda>i. bprev (ring_bufs f ! i)) 30 (rev [0..<30]) 30 = chain (\<lambda>i. (i + 30) mod 31) 30 (rev [0..<30]) 30"
    by (rule chain_cong; auto simp: ring_bufs_nth)+
  with chain_up show ?thesis
    by (auto simp: full_ring_def ring_def LOGSIZE_NBUF ring_bufs_def simp del: upt.simps)
qed

definition zero_buf :: buf where
  "zero_buf = \<lparr>flags = 0, bdev = 0, blockno = 0, refcnt = 0, bprev = 0, bnext = 0, bdata = []\<rparr>"

definition log_machine :: "(nat \<Rightarrow> buf) \<Rightarrow> (uint \<Rightarrow> block) \<Rightarrow> int \<Rightarrow> uint \<Rightarrow> logs" where
  "log_machine f dk n m = bcache.extend
     (procs.extend boot_running (bcache.fields (\<lambda>_. \<lparr>slocked = 0, sname = [], spid = 0\<rparr>) (ring_bufs f) dk 1000))
     (logs.fields 2 30 0 0 1 n (replicate 30 m))"

lemma log_machine_simps [simp]:
  "bufs (log_machine f dk n m) = ring_bufs f" "disk (log_machine f dk n m) = dk" "disksize (log_machine f dk n m) = 1000"
  "slocked (slocks (log_machine f dk n m) l) = 0" "lstart (log_machine f dk n m) = 2" "ldev (log_machine f dk n m) = 1"
  "lh_n (log_machine f dk n m) = n" "lh_block (log_machine f dk n m) = replicate 30 m"
  by (simp_all add: log_machine_def bcache.extend_def procs.extend_def bcache.fields_def logs.fields_def)

lemma log_machine_holds: "holds {} (log_machine f dk n m)"
  by (simp add: holds_def locks_ok_def held_by_def log_machine_def bcache.extend_def procs.extend_def bcache.fields_def
      logs.fields_def boot_running_def boot_procs_def boot_machine_def cpu_ok_def)

text \<open>A kernel that has just booted on the disk \<open>dk\<close>, and one with block 40 changed but not yet committed.\<close>

definition log_fresh :: "(uint \<Rightarrow> block) \<Rightarrow> logs" where
  "log_fresh dk = log_machine (\<lambda>_. zero_buf) dk 0 0"

definition boot_disk :: "uint \<Rightarrow> block" where
  "boot_disk m = (if m = 1 then wr32 (replicate 512 0) 16 2 else replicate 512 0)"

definition log_pending :: logs where
  "log_pending = log_machine ((\<lambda>_. zero_buf)(0 := zero_buf\<lparr>flags := B_VALID OR B_DIRTY, bdev := 1, blockno := 40, bdata := replicate 512 7\<rparr>))
     boot_disk 1 40"

lemma log_fresh_rest: "bio.rest (log_fresh dk)" "pinned (log_fresh dk) = {}"
proof -
  have b: "bufs (log_fresh dk) ! b = zero_buf\<lparr>bprev := (b + 30) mod 31, bnext := (b + 1) mod 31\<rparr>" if "b < 30" for b
    using that by (simp add: log_fresh_def ring_bufs_nth)
  have "cache_ok (log_fresh dk)"
    using full_ring_bufs [of "\<lambda>_. zero_buf"] log_machine_holds b
    by (auto simp: cache_ok_def LOGSIZE_NBUF buf_ok_def flags_ok_def zero_buf_def log_fresh_def)
  then show "bio.rest (log_fresh dk)" by (simp add: bio.rest_def handed_def fun_eq_iff log_fresh_def)
  show "pinned (log_fresh dk) = {}" using b by (auto simp: pinned_def cached_def LOGSIZE_NBUF zero_buf_def)
qed

lemma log_pending_ready: "log_ready 1 log_pending"
proof -
  have b: "bufs log_pending ! b = (if b = 0 then zero_buf\<lparr>flags := B_VALID OR B_DIRTY, bdev := 1, blockno := 40, bdata := replicate 512 7\<rparr>
      else zero_buf)\<lparr>bprev := (b + 30) mod 31, bnext := (b + 1) mod 31\<rparr>" if "b < 30" for b
    using that by (simp add: log_pending_def ring_bufs_nth)
  have c: "cache_ok log_pending"
    unfolding cache_ok_def
  proof (intro conjI allI impI)
    show "holds {} log_pending" by (simp add: log_pending_def log_machine_holds)
    show "\<exists>xs. full_ring (bufs log_pending) xs" using full_ring_bufs by (auto simp: log_pending_def)
    show "buf_ok (slocked (slocks log_pending (BufLock b))) (disk log_pending) (disksize log_pending) (bufs log_pending ! b)"
      if "b < NBUF" for b
      using that b [of b] by (auto simp: LOGSIZE_NBUF buf_ok_def flags_ok_def zero_buf_def) (simp_all add: log_pending_def)
    show "b = c" if "b < NBUF" "c < NBUF" "bdev (bufs log_pending ! b) = 1" "bdev (bufs log_pending ! c) = 1" for b c
      using that b [of b] b [of c] by (auto simp: LOGSIZE_NBUF zero_buf_def split: if_splits)
  qed
  have r: "bio.rest log_pending" using c by (simp add: bio.rest_def handed_def fun_eq_iff log_pending_def)
  have ca: "cached log_pending n c \<longleftrightarrow> c = 0 \<and> n = 40" for n c
    using b [of c] by (cases "c < 30") (auto simp: cached_def LOGSIZE_NBUF zero_buf_def)
  have p: "pinned log_pending = {40}" using b [of 0] by (auto simp: pinned_def ca)
  have t: "tblocks log_pending = [40]" by (simp add: tblocks_def log_pending_def)
  have d: "sb_logstart (superblock_of (boot_disk 1)) = 2" "length (boot_disk 2) = 512" "rd32 (boot_disk 2) 0 = 0"
    by (simp_all add: boot_disk_def superblock_of_def rd32_wr32) (simp add: rd32_def)
  show ?thesis
    using r p t d by (simp add: log_ready_def log_clean_def LOGSIZE_NBUF in_log_def) (simp add: log_pending_def)
qed

theorem log_crash_safe_witness:
  "log_ready 1 log_pending \<and> (\<exists>t. kseq (take 2 (commit_steps 1)) (kret ()) log_pending = Ok () t
     \<and> (\<exists>u. initlog 1 (log_fresh (disk t)) = Ok () u \<and> disk u 40 = replicate 512 7))"
proof -
  obtain t where t: "kseq (take 2 (commit_steps 1)) (kret ()) log_pending = Ok () t"
    "\<forall>r. rebooted t r \<longrightarrow> (\<exists>u. initlog 1 r = Ok () u \<and> lh_n u = 0
       \<and> (\<forall>m. \<not> in_log log_pending m \<longrightarrow> disk u m = (if 2 \<le> (1 :: nat) then disk log_pending m else store log_pending m)))"
    using log_crash_safe [OF log_pending_ready, of 2] by auto
  obtain a where "kseq (take 2 (commit_steps 1)) (kret ()) log_pending = Ok () a" "disksize a = disksize log_pending"
    using crash_late [OF log_pending_ready, of 2] by auto
  with t(1) have "rebooted t (log_fresh (disk t))"
    using log_fresh_rest by (simp add: rebooted_def log_fresh_def log_pending_def LOGSIZE_NBUF)
  moreover have "store log_pending 40 = replicate 512 7"
    using store_cached [of log_pending 40 0] log_readyD(1) [OF log_pending_ready]
    by (simp add: bio.rest_def cached_def LOGSIZE_NBUF) (simp add: log_pending_def ring_bufs_nth)
  moreover have "\<not> in_log log_pending 40" by (simp add: in_log_def LOGSIZE_NBUF log_pending_def)
  ultimately show ?thesis using t log_pending_ready by fastforce
qed

end
