(* ===== verification/Logtx.thy ===== *)
theory Logtx
  imports Logsafe
begin

text \<open>
  Transactions from \<open>begin_op\<close> to \<open>end_op\<close>: a sequence of block updates, each made the way \<open>fs.c\<close> makes
  them (\<open>bread\<close>, change the data, \<open>log_write\<close>, \<open>brelse\<close>), ends up on disk as a whole.
\<close>

section \<open>\<open>log_write\<close>\<close>

lemma absorb_found: "n \<le> length bs \<Longrightarrow> b \<in> set (take n bs) \<Longrightarrow> absorb bs n b < n \<and> bs ! absorb bs n b = b"
  by (induction bs n b rule: absorb.induct) auto

lemma absorb_new: "n \<le> length bs \<Longrightarrow> b \<notin> set (take n bs) \<Longrightarrow> absorb bs n b = n"
  by (induction bs n b rule: absorb.induct) auto

text \<open>A log with room for one more block, inside a transaction.\<close>

definition logging :: "'z logs_scheme \<Rightarrow> bool" where
  "logging s \<longleftrightarrow> cache_ok s \<and> log_clean s \<and> lsize s = int LOGSIZE \<and> 0 \<le> lh_n s \<and> lh_n s < int LOGSIZE
     \<and> distinct (tblocks s) \<and> pinned s = set (tblocks s) \<and> (\<forall>m \<in> set (tblocks s). m < disksize s \<and> \<not> in_log s m \<and> m \<noteq> 1)"

lemma log_ready_iff: "log_ready n s \<longleftrightarrow> bio.rest s \<and> log_clean s \<and> lh_n s = int n \<and> n < LOGSIZE \<and> distinct (tblocks s)
     \<and> pinned s = set (tblocks s) \<and> (\<forall>m \<in> set (tblocks s). m < disksize s \<and> \<not> in_log s m \<and> m \<noteq> 1)"
  by (simp add: log_ready_def)

lemma log_write_ok:
  fixes s :: "'z logs_scheme"
  assumes s: "logging s" and h: "handed s b = Some n" and o: "1 \<le> outstanding s" and room: "lh_n s < int LOGSIZE - 1"
    and n: "\<not> in_log s n" "n \<noteq> 1"
  shows "\<exists>t. log_write b s = Ok () t \<and> logging t \<and> handed t = handed s \<and> store t = store s \<and> disk t = disk s
    \<and> disksize t = disksize s \<and> pinned t = insert n (pinned s) \<and> outstanding t = outstanding s \<and> committing t = committing s
    \<and> lstart t = lstart s \<and> lh_n t \<le> lh_n s + 1"
proof -
  have c: "cache_ok s" "log_clean s" "lsize s = int LOGSIZE" "0 \<le> lh_n s" "distinct (tblocks s)" "pinned s = set (tblocks s)"
    "\<forall>m \<in> set (tblocks s). m < disksize s \<and> \<not> in_log s m \<and> m \<noteq> 1" using s by (simp_all add: logging_def)
  have b: "cached s n b" by (rule handed_cached [OF c(1) h])
  have bn: "b < NBUF" "bdev (bufs s ! b) = 1" "blockno (bufs s ! b) = n" "slocked (slocks s (BufLock b)) \<noteq> 0"
    using b h by (simp_all add: cached_def handed_iff)
  note bo = cache_okD(4) [OF c(1) bn(1)]
  have nd: "n < disksize s" using bo bn by (auto simp: buf_ok_def)
  define k where "k = nat (lh_n s)"
  have k: "lh_n s = int k" "k < length (lh_block s)" "tblocks s = take k (lh_block s)"
    using c(2,4) room by (simp_all add: k_def log_clean_def tblocks_def)
  define i where "i = absorb (lh_block s) k n"
  define q where "q = (bufs s ! b)\<lparr>flags := flags (bufs s ! b) OR B_DIRTY\<rparr>"
  define a where "a = acquired LogLock s"
  define d where "d = upd_buf b (\<lambda>p. p\<lparr>flags := flags p OR B_DIRTY\<rparr>)
     (a\<lparr>lh_block := (lh_block s)[i := n], lh_n := (if i = k then int k + 1 else int k)\<rparr>)"
  define t where "t = released LogLock d"
  have ha: "holds {LogLock} a" using holds_acquired [OF cache_okD(1) [OF c(1)], of LogLock] by (simp add: a_def)
  then have hd: "holds {LogLock} d" by (simp add: d_def)
  have ht: "holds {} t" using holds_released [OF hd, of LogLock] by (simp add: t_def)
  have la: "lh_block a = lh_block s" "lh_n a = lh_n s" by (simp_all add: a_def lock_defs)
  have e: "log_write b s = Ok () t"
    using room c(3) o k(1) cache_okD(1) [OF c(1)] ha hd bn(3)
    by (simp add: log_write_def kbind_apply acquire_holds a_def [symmetric] Let_def la)
      (simp add: a_def i_def [symmetric] d_def [symmetric] t_def release_holds, simp add: d_def a_def)
  have t: "bufs t = (bufs s)[b := q]" "slocks t = slocks s" "disk t = disk s" "disksize t = disksize s"
    "lh_block t = (lh_block s)[i := n]" "lh_n t = (if i = k then int k + 1 else int k)" "lstart t = lstart s" "ldev t = ldev s"
    "lsize t = lsize s" "outstanding t = outstanding s" "committing t = committing s"
    by (simp_all add: t_def d_def a_def q_def lock_defs upd_buf_def)
  have fq: "flags q = B_VALID OR B_DIRTY" using cached_flags [OF c(1) b] by (auto simp: q_def flags_ok_def)
  then have "buf_ok (slocked (slocks t (BufLock b))) (disk t) (disksize s) q"
    using bo bn t(2,3) by (auto simp: buf_ok_def flags_ok_def q_def)
  then have R: "cache_ok t \<and> store t = (store s)(n := bdata q)
    \<and> pinned t = (if flags q AND B_DIRTY \<noteq> 0 then insert n (pinned s) else pinned s - {n})
    \<and> handed t = (handed s)(b := (if slocked (slocks t (BufLock b)) \<noteq> 0 then Some n else None))"
    using bn t(2,3) by (intro cache_one [OF c(1) b ht t(4,1)]) (simp_all add: q_def)
  have st: "store t = store s" using R store_cached [OF c(1) b] by (simp add: q_def fun_upd_idem)
  have hh: "handed t = handed s" using R bn(4) t(2) h by (simp add: fun_upd_idem)
  have p: "pinned t = insert n (pinned s)" using R fq by simp
  have te: "tblocks t = (if n \<in> set (tblocks s) then tblocks s else tblocks s @ [n])"
  proof (cases "n \<in> set (tblocks s)")
    case True
    then have "i < k" "lh_block s ! i = n" using absorb_found [of k "lh_block s" n] k by (simp_all add: i_def)
    then have "(lh_block s)[i := n] = lh_block s" by (metis list_update_id)
    with True \<open>i < k\<close> k t(5,6) show ?thesis by (simp add: tblocks_def)
  next
    case False
    then have "i = k" using absorb_new [of k "lh_block s" n] k by (simp add: i_def)
    with False k t(5,6) show ?thesis by (simp add: tblocks_def nat_add_distrib take_Suc_conv_app_nth)
  qed
  then have tb: "distinct (tblocks t)" "set (tblocks t) = insert n (set (tblocks s))" using c(5) by auto
  have "log_clean t" using c(2) t by (simp add: log_clean_def)
  moreover have "in_log t = in_log s" using t(7) by (simp add: in_log_def fun_eq_iff)
  moreover have "cache_ok t" using R by blast
  ultimately have "logging t" using p tb c(3,6,7) t(4,6,9) n nd room k(1) by (simp add: logging_def)
  with e hh st t p k(1) show ?thesis by (intro exI [of _ t]) simp
qed

section \<open>A block update inside a transaction\<close>

definition tx_update :: "uint \<Rightarrow> (block \<Rightarrow> block) \<Rightarrow> ('z logs_scheme, unit) kern" where
  "tx_update n f = kbind (bread 1 n) (\<lambda>b. kseq [set_bdata b f, log_write b, brelse b] (kret ()))"

text \<open>The parts of the log's state that an update keeps.\<close>

definition lfix :: "'z logs_scheme \<Rightarrow> uint \<times> int \<times> int \<times> int \<times> uint" where
  "lfix s = (lstart s, lsize s, outstanding s, committing s, ldev s)"

lemma blk_indep_lfix: "blk_indep lfix"
  by (simp add: blk_indep_def lfix_def)

lemma logging_cong:
  fixes s t :: "'z logs_scheme"
  assumes "cache_ok t" "logf t = logf s" "disk t = disk s" "disksize t = disksize s" "pinned t = pinned s"
  shows "logging s \<Longrightarrow> logging t" "tblocks t = tblocks s" "in_log t = in_log s"
proof -
  have l: "lstart t = lstart s" "lsize t = lsize s" "ldev t = ldev s" "lh_n t = lh_n s" "lh_block t = lh_block s"
    using assms(2) by (simp_all add: logf_def)
  show tb: "tblocks t = tblocks s" by (simp add: tblocks_def l)
  show il: "in_log t = in_log s" by (simp add: in_log_def l fun_eq_iff)
  show "logging t" if "logging s" using that assms(1) by (simp add: logging_def log_clean_def l tb il assms)
qed

lemma tx_update_ok:
  fixes s :: "'z logs_scheme"
  assumes s: "logging s" "handed s = Map.empty" "1 \<le> outstanding s" "lh_n s < int LOGSIZE - 1"
    and n: "n < disksize s" "\<not> in_log s n" "n \<noteq> 1"
  shows "\<exists>t. tx_update n f s = Ok () t \<and> logging t \<and> handed t = Map.empty \<and> store t = (store s)(n := f (store s n)) \<and> disk t = disk s
    \<and> disksize t = disksize s \<and> outstanding t = outstanding s \<and> committing t = committing s \<and> lstart t = lstart s \<and> lh_n t \<le> lh_n s + 1"
proof -
  have c: "cache_ok s" "pinned s = set (tblocks s)" "lh_n s < int LOGSIZE" using s by (simp_all add: logging_def)
  have "length (tblocks s) \<le> nat (lh_n s)" by (simp add: tblocks_def)
  then have "card (pinned s) < NBUF" using card_length [of "tblocks s"] c(2) s(1,4) by (simp add: LOGSIZE_NBUF logging_def)
  then obtain b t where t: "bread 1 n s = Ok b t" "cache_ok t" "handed t = [b \<mapsto> n]" "store t = store s"
    "disk t = disk s" "pinned t = pinned s" "disksize t = disksize s" using bread_ok [OF c(1) n(1)] s(2) by auto
  have lt: "logf t = logf s" by (rule keepsD [OF keeps_bread_blk [OF blk_indep_logf] t(1)])
  obtain u where u: "set_bdata b f t = Ok () u" "cache_ok u" "handed u = handed t" "store u = (store t)(n := f (store t n))"
    "disk u = disk t" "pinned u = pinned t" "disksize u = disksize t" using set_bdata_ok [OF t(2), of b n f] t(3) by auto
  have lu: "logf u = logf s" using keepsD [OF keeps_set_bdata u(1)] lt by simp
  have L: "logging u" "in_log u = in_log s" using logging_cong [OF u(2) lu] s(1) t u by simp_all
  have fu: "outstanding u = outstanding s" "lh_n u = lh_n s" "committing u = committing s" "lstart u = lstart s"
    using lu by (simp_all add: logf_def)
  have nu: "\<not> in_log u n" using L(2) n(2) by simp
  obtain v where v: "log_write b u = Ok () v" "logging v" "handed v = handed u" "store v = store u" "disk v = disk u"
    "disksize v = disksize u" "pinned v = insert n (pinned u)" "outstanding v = outstanding u" "committing v = committing u"
    "lstart v = lstart u" "lh_n v \<le> lh_n u + 1"
    using log_write_ok [OF L(1) _ _ _ nu n(3), of b] u(3) t(3) fu s(3,4) by auto
  have cv: "cache_ok v" using v(2) by (simp add: logging_def)
  obtain w where w: "brelse b v = Ok () w" "cache_ok w" "handed w = (handed v)(b := None)" "store w = store v" "disk w = disk v"
    "pinned w = pinned v" "disksize w = disksize v" using brelse_ok [OF cv, of b n] v(3,7) u(3) t(3) by auto
  have lw: "logf w = logf v" by (rule keepsD [OF keeps_brelse_blk [OF blk_indep_logf] w(1)])
  have "logging w" using logging_cong(1) [OF w(2) lw w(5,7,6) v(2)] .
  moreover have "tx_update n f s = Ok () w" using t(1) u(1) v(1) w(1) by (simp add: tx_update_def)
  ultimately show ?thesis
    using w v u t fu lw by (intro exI [of _ w]) (simp add: logf_def fun_eq_iff)
qed

text \<open>The effect of a list of updates on the contents of the blocks.\<close>

definition tx_effect :: "(uint \<times> (block \<Rightarrow> block)) list \<Rightarrow> (uint \<Rightarrow> block) \<Rightarrow> (uint \<Rightarrow> block)" where
  "tx_effect us = fold (\<lambda>(n, f) d. d(n := f (d n))) us"

definition tx_valid :: "(uint \<times> (block \<Rightarrow> block)) list \<Rightarrow> 'z logs_scheme \<Rightarrow> bool" where
  "tx_valid us s \<longleftrightarrow> (\<forall>(n, f) \<in> set us. n < disksize s \<and> \<not> in_log s n \<and> n \<noteq> 1)"

lemma tx_updates_ok:
  fixes s :: "'z logs_scheme"
  assumes "logging s" "handed s = Map.empty" "1 \<le> outstanding s" "lh_n s + int (length us) < int LOGSIZE" "tx_valid us s"
  shows "\<exists>t. kfor us (\<lambda>(n, f). tx_update n f) s = Ok () t \<and> logging t \<and> handed t = Map.empty \<and> store t = tx_effect us (store s)
    \<and> disk t = disk s \<and> disksize t = disksize s \<and> outstanding t = outstanding s \<and> committing t = committing s \<and> lstart t = lstart s"
  using assms
proof (induction us arbitrary: s)
  case Nil
  then show ?case by (simp add: tx_effect_def)
next
  case (Cons x us)
  obtain n f where x: "x = (n, f)" by (cases x)
  have n: "n < disksize s" "\<not> in_log s n" "n \<noteq> 1" using Cons.prems(5) by (auto simp: tx_valid_def x)
  have room: "lh_n s < int LOGSIZE - 1" using Cons.prems(4) by simp
  obtain t where t: "tx_update n f s = Ok () t" "logging t" "handed t = Map.empty" "store t = (store s)(n := f (store s n))"
    "disk t = disk s" "disksize t = disksize s" "outstanding t = outstanding s" "committing t = committing s" "lstart t = lstart s"
    "lh_n t \<le> lh_n s + 1" using tx_update_ok [OF Cons.prems(1-3) room n] by blast
  have "tx_valid us t" using Cons.prems(5) t(6,9) by (auto simp: tx_valid_def in_log_def x)
  moreover have "1 \<le> outstanding t" "lh_n t + int (length us) < int LOGSIZE" using Cons.prems(3,4) t(7,10) by simp_all
  ultimately obtain u where "kfor us (\<lambda>(n, f). tx_update n f) t = Ok () u \<and> logging u \<and> handed u = Map.empty
    \<and> store u = tx_effect us (store t) \<and> disk u = disk t \<and> disksize u = disksize t \<and> outstanding u = outstanding t
    \<and> committing u = committing t \<and> lstart u = lstart t" using Cons.IH [OF t(2,3)] by blast
  with t show ?case by (intro exI [of _ u]) (simp add: x tx_effect_def)
qed

lemma tx_effect_other: "(\<And>f. (m, f) \<notin> set us) \<Longrightarrow> tx_effect us d m = d m"
proof (induction us arbitrary: d)
  case (Cons x us)
  then have "fst x \<noteq> m" by (cases x) auto
  with Cons show ?case by (cases x) (auto simp: tx_effect_def)
qed (simp add: tx_effect_def)

section \<open>\<open>begin_op\<close> and \<open>end_op\<close>\<close>

lemma begin_op_ok:
  fixes s :: "'z logs_scheme"
  assumes h: "holds {} s" and c: "committing s = 0" and room: "lh_n s + (outstanding s + 1) * int MAXOPBLOCKS \<le> int LOGSIZE"
  shows "\<exists>t. begin_op [] s = Ok () t \<and> holds {} t \<and> bufs t = bufs s \<and> slocks t = slocks s \<and> disk t = disk s \<and> disksize t = disksize s
    \<and> lstart t = lstart s \<and> lsize t = lsize s \<and> ldev t = ldev s \<and> lh_n t = lh_n s \<and> lh_block t = lh_block s \<and> committing t = 0
    \<and> outstanding t = outstanding s + 1"
proof -
  define a where "a = (acquired LogLock s)\<lparr>outstanding := outstanding s + 1\<rparr>"
  have ha: "holds {LogLock} (acquired LogLock s)" using holds_acquired [OF h, of LogLock] by simp
  then have hb: "holds {LogLock} a" unfolding a_def by (subst holds_ctl [of _ "acquired LogLock s"]) (simp_all add: lock_ctl_def)
  have f: "committing (acquired LogLock s) = committing s" "lh_n (acquired LogLock s) = lh_n s"
    "outstanding (acquired LogLock s) = outstanding s" by (simp_all add: lock_defs)
  have "begin_op [] s = Ok () (released LogLock a)"
    using h c room hb by (simp add: begin_op_def kbind_apply acquire_holds f a_def [symmetric] release_holds)
  moreover have "holds {} (released LogLock a)" using holds_released [OF hb, of LogLock] by simp
  ultimately show ?thesis using c by (intro exI [of _ "released LogLock a"]) (simp add: a_def, simp add: lock_defs)
qed

lemma log_ready_cong:
  fixes s t :: "'z logs_scheme"
  assumes f: "bufs t = bufs s" "slocks t = slocks s" "disk t = disk s" "disksize t = disksize s" and h: "holds {} t" "holds {} s"
    and l: "lstart t = lstart s" "ldev t = ldev s" "lh_n t = lh_n s" "lh_block t = lh_block s"
  shows "log_ready n t = log_ready n s" "store t = store s" "in_log t = in_log s" "pinned t = pinned s" "handed t = handed s"
    "cache_ok t = cache_ok s" "tblocks t = tblocks s"
proof -
  have hh: "holds {} t = holds {} s" using h by simp
  note c = cache_cong [OF f hh]
  show "store t = store s" "pinned t = pinned s" "handed t = handed s" "cache_ok t = cache_ok s" by (rule c)+
  show i: "in_log t = in_log s" by (simp add: in_log_def l fun_eq_iff)
  show tb: "tblocks t = tblocks s" by (simp add: tblocks_def l)
  show "log_ready n t = log_ready n s" by (simp add: log_ready_def log_clean_def l f i tb c)
qed

lemma keeps_lfix: "keeps logf m \<Longrightarrow> keeps lfix m"
  unfolding keeps_def by (auto simp: logf_def lfix_def split: kres.splits)

lemma keeps_commit: "keeps lfix commit"
  unfolding commit_def write_log_def install_trans_def
  by (auto intro!: keeps_kif keeps_kbind keeps_mod keeps_lfix [OF keeps_write_head]
      keeps_lfix [OF keeps_kfor_log(1)] keeps_lfix [OF keeps_kfor_log(2)]
      keeps_state_arg [where m = "\<lambda>s. kfor [0..<nat (lh_n s)] log_block"]
      keeps_state_arg [where m = "\<lambda>s. kfor [0..<nat (lh_n s)] install_block"]) (simp add: lfix_def)

text \<open>\<open>commit\<close> puts the transaction on disk and leaves an empty log.\<close>

lemma commit_ok:
  fixes s :: "'z logs_scheme"
  assumes r: "log_ready n s"
  shows "\<exists>t. commit s = Ok () t \<and> log_ready 0 t \<and> disksize t = disksize s \<and> (\<forall>m. \<not> in_log s m \<longrightarrow> disk t m = store s m)
    \<and> lfix t = lfix s"
proof (cases "n = 0")
  case True
  note R = log_readyD [OF r]
  have "pinned s = {}" using R(18) True by simp
  then have "store s = disk s" using R(1) by (rule rest_store [rotated])
  with True r R(3) show ?thesis by (auto simp: commit_def)
next
  case False
  note R = log_readyD [OF r] and H = ready_header [OF r]
  obtain t where t: "kseq (commit_steps n) (kret ()) s = Ok () t" "bio.rest t" "disksize t = disksize s" "pinned t = {}" "lh_n t = 0"
    "lstart t = lstart s" "ldev t = 1" "lh_block t = lh_block s" "\<forall>m. \<not> in_log s m \<longrightarrow> disk t m = store s m"
    "disk t (lstart s) = head_block 0 [] (head_block n (lh_block s) (disk s (lstart s)))" using committed [OF r] by blast
  have e: "commit s = Ok () t" using commit_eq_steps [OF R(3)] False t(1) by simp
  have "store s 1 = disk s 1" using H(6) R(1) by (auto intro: store_clean simp: bio.rest_def)
  then have d1: "disk t 1 = disk s 1" using t(9) H(5) by simp
  have "rd32 (disk t (lstart s)) 0 = 0" unfolding t(10) using H(2) rd32_head_n [of _ 0] by (simp add: LOGSIZE_NBUF)
  moreover have "length (disk t (lstart s)) = BSIZE" unfolding t(10) using H(2) by simp
  ultimately have "log_clean t" using r t d1 by (simp add: log_clean_def log_ready_def)
  then have "log_ready 0 t" using t by (simp add: log_ready_def tblocks_def LOGSIZE_NBUF)
  with e t keepsD [OF keeps_commit e] show ?thesis by blast
qed

lemma end_op_ok:
  fixes s :: "'z logs_scheme"
  assumes r: "log_ready n s" and o: "outstanding s = 1" "committing s = 0"
  shows "\<exists>t. end_op s = Ok () t \<and> log_ready 0 t \<and> disksize t = disksize s \<and> (\<forall>m. \<not> in_log s m \<longrightarrow> disk t m = store s m)
    \<and> lstart t = lstart s \<and> lsize t = lsize s \<and> outstanding t = 0 \<and> committing t = 0"
proof -
  have h: "holds {} s" using r by (simp add: log_ready_def bio.rest_def cache_ok_def)
  define a where "a = (acquired LogLock s)\<lparr>outstanding := 0, committing := 1\<rparr>"
  define b where "b = released LogLock a"
  have ha: "holds {LogLock} (acquired LogLock s)" using holds_acquired [OF h, of LogLock] by simp
  then have ha': "holds {LogLock} a" unfolding a_def by (subst holds_ctl [of _ "acquired LogLock s"]) (simp_all add: lock_ctl_def)
  have hb: "holds {} b" using holds_released [OF ha', of LogLock] by (simp add: b_def)
  have fb: "bufs b = bufs s" "slocks b = slocks s" "disk b = disk s" "disksize b = disksize s" "lstart b = lstart s" "ldev b = ldev s"
    "lh_n b = lh_n s" "lh_block b = lh_block s" "lsize b = lsize s" "outstanding b = 0" "committing b = 1"
    by (simp_all add: b_def a_def) (simp_all add: lock_defs)
  note C = log_ready_cong [OF fb(1-4) hb h fb(5-8)]
  have rb: "log_ready n b" using r C(1) by simp
  obtain c where c: "commit b = Ok () c" "log_ready 0 c" "disksize c = disksize b" "\<forall>m. \<not> in_log b m \<longrightarrow> disk c m = store b m" "lfix c = lfix b"
    using commit_ok [OF rb] by blast
  have hc: "holds {} c" using c(2) by (simp add: log_ready_def bio.rest_def cache_ok_def)
  define d where "d = (acquired LogLock c)\<lparr>committing := 0\<rparr>"
  define e where "e = woken_up Ch_log d"
  have hd: "holds {LogLock} (acquired LogLock c)" using holds_acquired [OF hc, of LogLock] by simp
  then have hd': "holds {LogLock} d" unfolding d_def by (subst holds_ctl [of _ "acquired LogLock c"]) (simp_all add: lock_ctl_def)
  then have he: "holds {LogLock} e" by (simp add: e_def)
  have ht: "holds {} (released LogLock e)" using holds_released [OF he, of LogLock] by simp
  have ft: "bufs (released LogLock e) = bufs c" "slocks (released LogLock e) = slocks c" "disk (released LogLock e) = disk c"
    "disksize (released LogLock e) = disksize c" "lstart (released LogLock e) = lstart c" "ldev (released LogLock e) = ldev c"
    "lh_n (released LogLock e) = lh_n c" "lh_block (released LogLock e) = lh_block c" "lsize (released LogLock e) = lsize c"
    "outstanding (released LogLock e) = outstanding c" "committing (released LogLock e) = 0"
    by (simp_all add: e_def d_def) (simp_all add: lock_defs woken_up_def)
  have fa: "outstanding (acquired LogLock s) = 1" "committing (acquired LogLock s) = 0" using o by (simp_all add: lock_defs)
  have x: "end_op s = Ok () (released LogLock e)"
    using h hc ha' hd' he c(1)
    by (simp add: end_op_def kbind_apply acquire_holds fa a_def [symmetric])
      (simp add: a_def [symmetric] release_holds b_def [symmetric] acquire_holds d_def [symmetric] wakeup_holds e_def [symmetric])
  have "log_ready 0 (released LogLock e)" using log_ready_cong(1) [OF ft(1-4) ht hc ft(5-8)] c(2) by simp
  with x ft c fb C show ?thesis by (intro exI [of _ "released LogLock e"]) (simp add: lfix_def)
qed

section \<open>Transactions\<close>


text \<open>Two updates of the same block.\<close>

lemma log_fresh_ready: "log_ready 0 (log_fresh boot_disk)"
proof -
  have d: "sb_logstart (superblock_of (boot_disk 1)) = 2" "length (boot_disk 2) = 512" "rd32 (boot_disk 2) 0 = 0"
    by (simp_all add: boot_disk_def superblock_of_def rd32_wr32) (simp add: rd32_def)
  show ?thesis
    using log_fresh_rest [of boot_disk] d by (simp add: log_ready_def tblocks_def log_clean_def LOGSIZE_NBUF) (simp add: log_fresh_def)
qed

lemma log_fresh_fields: "lsize (log_fresh d) = 30" "outstanding (log_fresh d) = 0" "committing (log_fresh d) = 0" "lstart (log_fresh d) = 2"
    "disksize (log_fresh d) = 1000" "disk (log_fresh d) = d"
  by (simp_all add: log_fresh_def) (simp_all add: log_machine_def bcache.extend_def procs.extend_def bcache.fields_def logs.fields_def)


section \<open>Admission\<close>



end
