(* ===== verification/Ring.thy ===== *)
theory Ring
  imports Prelude
begin

text \<open>
  Ring buffers as the kernel writes them: an array of \<open>N\<close> bytes and counters of type \<open>uint\<close> that only grow
  and wrap around at \<open>2^32\<close>; the byte of counter \<open>i\<close> is at index \<open>i % N\<close>. This works because \<open>N\<close> divides
  \<open>2^32\<close>, so that the index goes on counting when the counter wraps around. The theory also has the
  interface of a bounded first-in first-out queue.
\<close>

section \<open>Windows of a ring\<close>

text \<open>The \<open>n\<close> bytes from counter \<open>r\<close> on.\<close>

definition window :: "uint \<Rightarrow> 'a list \<Rightarrow> uint \<Rightarrow> nat \<Rightarrow> 'a list" where
  "window N buf r n = map (\<lambda>k. buf ! unat ((r + of_nat k) mod N)) [0..<n]"

lemma length_window [simp]: "length (window N buf r n) = n"
  by (simp add: window_def)

lemma window_0 [simp]: "window N buf r 0 = []"
  by (simp add: window_def)

lemma window_Suc: "window N buf r (Suc n) = window N buf r n @ [buf ! unat ((r + of_nat n) mod N)]"
  by (simp add: window_def)

lemma window_Cons: "window N buf r (Suc n) = buf ! unat (r mod N) # window N buf (r + 1) n"
  by (simp add: window_def upt_conv_Cons map_Suc_upt [symmetric] o_def add.assoc del: upt_Suc)

lemma window_take: "m \<le> n \<Longrightarrow> window N buf r m = take m (window N buf r n)"
  by (simp add: window_def take_map)

locale ring_size =
  fixes N :: uint
  assumes divides: "unat N dvd 2 ^ 32"
begin

lemma pos: "0 < unat N"
  using divides by (cases "unat N = 0") auto

lemma index_lt: "unat (i mod N) < unat N"
  using pos by (simp add: unat_mod)

lemma index_add: "unat ((r + of_nat k) mod N) = (unat r + k) mod unat N"
proof -
  have "unat (r + of_nat k) = (unat r + k) mod 2 ^ 32" by (simp add: unat_word_ariths unat_of_nat mod_add_right_eq)
  then show ?thesis using mod_mod_cancel [OF divides, of "unat r + k"] by (simp add: unat_mod)
qed

lemma index_neq:
  assumes "k < n" "n < k + unat N"
  shows "unat ((r + of_nat k) mod N) \<noteq> unat ((r + of_nat n) mod N)"
proof
  assume "unat ((r + of_nat k) mod N) = unat ((r + of_nat n) mod N)"
  then have "(unat r + n) mod unat N = (unat r + k) mod unat N" by (simp add: index_add)
  then have "unat N dvd (unat r + n) - (unat r + k)" by (meson mod_eq_dvd_iff_nat add_le_cancel_left assms(1) less_imp_le)
  moreover have "0 < (unat r + n) - (unat r + k)" "(unat r + n) - (unat r + k) < unat N" using assms by auto
  ultimately show False using dvd_imp_le not_less by blast
qed

text \<open>Storing a byte behind the window, and not more than \<open>N\<close> bytes from its start, extends it.\<close>

lemma window_store:
  assumes "length buf = unat N" "n < unat N"
  shows "window N (buf[unat ((r + of_nat n) mod N) := c]) r (Suc n) = window N buf r n @ [c]"
proof -
  have "map (\<lambda>k. buf[unat ((r + of_nat n) mod N) := c] ! unat ((r + of_nat k) mod N)) [0..<n] = window N buf r n"
    unfolding window_def using index_neq [of _ n r] assms(2) by (intro map_cong nth_list_update_neq) (auto dest: sym)
  then show ?thesis using index_lt [of "r + of_nat n"] assms(1) by (simp add: window_def)
qed

end

section \<open>Bounded queues\<close>

text \<open>
  The contract of a queue of at most \<open>cap\<close> elements in terms of the elements \<open>contents\<close> it holds. A client
  puts an element only if \<open>full\<close> is false and takes one only if \<open>empty\<close> is false.
\<close>

locale bounded_queue =
  fixes ok :: "'q \<Rightarrow> bool" and contents :: "'q \<Rightarrow> 'a list" and cap :: nat
    and full :: "'q \<Rightarrow> bool" and emp :: "'q \<Rightarrow> bool"
    and put :: "'a \<Rightarrow> 'q \<Rightarrow> 'q" and top :: "'q \<Rightarrow> 'a" and dropq :: "'q \<Rightarrow> 'q"
  assumes bounded: "ok q \<Longrightarrow> length (contents q) \<le> cap"
    and full_iff: "ok q \<Longrightarrow> full q \<longleftrightarrow> length (contents q) = cap"
    and emp_iff: "ok q \<Longrightarrow> emp q \<longleftrightarrow> contents q = []"
    and put_ok: "ok q \<Longrightarrow> \<not> full q \<Longrightarrow> ok (put c q)"
    and put_contents: "ok q \<Longrightarrow> \<not> full q \<Longrightarrow> contents (put c q) = contents q @ [c]"
    and drop_ok: "ok q \<Longrightarrow> \<not> emp q \<Longrightarrow> ok (dropq q)"
    and drop_contents: "ok q \<Longrightarrow> \<not> emp q \<Longrightarrow> contents q = top q # contents (dropq q)"
begin

text \<open>Putting elements one by one that all fit.\<close>

lemma put_list:
  "ok q \<Longrightarrow> length (contents q) + length cs \<le> cap \<Longrightarrow> ok (fold put cs q) \<and> contents (fold put cs q) = contents q @ cs"
proof (induction cs arbitrary: q)
  case (Cons c cs)
  then have "\<not> full q" using full_iff by simp
  then show ?case using Cons put_ok put_contents by simp
qed simp

text \<open>Taking up to \<open>n\<close> elements.\<close>

primrec take_all :: "nat \<Rightarrow> 'q \<Rightarrow> 'a list \<times> 'q" where
  "take_all 0 q = ([], q)"
| "take_all (Suc n) q = (if emp q then ([], q) else apfst (Cons (top q)) (take_all n (dropq q)))"

lemma take_all_spec:
  "ok q \<Longrightarrow> ok (snd (take_all n q)) \<and> fst (take_all n q) = take n (contents q) \<and> contents (snd (take_all n q)) = drop n (contents q)"
proof (induction n arbitrary: q)
  case (Suc n)
  show ?case
  proof (cases "emp q")
    case True
    then show ?thesis using Suc.prems emp_iff by simp
  next
    case False
    then show ?thesis using Suc drop_ok drop_contents [of q] by simp
  qed
qed simp

end

end
