(* ===== verification/Threads.thy ===== *)
theory Threads
  imports Holds Procsched
begin

text \<open>
  A kernel thread between its lock operations: \<open>thread i X s\<close> says that the CPU that runs in state \<open>s\<close> executes
  process \<open>i\<close>, which holds exactly the spin locks in \<open>X\<close> and has interrupts off for these alone. A thread
  sleeps with one lock held; what other threads do meanwhile is a function on states, which comes back
  when the thread has been chosen again with \<open>ptable.lock\<close> held.
\<close>

definition thread :: "nat \<Rightarrow> lockid set \<Rightarrow> 'z procs_scheme \<Rightarrow> bool" where
  "thread i X s \<longleftrightarrow> holds X s \<and> ncli (mycpu s) = int (card X) \<and> cproc (mycpu s) = Some i \<and> i < length (ptable s)"

lemma thread_holds: "thread i X s \<Longrightarrow> holds X s"
  by (simp add: thread_def)

lemma thread_me: "thread i X s \<Longrightarrow> me s = i"
  by (simp add: thread_def me_def)

lemma holds_finite: "holds X s \<Longrightarrow> finite X"
  by (auto simp: holds_def locks_ok_def)

lemma thread_acquire: "thread i X s \<Longrightarrow> l \<notin> X \<Longrightarrow> acquire l s = Ok () (acquired l s)"
  unfolding thread_def by (blast intro: acquire_holds)

lemma thread_release: "thread i X s \<Longrightarrow> l \<in> X \<Longrightarrow> release l s = Ok () (released l s)"
  unfolding thread_def by (blast intro: release_holds)

lemma thread_wakeup: "thread i X s \<Longrightarrow> PtableLock \<notin> X \<Longrightarrow> wakeup ch s = Ok () (woken_up ch s)"
  unfolding thread_def by (blast intro: wakeup_holds)

lemma ptable_lock [simp]: "ptable (acquired l s) = ptable s" "ptable (released l s) = ptable s"
  by (simp_all add: acquired_def released_def upd_lock_def upd_mycpu_def)

lemma thread_acquired: "thread i X s \<Longrightarrow> l \<notin> X \<Longrightarrow> thread i (insert l X) (acquired l s)"
  using holds_finite [of X s] by (auto simp: thread_def holds_acquired)

lemma thread_released: "thread i X s \<Longrightarrow> l \<in> X \<Longrightarrow> thread i (X - {l}) (released l s)"
  using holds_finite [of X s] card_Diff_singleton [of l X] card_gt_0_iff [of X]
  by (auto simp: thread_def holds_released of_nat_diff)

lemma thread_woken: "thread i X s \<Longrightarrow> PtableLock \<notin> X \<Longrightarrow> thread i X (woken_up ch s)"
proof -
  assume a: "thread i X s" "PtableLock \<notin> X"
  have "thread i (insert PtableLock X) ((acquired PtableLock s)\<lparr>ptable := map (wake ch) (ptable s)\<rparr>)"
    using thread_acquired [OF a] by (simp add: thread_def)
  then show ?thesis unfolding woken_up_def using thread_released [of i "insert PtableLock X" _ PtableLock] a(2) by simp
qed

text \<open>Where the thread is when it has gone to sleep, and when it comes back from \<open>e\<close>.\<close>

lemma asleep_thread:
  assumes "thread i {lk} s" "lk \<noteq> PtableLock"
  shows "thread i {PtableLock} (asleep ch lk s)" "ptable (asleep ch lk s) ! i = (ptable s ! i)\<lparr>chan := Some ch, state := SLEEPING\<rparr>"
    "sleep_enter ch lk s = Ok () (asleep ch lk s)"
proof -
  have "thread i {PtableLock} (released lk (acquired PtableLock s))"
    using thread_released [OF thread_acquired [OF assms(1), of PtableLock], of lk] assms(2) by (simp add: insert_Diff_if)
  then show "thread i {PtableLock} (asleep ch lk s)" using assms(2) by (simp add: asleep_def thread_def upd_proc_def)
  show "ptable (asleep ch lk s) ! i = (ptable s ! i)\<lparr>chan := Some ch, state := SLEEPING\<rparr>"
    using assms thread_me [OF assms(1)] by (simp add: asleep_def upd_proc_def thread_def)
  show "sleep_enter ch lk s = Ok () (asleep ch lk s)"
    using assms holds_free [of "{lk}" s PtableLock] holds_held [of "{lk}" s lk] by (intro sleep_enter_eq) (auto simp: thread_def)
qed

lemma sched_thread:
  assumes "thread i {lk} s" "lk \<noteq> PtableLock"
  shows "sched e (asleep ch lk s) =
    Ok () (upd_mycpu (\<lambda>c. c\<lparr>intena := intena (mycpu (asleep ch lk s))\<rparr>) (e (asleep ch lk s)))"
  using asleep_thread [OF assms, of ch] holds_held [of "{PtableLock}" "asleep ch lk s" PtableLock]
  by (intro sched_eq) (auto simp: thread_def curproc_def me_def)

definition awake :: "chan \<Rightarrow> lockid \<Rightarrow> ('z procs_scheme \<Rightarrow> 'z procs_scheme) \<Rightarrow> 'z procs_scheme \<Rightarrow> 'z procs_scheme" where
  "awake ch lk e s = acquired lk (released PtableLock
     (upd_me (\<lambda>p. p\<lparr>chan := None\<rparr>) (upd_mycpu (\<lambda>c. c\<lparr>intena := intena (mycpu (asleep ch lk s))\<rparr>) (e (asleep ch lk s)))))"

lemma holds_intena: "holds X (upd_mycpu (\<lambda>c. c\<lparr>intena := v\<rparr>) s) = holds X s"
  by (auto simp: holds_def locks_ok_def upd_mycpu_def cpu_ok_def held_by_def intr_on_def)

lemma sleep_thread:
  assumes "thread i {lk} s" "lk \<noteq> PtableLock" "thread i {PtableLock} (e (asleep ch lk s))"
  shows "sleep e ch lk s = Ok () (awake ch lk e s)" "thread i {lk} (awake ch lk e s)"
proof -
  define u where "u = upd_me (\<lambda>p. p\<lparr>chan := None\<rparr>)
    (upd_mycpu (\<lambda>c. c\<lparr>intena := intena (mycpu (asleep ch lk s))\<rparr>) (e (asleep ch lk s)))"
  have u: "thread i {PtableLock} u"
    using assms(3) by (simp add: u_def thread_def upd_me_def upd_proc_def holds_intena)
  have r: "thread i {} (released PtableLock u)" using thread_released [OF u, of PtableLock] by simp
  show "thread i {lk} (awake ch lk e s)" using thread_acquired [OF r, of lk] by (simp add: awake_def u_def)
  show "sleep e ch lk s = Ok () (awake ch lk e s)"
    using assms(2) asleep_thread(3) [OF assms(1,2)] sched_thread [OF assms(1,2)] thread_release [OF u, of PtableLock]
      thread_acquire [OF r, of lk]
    by (simp add: sleep_def kbind_apply awake_def u_def)
qed

lemma sleep_forever_thread:
  assumes "thread i {lk} s" "lk \<noteq> PtableLock"
  shows "sleep_forever ch lk s = Blocked (upd_mycpu (\<lambda>c. c\<lparr>intena := intena (mycpu (asleep ch lk s))\<rparr>) (asleep ch lk s))"
  using asleep_thread(3) [OF assms] sched_thread [OF assms] by (simp add: sleep_forever_def kbind_apply)

end
