(* ===== verification/Bootstate.thy ===== *)
theory Bootstate
  imports Pipe Threads Logsafe
begin

text \<open>
  A concrete state of the whole kernel, with process 0 running on an idle machine, no file open and no
  pipe in use. The witnesses of the layers above the log start from it.
\<close>

definition boot_fss :: fss where
  "boot_fss = logs.extend (log_fresh boot_disk)
     (fss.fields
       \<lparr>sb_size = 1000, sb_nblocks = 941, sb_ninodes = 200, sb_nlog = 30, sb_logstart = 2, sb_inodestart = 32, sb_bmapstart = 58\<rparr>
       (replicate NINODE \<lparr>itype = 0, major = 0, minor = 0, nlink = 0, isize = 0, addrs = replicate 13 0,
          idev = 0, inum = 0, iref = 0, iflags = 0\<rparr>))"

definition boot_cons :: cons where
  "boot_cons = fss.extend boot_fss
     (cons.fields 1 False (\<lambda>_. 0) 0 True [] (replicate (unat INPUT_BUF) 0) 0 0 0 (\<lambda>d. d = 1))"

definition boot_files :: files where
  "boot_files = cons.extend boot_cons
     (files.fields
       (replicate NFILE \<lparr>ftype = FD_NONE, fref = 0, readable = False, writable = False, fpipe = 0, fip = 0, foff = 0\<rparr>)
       (\<lambda>_. \<lparr>pdata = replicate 512 0, nread = 0, nwrite = 0, readopen = 1, writeopen = 1\<rparr>))"

lemmas boot_defs = boot_files_def cons.extend_def files.fields_def boot_cons_def fss.extend_def cons.fields_def
  boot_fss_def logs.extend_def fss.fields_def log_fresh_def log_machine_def bcache.extend_def procs.extend_def
  bcache.fields_def logs.fields_def

lemma boot_files_simps [simp]:
  "mem boot_files = (\<lambda>_. 0)" "ptable boot_files = replicate NPROC zero_proc"
  "pipes boot_files = (\<lambda>_. \<lparr>pdata = replicate 512 0, nread = 0, nwrite = 0, readopen = 1, writeopen = 1\<rparr>)"
  "ftable boot_files = replicate NFILE \<lparr>ftype = FD_NONE, fref = 0, readable = False, writable = False, fpipe = 0, fip = 0, foff = 0\<rparr>"
  by (simp_all add: boot_defs boot_running_def upd_mycpu_def boot_procs_def)

lemma boot_cons_simps [simp]:
  "in_buf boot_cons = replicate (unat INPUT_BUF) 0" "in_r boot_cons = 0" "in_w boot_cons = 0" "in_e boot_cons = 0"
  "crtpos boot_cons = 0" "panicked boot_cons = False" "ptable boot_cons = replicate NPROC zero_proc"
  by (simp_all add: boot_defs boot_running_def upd_mycpu_def boot_procs_def)

lemma boot_thread [simp]: "thread 0 {} boot_files" "thread 0 {} boot_cons"
  by (simp_all add: thread_def holds_def locks_ok_def held_by_def boot_defs NPROC_def boot_running_def upd_mycpu_def
      boot_procs_def boot_machine_def cpu_ok_def)

end
