(* ===== verification/Pipefifo.thy ===== *)
theory Pipefifo
  imports Ring Bootstate "HOL-Library.Sublist"
begin

text \<open>
  Pipes carry a stream of bytes. The ring buffer of \<open>pipe.c\<close> is a queue of at most \<open>PIPESIZE\<close> bytes, also
  when its counters wrap around; \<open>pipewrite\<close> appends the bytes of the caller in order, whatever readers
  take out while it sleeps; \<open>piperead\<close> takes bytes from the front and stores them in the caller's memory.
\<close>

declare pipewrite_loop.simps [simp del] piperead_wait.simps [simp del] piperead_copy.simps [simp del]

section \<open>The ring buffer\<close>

definition pipe_ok :: "pipe \<Rightarrow> bool" where
  "pipe_ok q \<longleftrightarrow> length (pdata q) = unat PIPESIZE \<and> unat (nwrite q - nread q) \<le> unat PIPESIZE"

definition pipe_bytes :: "pipe \<Rightarrow> uchar list" where
  "pipe_bytes q = window PIPESIZE (pdata q) (nread q) (unat (nwrite q - nread q))"

definition pipe_full :: "pipe \<Rightarrow> bool" where
  "pipe_full q \<longleftrightarrow> nwrite q = nread q + PIPESIZE"

definition pipe_empty :: "pipe \<Rightarrow> bool" where
  "pipe_empty q \<longleftrightarrow> nread q = nwrite q"

interpretation pr: ring_size PIPESIZE
  by unfold_locales (simp add: PIPESIZE_def)

lemma pipe_full_iff: "pipe_full q \<longleftrightarrow> nwrite q - nread q = PIPESIZE"
  by (auto simp: pipe_full_def algebra_simps)

interpretation pq: bounded_queue pipe_ok pipe_bytes "unat PIPESIZE" pipe_full pipe_empty pipe_put pipe_top pipe_drop
proof unfold_locales
  fix q :: pipe and c
  define n where "n = unat (nwrite q - nread q)"
  have w: "nwrite q = nread q + of_nat n" by (simp add: n_def)
  assume ok: "pipe_ok q"
  show "length (pipe_bytes q) \<le> unat PIPESIZE" using ok by (simp add: pipe_ok_def pipe_bytes_def)
  show full: "pipe_full q = (length (pipe_bytes q) = unat PIPESIZE)" unfolding pipe_full_iff pipe_bytes_def length_window word_unat_eq_iff ..
  show emp: "pipe_empty q = (pipe_bytes q = [])"
    by (simp add: pipe_empty_def pipe_bytes_def window_def unat_eq_0 eq_commute [of "nread q"])
  {
    assume "\<not> pipe_full q"
    then have n: "n < unat PIPESIZE" using ok full by (simp add: pipe_ok_def n_def pipe_bytes_def)
    have "nwrite q + 1 - nread q = of_nat (Suc n)" unfolding w by simp
    then have S: "unat (nwrite q + 1 - nread q) = Suc n" using n by (simp only: unat_of_nat) (simp add: PIPESIZE_def)
    show "pipe_ok (pipe_put c q)" using ok n S by (simp add: pipe_ok_def pipe_put_def)
    have "pipe_bytes (pipe_put c q) = window PIPESIZE ((pdata q)[unat ((nread q + of_nat n) mod PIPESIZE) := c]) (nread q) (Suc n)"
      by (simp add: pipe_bytes_def pipe_put_def S flip: w)
    also have "\<dots> = window PIPESIZE (pdata q) (nread q) n @ [c]"
      using ok n by (intro pr.window_store) (simp_all add: pipe_ok_def)
    finally show "pipe_bytes (pipe_put c q) = pipe_bytes q @ [c]" by (simp add: pipe_bytes_def n_def)
  }
  {
    assume "\<not> pipe_empty q"
    then obtain m where m: "n = Suc m" using emp by (cases n) (auto simp: n_def pipe_bytes_def)
    have "nwrite q - (nread q + 1) = of_nat m" unfolding w m by simp
    moreover have "m < 512" using ok m by (simp add: pipe_ok_def n_def PIPESIZE_def)
    ultimately have S: "unat (nwrite q - (nread q + 1)) = m" by (simp only: unat_of_nat) simp
    show "pipe_ok (pipe_drop q)" using ok m S by (simp add: pipe_ok_def pipe_drop_def n_def [symmetric])
    show "pipe_bytes q = pipe_top q # pipe_bytes (pipe_drop q)"
      using m S by (simp add: pipe_bytes_def pipe_drop_def pipe_top_def n_def [symmetric] window_Cons)
  }
qed

section \<open>User memory and the frame\<close>

definition user_byte :: "nat \<Rightarrow> 'z procs_scheme \<Rightarrow> uint \<Rightarrow> uchar option" where
  "user_byte i s va =
     (if va \<ge> KERNBASE then Some (mem s va)
      else map_option (mem s) (vtrans (mem s) (pgdir (ptable s ! i)) False va))"

lemma vget_user: "thread i X s \<Longrightarrow> user_byte i s va = Some c \<Longrightarrow> vget va s = Ok c s"
  by (auto simp: vget_def vaddr_def user_byte_def curproc_def thread_me kbind_apply split: if_splits option.splits)

lemma pgdir_wake [simp]: "pgdir (wake ch p) = pgdir p"
  by (simp add: wake_def)

lemma pgdir_upd [simp]: "pgdir x = pgdir (pt ! j) \<Longrightarrow> pgdir (pt[j := x] ! i) = pgdir (pt ! i)"
  by (cases "j < length pt"; cases "i = j"; simp add: list_update_beyond)

lemma mem_frames [simp]:
  "mem (acquired l s) = mem s" "mem (released l s) = mem s" "mem (woken_up ch t) = mem t" "mem (asleep ch l t) = mem t"
  "mem (upd_mycpu f s) = mem s" "mem (upd_me g t) = mem t"
  "ptable (woken_up ch t) = map (wake ch) (ptable t)" "ptable (upd_mycpu f t) = ptable t"
  by (simp_all add: acquired_def released_def woken_up_def asleep_def upd_lock_def upd_mycpu_def upd_me_def upd_proc_def)

lemma pipe_frames [simp]:
  "pipes (acquired l s) = pipes s" "pipes (released l s) = pipes s" "pipes (woken_up ch s) = pipes s"
  "pipes (asleep ch l s) = pipes s" "pipes (upd_mycpu f s) = pipes s" "pipes (upd_me g s) = pipes s"
  "pipes (upd_pipe p h s) = (pipes s)(p := h (pipes s p))" "mem (upd_pipe p h s) = mem s" "ptable (upd_pipe p h s) = ptable s"
  for s :: "'z files_scheme"
  by (simp_all add: acquired_def released_def woken_up_def asleep_def upd_lock_def upd_mycpu_def upd_me_def upd_proc_def
      upd_pipe_def)

lemma thread_upd_pipe [simp]: "thread i X (upd_pipe p h s) = thread i X s"
proof -
  have "holds X (upd_pipe p h s) = holds X s" by (rule holds_ctl) (simp add: lock_ctl_def upd_pipe_def)
  then show ?thesis by (simp add: thread_def) (simp add: upd_pipe_def)
qed

lemma holds_files: "holds X (s\<lparr>pipes := ps\<rparr>) = holds X s"
  by (rule holds_ctl) (simp add: lock_ctl_def)

lemma user_byte_frames [simp]:
  "user_byte i (acquired l s) va = user_byte i s va" "user_byte i (released l s) va = user_byte i s va"
  "i < length (ptable s) \<Longrightarrow> user_byte i (woken_up ch s) va = user_byte i s va"
  "user_byte i (upd_mycpu f s) va = user_byte i s va"
  "user_byte i (upd_me (\<lambda>p. p\<lparr>chan := x\<rparr>) s) va = user_byte i s va"
  "user_byte i (asleep ch l s) va = user_byte i s va"
  "user_byte i (upd_pipe p h t) va = user_byte i t va"
  by (simp_all add: user_byte_def) (simp_all add: upd_me_def upd_proc_def asleep_def)

lemma awake_frames [simp]:
  "pipes (awake ch lk e s) = pipes (e (asleep ch lk s))"
  "user_byte i (awake ch lk e s) va = user_byte i (e (asleep ch lk s)) va"
  by (simp_all add: awake_def)

section \<open>\<open>pipewrite\<close>\<close>

text \<open>
  What other threads may do while process \<open>i\<close> sleeps in \<open>pipewrite\<close>: take bytes out of the pipe at the front.
  They do not change the bytes the caller has still to write, and the caller is chosen again in its own
  thread.
\<close>

definition drains :: "nat \<Rightarrow> uint \<Rightarrow> uint \<Rightarrow> nat \<Rightarrow> ('z files_scheme \<Rightarrow> 'z files_scheme) \<Rightarrow> bool" where
  "drains i p addr n e \<longleftrightarrow> (\<forall>u. thread i {PtableLock} u \<and> pipe_ok (pipes u p) \<longrightarrow>
     thread i {PtableLock} (e u) \<and> pipe_ok (pipes (e u) p)
     \<and> suffix (pipe_bytes (pipes (e u) p)) (pipe_bytes (pipes u p))
     \<and> (\<forall>j < n. user_byte i (e u) (addr + of_nat j) = user_byte i u (addr + of_nat j)))"

text \<open>
  The outcomes of \<open>pipewrite\<close> on the bytes \<open>bs\<close> when the pipe held \<open>old\<close>: all bytes are written; the pipe is
  full and the call gives up, because the reading end is closed or the caller has been killed; or the
  caller is asleep on a full pipe. In each case the pipe holds what is left, at its end, of the
  stream of the old bytes and the bytes written so far.
\<close>

definition some_written :: "uchar list \<Rightarrow> uchar list \<Rightarrow> uchar list \<Rightarrow> bool" where
  "some_written old bs xs \<longleftrightarrow> (\<exists>j < length bs. suffix xs (old @ take j bs))"

definition written :: "nat \<Rightarrow> uint \<Rightarrow> uchar list \<Rightarrow> uchar list \<Rightarrow> ('z files_scheme, int) kres \<Rightarrow> bool" where
  "written i p old bs r = (case r of
      Ok v t \<Rightarrow> thread i {} t \<and> pipe_ok (pipes t p) \<and>
        (v = int (length bs) \<and> suffix (pipe_bytes (pipes t p)) (old @ bs)
         \<or> v = - 1 \<and> (readopen (pipes t p) = 0 \<or> killed (ptable t ! i) \<noteq> 0) \<and> pipe_full (pipes t p)
           \<and> some_written old bs (pipe_bytes (pipes t p)))
    | Blocked t \<Rightarrow> state (ptable t ! i) = SLEEPING \<and> chan (ptable t ! i) = Some (Ch_nwrite p) \<and> pipe_full (pipes t p)
        \<and> some_written old bs (pipe_bytes (pipes t p))
    | Panic _ \<Rightarrow> False)"

lemma killed_wake [simp]: "killed (wake ch p) = killed p"
  by (simp add: wake_def)

lemma pipewrite_full:
  assumes "thread i {PipeLock p} s" "pipe_full (pipes s p)" "k < length bs" "suffix (pipe_bytes (pipes s p)) (old @ take k bs)"
    "pipe_ok (pipes s p)"
  shows "readopen (pipes s p) = 0 \<or> killed (ptable s ! i) \<noteq> 0 \<Longrightarrow>
      written i p old bs (pipewrite_loop envs p addr (int k) (int (length bs)) s)"
    "\<not> (readopen (pipes s p) = 0 \<or> killed (ptable s ! i) \<noteq> 0) \<Longrightarrow>
      written i p old bs (pipewrite_loop [] p addr (int k) (int (length bs)) s)"
    "\<not> (readopen (pipes s p) = 0 \<or> killed (ptable s ! i) \<noteq> 0) \<Longrightarrow>
      thread i {PtableLock} (e (asleep (Ch_nwrite p) (PipeLock p) (woken_up (Ch_nread p) s))) \<Longrightarrow>
      pipewrite_loop (e # es) p addr (int k) (int (length bs)) s =
        pipewrite_loop es p addr (int k) (int (length bs)) (awake (Ch_nwrite p) (PipeLock p) e (woken_up (Ch_nread p) s))
      \<and> thread i {PipeLock p} (awake (Ch_nwrite p) (PipeLock p) e (woken_up (Ch_nread p) s))"
proof -
  have me: "curproc s = ptable s ! i" using thread_me [OF assms(1)] by (simp add: curproc_def)
  have r: "thread i {} (released (PipeLock p) s)" using thread_released [OF assms(1), of "PipeLock p"] by simp
  have w: "thread i {PipeLock p} (woken_up (Ch_nread p) s)" using thread_woken [OF assms(1)] by simp
  have full: "nwrite (pipes s p) = nread (pipes s p) + PIPESIZE" using assms(2) by (simp add: pipe_full_def)
  have some: "some_written old bs (pipe_bytes (pipes s p))" using assms(3,4) by (auto simp: some_written_def)
  show "readopen (pipes s p) = 0 \<or> killed (ptable s ! i) \<noteq> 0 \<Longrightarrow>
      written i p old bs (pipewrite_loop envs p addr (int k) (int (length bs)) s)"
    using assms(3) by (subst pipewrite_loop.simps)
      (auto simp: kbind_apply full me thread_release [OF assms(1)] written_def r some assms(2,5))
  show "\<not> (readopen (pipes s p) = 0 \<or> killed (ptable s ! i) \<noteq> 0) \<Longrightarrow>
      written i p old bs (pipewrite_loop [] p addr (int k) (int (length bs)) s)"
    using asleep_thread(2) [OF w, of "Ch_nwrite p"] assms(3)
    by (subst pipewrite_loop.simps)
      (simp add: kbind_apply full me thread_wakeup [OF assms(1)] written_def some assms(2) sleep_forever_thread [OF w])
  assume open_pipe: "\<not> (readopen (pipes s p) = 0 \<or> killed (ptable s ! i) \<noteq> 0)"
  assume t: "thread i {PtableLock} (e (asleep (Ch_nwrite p) (PipeLock p) (woken_up (Ch_nread p) s)))"
  show "pipewrite_loop (e # es) p addr (int k) (int (length bs)) s =
        pipewrite_loop es p addr (int k) (int (length bs)) (awake (Ch_nwrite p) (PipeLock p) e (woken_up (Ch_nread p) s))
      \<and> thread i {PipeLock p} (awake (Ch_nwrite p) (PipeLock p) e (woken_up (Ch_nread p) s))"
    using sleep_thread [where e = e, OF w _ t] open_pipe assms(3)
    by (subst pipewrite_loop.simps) (simp add: kbind_apply full me thread_wakeup [OF assms(1)])
qed

lemma suffix_snoc: "suffix xs (ys @ take k bs) \<Longrightarrow> k < length bs \<Longrightarrow> suffix (xs @ [bs ! k]) (ys @ take (Suc k) bs)"
  by (auto simp: suffix_def take_Suc_conv_app_nth)

lemma pipewrite_loop_written:
  assumes "thread i {PipeLock p} s" "pipe_ok (pipes s p)" "\<forall>e \<in> set envs. drains i p addr (length bs) e"
    "\<forall>j < length bs. user_byte i s (addr + of_nat j) = Some (bs ! j)"
    "k \<le> length bs" "suffix (pipe_bytes (pipes s p)) (old @ take k bs)"
  shows "written i p old bs (pipewrite_loop envs p addr (int k) (int (length bs)) s)"
  using assms
proof (induction "length envs + (length bs - k)" arbitrary: envs k s rule: less_induct)
  case less
  note th = less.prems(1) and ok = less.prems(2)
  have i: "i < length (ptable s)" using th by (simp add: thread_def)
  consider (finished) "k = length bs" | (full) "k < length bs" "pipe_full (pipes s p)" | (room) "k < length bs" "\<not> pipe_full (pipes s p)"
    using less.prems(5) by linarith
  then show ?case
  proof cases
    case finished
    have w: "thread i {PipeLock p} (woken_up (Ch_nread p) s)" using thread_woken [OF th] by simp
    have "thread i {} (released (PipeLock p) (woken_up (Ch_nread p) s))" using thread_released [OF w, of "PipeLock p"] by simp
    then show ?thesis using less.prems(6) ok finished
      by (subst pipewrite_loop.simps) (simp add: kbind_apply thread_wakeup [OF th] thread_release [OF w] written_def)
  next
    case full
    note give_up = pipewrite_full [OF th full(2,1) less.prems(6) ok]
    show ?thesis
    proof (cases "(readopen (pipes s p) = 0 \<or> killed (ptable s ! i) \<noteq> 0) \<or> envs = []")
      case True
      then show ?thesis using give_up(1,2) by blast
    next
      case False
      then obtain e es where es: "envs = e # es" by (cases envs) auto
      define u where "u = asleep (Ch_nwrite p) (PipeLock p) (woken_up (Ch_nread p) s)"
      have u: "thread i {PtableLock} u" using asleep_thread(1) [OF thread_woken [OF th]] by (simp add: u_def)
      have pu: "pipe_ok (pipes u p)" using ok by (simp add: u_def)
      have d: "drains i p addr (length bs) e" using less.prems(3) es by simp
      have e: "thread i {PtableLock} (e u)" "pipe_ok (pipes (e u) p)" "suffix (pipe_bytes (pipes (e u) p)) (pipe_bytes (pipes u p))"
        "\<forall>j < length bs. user_byte i (e u) (addr + of_nat j) = user_byte i u (addr + of_nat j)"
        using d u pu unfolding drains_def by blast+
      note go = give_up(3) [where e = e and es = es and addr = addr, folded u_def, OF _ e(1)]
      let ?t = "awake (Ch_nwrite p) (PipeLock p) e (woken_up (Ch_nread p) s)"
      have "written i p old bs (pipewrite_loop es p addr (int k) (int (length bs)) ?t)"
      proof (rule less.hyps)
        show "suffix (pipe_bytes (pipes ?t p)) (old @ take k bs)"
          using suffix_order.trans [OF e(3), of "old @ take k bs"] less.prems(6) by (simp add: u_def)
      qed (use es go False e(2,4) less.prems i in \<open>auto simp: u_def\<close>)
      then show ?thesis using go False es by simp
    qed
  next
    case room
    let ?t = "upd_pipe p (pipe_put (bs ! k)) s"
    have "pipewrite_loop envs p addr (int k) (int (length bs)) s = pipewrite_loop envs p addr (int (Suc k)) (int (length bs)) ?t"
      using room vget_user [OF th, of "addr + of_nat k" "bs ! k"] less.prems(4)
      by (subst pipewrite_loop.simps) (simp add: pipe_full_def kbind_apply add.commute)
    moreover have "written i p old bs (pipewrite_loop envs p addr (int (Suc k)) (int (length bs)) ?t)"
    proof (rule less.hyps)
      show "suffix (pipe_bytes (pipes ?t p)) (old @ take (Suc k) bs)"
        using suffix_snoc [OF less.prems(6) room(1)] pq.put_contents [OF ok room(2)] by simp
    qed (use room ok th less.prems pq.put_ok in auto)
    ultimately show ?thesis by simp
  qed
qed

text \<open>
  C11: A pipe carries a stream of bytes. \<open>pipewrite\<close> puts the bytes of the caller behind those already in
  the pipe, each once and in order, also when the pipe fills up in between and it has to sleep while
  other threads take bytes out. It never panics. It returns the number of bytes after writing all of
  them; it returns -1 only if the pipe is full and the reading end is closed or the caller was
  killed; otherwise it is asleep on a full pipe. What is in the pipe is always the end of the stream.
\<close>

theorem pipewrite_stream:
  fixes s :: "'z files_scheme"
  assumes "thread i {} s" "pipe_ok (pipes s p)" "\<forall>e \<in> set envs. drains i p addr (length bs) e"
    "\<forall>j < length bs. user_byte i s (addr + of_nat j) = Some (bs ! j)"
  shows "written i p (pipe_bytes (pipes s p)) bs (pipewrite envs p addr (int (length bs)) s)"
proof -
  have a: "thread i {PipeLock p} (acquired (PipeLock p) s)" using thread_acquired [OF assms(1), of "PipeLock p"] by simp
  have "written i p (pipe_bytes (pipes s p)) bs (pipewrite_loop envs p addr (int 0) (int (length bs)) (acquired (PipeLock p) s))"
    using assms a by (intro pipewrite_loop_written) simp_all
  then show ?thesis by (simp add: pipewrite_def kbind_apply thread_acquire [OF assms(1)])
qed

text \<open>A reader that empties the pipe.\<close>

definition empty_pipe :: "uint \<Rightarrow> files \<Rightarrow> files" where
  "empty_pipe p = upd_pipe p (\<lambda>q. q\<lparr>nread := nwrite q\<rparr>)"

lemma empty_pipe_drains: "drains i p addr n (empty_pipe p)"
  unfolding drains_def empty_pipe_def by (simp add: pipe_ok_def pipe_bytes_def)

theorem pipewrite_stream_witness:
  "written 0 0x80200000 [] (replicate 1000 7)
     (pipewrite [empty_pipe 0x80200000] 0x80200000 0x80400000 1000 (boot_files\<lparr>mem := (\<lambda>_. 7)\<rparr>))"
proof -
  let ?s = "boot_files\<lparr>mem := (\<lambda>_. 7)\<rparr>"
  have h: "thread 0 {} ?s" using boot_thread(1) by (simp add: thread_def)
  have "\<forall>j < length (replicate 1000 (7 :: uchar)). user_byte 0 ?s (0x80400000 + of_nat j) = Some (replicate 1000 7 ! j)"
  proof (intro allI impI)
    fix j assume "j < length (replicate 1000 (7 :: uchar))"
    then have j: "j < 1000" by simp
    have "(0x80400000 :: uint) \<le> 0x80400000 + of_nat j"
      using j by (simp add: word_le_nat_alt unat_word_ariths unat_of_nat)
    then have "KERNBASE \<le> 0x80400000 + of_nat j" by (rule order_trans [rotated]) (simp add: KERNBASE_def)
    then show "user_byte 0 ?s (0x80400000 + of_nat j) = Some (replicate 1000 7 ! j)" using j by (simp add: user_byte_def)
  qed
  from pipewrite_stream [OF h _ _ this, of "0x80200000" "[empty_pipe 0x80200000]"] empty_pipe_drains [of 0 "0x80200000"]
  show ?thesis by (simp add: pipe_ok_def PIPESIZE_def pipe_bytes_def)
qed

section \<open>\<open>piperead\<close>\<close>

text \<open>
  A buffer of the running process that can be written: its bytes are at the distinct physical places \<open>f 0\<close>,
  \<open>f 1\<close>, and so on, and stay there when the buffer is filled, since it does not overlap the page table.
\<close>

definition out_buffer :: "mem \<Rightarrow> uint \<Rightarrow> uint \<Rightarrow> nat \<Rightarrow> (nat \<Rightarrow> uint) \<Rightarrow> bool" where
  "out_buffer m d addr n f \<longleftrightarrow> inj_on f {..<n} \<and>
     (\<forall>m'. (\<forall>x. x \<notin> f ` {..<n} \<longrightarrow> m' x = m x) \<longrightarrow>
        (\<forall>j < n. (if addr + of_nat j \<ge> KERNBASE then Some (addr + of_nat j) else vtrans m' d True (addr + of_nat j)) = Some (f j)))"

text \<open>The memory after storing bytes at \<open>f k\<close>, \<open>f (k + 1)\<close>, and so on.\<close>

primrec store_at :: "(nat \<Rightarrow> uint) \<Rightarrow> nat \<Rightarrow> uchar list \<Rightarrow> mem \<Rightarrow> mem" where
  "store_at f k [] m = m"
| "store_at f k (c # cs) m = store_at f (Suc k) cs (m(f k := c))"

lemma store_at_other: "x \<notin> f ` {k..<k + length cs} \<Longrightarrow> store_at f k cs m x = m x"
proof (induction cs arbitrary: k m)
  case (Cons c cs)
  then have "x \<notin> f ` {Suc k..<Suc k + length cs}" "x \<noteq> f k" by auto
  then show ?case using Cons.IH by simp
qed simp

lemma store_at_in:
  "inj_on f {..<n} \<Longrightarrow> k + length cs \<le> n \<Longrightarrow> j < length cs \<Longrightarrow> store_at f k cs m (f (k + j)) = cs ! j"
proof (induction cs arbitrary: k m j)
  case (Cons c cs)
  show ?case
  proof (cases j)
    case 0
    have "f k \<notin> f ` {Suc k..<Suc k + length cs}"
      using inj_onD [OF Cons.prems(1), of k] Cons.prems(2) by force
    then show ?thesis using 0 store_at_other [of "f k" f "Suc k" cs "m(f k := c)"] by simp
  next
    case (Suc j')
    then show ?thesis using Cons.IH [of "Suc k" j'] Cons.prems by simp
  qed
qed simp

lemma vput_user:
  assumes "thread i X s" "out_buffer m d addr n f" "pgdir (ptable s ! i) = d" "\<forall>x. x \<notin> f ` {..<n} \<longrightarrow> mem s x = m x" "k < n"
  shows "vput (addr + of_nat k) c s = Ok () (s\<lparr>mem := (mem s)(f k := c)\<rparr>)"
proof -
  have "(if addr + of_nat k \<ge> KERNBASE then Some (addr + of_nat k) else vtrans (mem s) d True (addr + of_nat k)) = Some (f k)"
    using assms(2,4,5) unfolding out_buffer_def by blast
  then have "vaddr True (addr + of_nat k) s = Ok (f k) s"
    using thread_me [OF assms(1)] assms(3) by (auto simp: vaddr_def curproc_def split: if_splits)
  then show ?thesis by (simp add: vput_def)
qed

lemma piperead_copy_eq:
  assumes "thread i X s" "out_buffer m d addr n f" "pgdir (ptable s ! i) = d" "\<forall>x. x \<notin> f ` {..<n} \<longrightarrow> mem s x = m x" "k \<le> n"
  shows "piperead_copy p addr (int k) (int n) s =
    (let (got, q) = pq.take_all (n - k) (pipes s p) in
     Ok (int (k + length got)) (s\<lparr>pipes := (pipes s)(p := q), mem := store_at f k got (mem s)\<rparr>))"
  using assms
proof (induction "n - k" arbitrary: k s)
  case 0
  then show ?case by (subst piperead_copy.simps) simp
next
  case (Suc r)
  then have k: "k < n" and r: "n - k = Suc r" "r = n - Suc k" by auto
  show ?case
  proof (cases "pipe_empty (pipes s p)")
    case True
    then show ?thesis using k r by (subst piperead_copy.simps) (simp add: pipe_empty_def)
  next
    case False
    let ?c = "pipe_top (pipes s p)"
    let ?t = "s\<lparr>pipes := (pipes s)(p := pipe_drop (pipes s p)), mem := (mem s)(f k := ?c)\<rparr>"
    have th: "thread i X (upd_pipe p pipe_drop s)" using Suc.prems(1) by simp
    have v: "vput (addr + of_nat k) ?c (upd_pipe p pipe_drop s) = Ok () ?t"
      using vput_user [OF th Suc.prems(2) _ _ k, of ?c] Suc.prems(3,4) by (simp add: upd_pipe_def)
    have tt: "thread i X ?t" using th by (simp add: thread_def upd_pipe_def)
    have "piperead_copy p addr (int k) (int n) s = piperead_copy p addr (int (Suc k)) (int n) ?t"
      using k False v by (subst piperead_copy.simps) (simp add: pipe_empty_def kbind_apply add.commute)
    also have "\<dots> = (let (got, q) = pq.take_all (n - Suc k) (pipes ?t p) in
       Ok (int (Suc k + length got)) (?t\<lparr>pipes := (pipes ?t)(p := q), mem := store_at f (Suc k) got (mem ?t)\<rparr>))"
      using Suc.prems k by (intro Suc.hyps(1) [OF r(2) tt Suc.prems(2)]) auto
    also have "\<dots> = (let (got, q) = pq.take_all (n - k) (pipes s p) in
       Ok (int (k + length got)) (s\<lparr>pipes := (pipes s)(p := q), mem := store_at f k got (mem s)\<rparr>))"
      using False unfolding r(1) by (simp add: r(2) [symmetric] Let_def split: prod.split)
    finally show ?thesis .
  qed
qed

lemma piperead_takes:
  fixes s :: "'z files_scheme"
  assumes "thread i {} s" "pipe_ok (pipes s p)" "out_buffer (mem s) (pgdir (ptable s ! i)) addr n f"
    "pipe_bytes (pipes s p) \<noteq> [] \<or> writeopen (pipes s p) = 0"
  shows "\<exists>t. piperead envs p addr (int n) s = Ok (int (min n (length (pipe_bytes (pipes s p))))) t
    \<and> thread i {} t \<and> pipe_ok (pipes t p) \<and> pipe_bytes (pipes t p) = drop n (pipe_bytes (pipes s p))
    \<and> (\<forall>j < min n (length (pipe_bytes (pipes s p))). mem t (f j) = pipe_bytes (pipes s p) ! j)
    \<and> (\<forall>x. x \<notin> f ` {..<min n (length (pipe_bytes (pipes s p)))} \<longrightarrow> mem t x = mem s x)"
proof -
  define a where "a = acquired (PipeLock p) s"
  have a: "thread i {PipeLock p} a" using thread_acquired [OF assms(1), of "PipeLock p"] by (simp add: a_def)
  obtain got q where gq: "pq.take_all n (pipes s p) = (got, q)" by fastforce
  have got: "got = take n (pipe_bytes (pipes s p))" "pipe_ok q" "pipe_bytes q = drop n (pipe_bytes (pipes s p))"
    using pq.take_all_spec [OF assms(2), of n] gq by simp_all
  define c where "c = a\<lparr>pipes := (pipes a)(p := q), mem := store_at f 0 got (mem a)\<rparr>"
  have c: "thread i {PipeLock p} c" using a by (simp add: c_def thread_def holds_files)
  have w: "thread i {PipeLock p} (woken_up (Ch_nwrite p) c)" using thread_woken [OF c] by simp
  define t where "t = released (PipeLock p) (woken_up (Ch_nwrite p) c)"
  have t: "thread i {} t" using thread_released [OF w, of "PipeLock p"] by (simp add: t_def)
  have wait: "piperead_wait envs p a = Ok True a"
    using assms(4) pq.emp_iff [OF assms(2)] by (subst piperead_wait.simps) (auto simp: a_def pipe_empty_def)
  have copy: "piperead_copy p addr 0 (int n) a = Ok (int (length got)) c"
    using piperead_copy_eq [OF a, of "mem s" "pgdir (ptable s ! i)" addr n f 0 p] assms(3) gq by (simp add: a_def c_def)
  have "piperead envs p addr (int n) s = Ok (int (length got)) t"
    by (simp add: piperead_def kbind_apply thread_acquire [OF assms(1)] wait copy a_def [symmetric] thread_wakeup [OF c]
        thread_release [OF w] t_def)
  moreover have "mem t = store_at f 0 got (mem s)" "pipes t p = q" by (simp_all add: t_def c_def a_def)
  moreover have "inj_on f {..<n}" using assms(3) by (simp add: out_buffer_def)
  ultimately show ?thesis
    using t got store_at_in [of f n 0 got _ "mem s"] store_at_other [of _ f 0 got "mem s"]
    by (intro exI [of _ t]) (auto simp: atLeast0LessThan min.commute)
qed

text \<open>
  C18: \<open>piperead\<close> on a pipe with data, or whose writing end is closed, takes the oldest bytes out of the
  pipe, as many as there are up to \<open>n\<close>, stores them in order in the caller's buffer, returns their
  number (0 at the end of the stream) and touches no other byte of memory.
\<close>

theorem piperead_front:
  fixes s :: "'z files_scheme"
  assumes "thread i {} s" "pipe_ok (pipes s p)" "out_buffer (mem s) (pgdir (ptable s ! i)) addr n f"
    "pipe_bytes (pipes s p) \<noteq> [] \<or> writeopen (pipes s p) = 0"
  shows "\<exists>t. piperead envs p addr (int n) s = Ok (int (min n (length (pipe_bytes (pipes s p))))) t
    \<and> thread i {} t \<and> pipe_ok (pipes t p) \<and> pipe_bytes (pipes t p) = drop n (pipe_bytes (pipes s p))
    \<and> (\<forall>j < min n (length (pipe_bytes (pipes s p))). mem t (f j) = pipe_bytes (pipes s p) ! j)
    \<and> (\<forall>x. x \<notin> f ` {..<min n (length (pipe_bytes (pipes s p)))} \<longrightarrow> mem t x = mem s x)"
  using assms by (rule piperead_takes)

lemma kernel_addr: "KERNBASE \<le> addr \<Longrightarrow> unat addr + n < 2 ^ 32 \<Longrightarrow> j \<le> n \<Longrightarrow> unat (addr + of_nat j) = unat addr + j \<and> KERNBASE \<le> addr + of_nat j"
  by (simp add: word_le_nat_alt unat_word_ariths unat_of_nat)

lemma kernel_buffer:
  assumes "KERNBASE \<le> addr" "unat addr + n < 2 ^ 32"
  shows "out_buffer m d addr n (\<lambda>j. addr + of_nat j)"
proof -
  have "inj_on (\<lambda>j. addr + of_nat j) {..<n}"
    using kernel_addr [OF assms] by (intro inj_onI) (metis add_left_cancel lessThan_iff less_imp_le)
  then show ?thesis using kernel_addr [OF assms] by (simp add: out_buffer_def)
qed

theorem piperead_front_witness:
  "\<exists>t. piperead [] 0x80200000 0x80400000 3
      (upd_pipe 0x80200000 (\<lambda>q. q\<lparr>pdata := [1, 2] @ replicate 510 0, nwrite := 2\<rparr>) boot_files) = Ok 2 t
    \<and> mem t 0x80400001 = 2 \<and> pipe_bytes (pipes t 0x80200000) = []"
proof -
  let ?s = "upd_pipe 0x80200000 (\<lambda>q. q\<lparr>pdata := [1, 2] @ replicate 510 0, nwrite := 2\<rparr>) boot_files"
  have q: "pipe_ok (pipes ?s 0x80200000)" "pipe_bytes (pipes ?s 0x80200000) = [1, 2]"
    by (simp_all add: pipe_ok_def PIPESIZE_def pipe_bytes_def window_def upt_rec)
  have "out_buffer (mem ?s) (pgdir (ptable ?s ! 0)) 0x80400000 3 (\<lambda>j. 0x80400000 + of_nat j)"
    by (rule kernel_buffer) (simp_all add: KERNBASE_def)
  from piperead_front [OF _ q(1) this, of "[]"] q(2) show ?thesis by (auto dest!: spec [of _ "Suc 0"])
qed

section \<open>Writing and reading back\<close>

lemma pipewrite_loop_room:
  assumes "thread i {PipeLock p} s" "pipe_ok (pipes s p)" "\<forall>j < length bs. user_byte i s (addr + of_nat j) = Some (bs ! j)"
    "k \<le> length bs" "length (pipe_bytes (pipes s p)) + (length bs - k) \<le> unat PIPESIZE"
  shows "pipewrite_loop envs p addr (int k) (int (length bs)) s =
    Ok (int (length bs)) (released (PipeLock p) (woken_up (Ch_nread p) (upd_pipe p (fold pipe_put (drop k bs)) s)))"
  using assms
proof (induction "length bs - k" arbitrary: k s)
  case 0
  have w: "thread i {PipeLock p} (woken_up (Ch_nread p) s)" using thread_woken [OF 0(2)] by simp
  have "upd_pipe p (\<lambda>q. q) s = s" by (simp add: upd_pipe_def)
  then show ?case using 0 thread_wakeup [OF 0(2)] thread_release [OF w]
    by (subst pipewrite_loop.simps) (simp add: kbind_apply id_def)
next
  case (Suc r)
  then have k: "k < length bs" and r: "r = length bs - Suc k" by auto
  have nf: "\<not> pipe_full (pipes s p)" using Suc.prems(2,5) k pq.full_iff by simp
  let ?t = "upd_pipe p (pipe_put (bs ! k)) s"
  have "pipewrite_loop envs p addr (int k) (int (length bs)) s = pipewrite_loop envs p addr (int (Suc k)) (int (length bs)) ?t"
    using k nf vget_user [OF Suc.prems(1), of "addr + of_nat k" "bs ! k"] Suc.prems(3)
    by (subst pipewrite_loop.simps) (simp add: pipe_full_def kbind_apply add.commute)
  also have "\<dots> = Ok (int (length bs)) (released (PipeLock p) (woken_up (Ch_nread p) (upd_pipe p (fold pipe_put (drop (Suc k) bs)) ?t)))"
    using Suc.prems k nf pq.put_ok [OF Suc.prems(2) nf] pq.put_contents [OF Suc.prems(2) nf] by (intro Suc.hyps(1) [OF r]) auto
  also have "upd_pipe p (fold pipe_put (drop (Suc k) bs)) ?t = upd_pipe p (fold pipe_put (drop k bs)) s"
    using Cons_nth_drop_Suc [OF k] by (simp add: upd_pipe_def) (metis fold_simps(2))
  finally show ?case .
qed

text \<open>
  C19: What is written to an empty pipe is read back: after a \<open>pipewrite\<close> of at most \<open>PIPESIZE\<close> bytes a
  \<open>piperead\<close> of that many bytes returns all of them, in order, and leaves the pipe empty.
\<close>

theorem pipe_roundtrip:
  fixes s :: "'z files_scheme"
  assumes "thread i {} s" "pipe_ok (pipes s p)" "pipe_bytes (pipes s p) = []"
    "bs \<noteq> []" "length bs \<le> unat PIPESIZE" "\<forall>j < length bs. user_byte i s (src + of_nat j) = Some (bs ! j)"
    "out_buffer (mem s) (pgdir (ptable s ! i)) dst (length bs) f"
  shows "\<exists>t. kbind (pipewrite [] p src (int (length bs))) (\<lambda>_. piperead [] p dst (int (length bs))) s = Ok (int (length bs)) t
    \<and> pipe_bytes (pipes t p) = [] \<and> (\<forall>j < length bs. mem t (f j) = bs ! j)"
proof -
  let ?a = "acquired (PipeLock p) s" and ?q = "fold pipe_put bs (pipes s p)"
  define u where "u = released (PipeLock p) (woken_up (Ch_nread p) (upd_pipe p (fold pipe_put bs) ?a))"
  have a: "thread i {PipeLock p} ?a" using thread_acquired [OF assms(1), of "PipeLock p"] by simp
  have w: "thread i {PipeLock p} (woken_up (Ch_nread p) (upd_pipe p (fold pipe_put bs) ?a))" using a by (intro thread_woken) simp_all
  have u: "thread i {} u" using thread_released [OF w, of "PipeLock p"] by (simp add: u_def)
  have written_all: "pipewrite [] p src (int (length bs)) s = Ok (int (length bs)) u"
    using pipewrite_loop_room [OF a, of bs src 0 "[]"] assms(2,3,5,6)
    by (simp add: pipewrite_def kbind_apply thread_acquire [OF assms(1)] u_def)
  have q: "pipe_ok ?q" "pipe_bytes ?q = bs" using pq.put_list [OF assms(2), of bs] assms(3,5) by simp_all
  have "i < length (ptable s)" using assms(1) by (simp add: thread_def)
  then have v: "pipes u p = ?q" "mem u = mem s" "pgdir (ptable u ! i) = pgdir (ptable s ! i)" by (simp_all add: u_def)
  from piperead_takes [OF u, of p dst "length bs" f "[]"] q v assms(4,7) written_all show ?thesis by (auto simp: kbind_apply)
qed

theorem pipe_roundtrip_witness:
  "\<exists>t. kbind (pipewrite [] 0x80200000 0x80400000 300) (\<lambda>_. piperead [] 0x80200000 0x80500000 300)
      (boot_files\<lparr>mem := (\<lambda>_. 0)(0x80400000 := 9)\<rparr>) = Ok 300 t \<and> mem t 0x80500000 = 9"
proof -
  let ?s = "boot_files\<lparr>mem := (\<lambda>_. 0)(0x80400000 := 9)\<rparr>" and ?bs = "9 # replicate 299 (0 :: uchar)"
  have h: "thread 0 {} ?s" using boot_thread(1) by (simp add: thread_def)
  have a: "unat (0x80400000 + of_nat j :: uint) = 0x80400000 + j \<and> KERNBASE \<le> 0x80400000 + of_nat j" if "j < 300" for j
    using kernel_addr [of "0x80400000" 300 j] that by (simp add: KERNBASE_def)
  have src: "\<forall>j < length ?bs. user_byte 0 ?s (0x80400000 + of_nat j) = Some (?bs ! j)"
  proof (intro allI impI)
    fix j assume "j < length ?bs"
    then have j: "j < 300" by simp
    have "(0x80400000 + of_nat j = (0x80400000 :: uint)) \<longleftrightarrow> j = 0" using a [OF j] by (auto simp: word_unat_eq_iff)
    then show "user_byte 0 ?s (0x80400000 + of_nat j) = Some (?bs ! j)"
      using a [OF j] j by (cases j) (auto simp: user_byte_def)
  qed
  have dst: "out_buffer (mem ?s) (pgdir (ptable ?s ! 0)) 0x80500000 (length ?bs) (\<lambda>j. 0x80500000 + of_nat j)"
    by (rule kernel_buffer) (simp_all add: KERNBASE_def)
  have q: "pipe_ok (pipes ?s 0x80200000)" "pipe_bytes (pipes ?s 0x80200000) = []"
    by (simp_all add: pipe_ok_def PIPESIZE_def pipe_bytes_def)
  obtain t where "kbind (pipewrite [] 0x80200000 0x80400000 (int (length ?bs)))
      (\<lambda>_. piperead [] 0x80200000 0x80500000 (int (length ?bs))) ?s = Ok (int (length ?bs)) t"
    "\<forall>j < length ?bs. mem t (0x80500000 + of_nat j) = ?bs ! j"
    using pipe_roundtrip [OF h q _ _ src dst] by (auto simp: PIPESIZE_def)
  then show ?thesis by (auto dest: spec [of _ 0])
qed

end
