(* ===== verification/Consline.thy ===== *)
theory Consline
  imports Ring Bootstate
begin

text \<open>
  The line discipline of the console. The input buffer with its three counters stands for two
  sequences: the bytes that programs may read (\<open>input.r\<close> to \<open>input.w\<close>) and the line being edited
  (\<open>input.w\<close> to \<open>input.e\<close>). \<open>consoleintr\<close> works on these as a line editor and never panics, and
  \<open>consoleread\<close> hands out a line at a time.
\<close>

section \<open>Output never fails\<close>

definition screen_ok :: "'z cons_scheme \<Rightarrow> bool" where
  "screen_ok s \<longleftrightarrow> 0 \<le> crtpos s \<and> crtpos s < 24 * 80 \<and> \<not> panicked s"

definition input_of :: "'z cons_scheme \<Rightarrow> uchar list \<times> uint \<times> uint \<times> uint" where
  "input_of s = (in_buf s, in_r s, in_w s, in_e s)"

text \<open>
  A statement that only prints: it returns, keeps the cursor on the screen and leaves the input buffer
  and the locks as they were.
\<close>

definition prints :: "lockid set \<Rightarrow> ('z cons_scheme, unit) kern \<Rightarrow> bool" where
  "prints X m \<longleftrightarrow> (\<forall>s. screen_ok s \<and> holds X s \<longrightarrow>
     (\<exists>t. m s = Ok () t \<and> screen_ok t \<and> holds X t \<and> input_of t = input_of s))"

lemma printsD: "prints X m \<Longrightarrow> screen_ok s \<Longrightarrow> holds X s \<Longrightarrow>
    \<exists>t. m s = Ok () t \<and> screen_ok t \<and> holds X t \<and> input_of t = input_of s"
  by (simp add: prints_def)

lemma prints_ret [simp]: "prints X (kret ())"
  by (simp add: prints_def)

lemma prints_bind [simp]:
  assumes "prints X m" "prints X n"
  shows "prints X (kbind m (\<lambda>_. n))"
  unfolding prints_def
proof (intro allI impI)
  fix s :: "'a cons_scheme"
  assume "screen_ok s \<and> holds X s"
  then obtain t where t: "m s = Ok () t" "screen_ok t" "holds X t" "input_of t = input_of s"
    using printsD [OF assms(1)] by blast
  with printsD [OF assms(2) t(2,3)] show "\<exists>t. kbind m (\<lambda>_. n) s = Ok () t \<and> screen_ok t \<and> holds X t \<and> input_of t = input_of s"
    by auto
qed

lemma prints_bind_ret [simp]: "prints X m \<Longrightarrow> prints X (kbind m kret)"
  using prints_bind [of X m "kret ()"] by simp

lemma prints_seq: "\<forall>m \<in> set ms. prints X m \<Longrightarrow> prints X (kseq ms (kret ()))"
  by (induction ms) simp_all

lemma prints_for: "(\<And>x. prints X (b x)) \<Longrightarrow> prints X (kfor xs b)"
  by (induction xs) simp_all

lemma prints_for_state: "(\<And>x. prints X (b x)) \<Longrightarrow> prints X (\<lambda>s. kfor (f s) b s)"
  by (subst prints_def, intro allI impI, elim conjE) (rule printsD [OF prints_for])

lemma prints_kif: "prints X m \<Longrightarrow> prints X (kif c m)"
  by (auto simp: prints_def)

lemma holds_cons: "holds X (s\<lparr>crt := a, crtpos := b\<rparr>) = holds X s" "holds X (s\<lparr>crt := a\<rparr>) = holds X s" "holds X (s\<lparr>crtpos := b\<rparr>) = holds X s"
  "holds X (s\<lparr>uartout := u\<rparr>) = holds X s"
  by (rule holds_ctl; simp add: lock_ctl_def)+

lemma prints_uartputc [simp]: "prints X (uartputc c)"
  by (auto simp: prints_def uartputc_def screen_ok_def input_of_def holds_cons)

lemma cga_move_bounds: "0 \<le> pos \<Longrightarrow> pos < 24 * 80 \<Longrightarrow> 0 \<le> cga_move c pos \<and> cga_move c pos \<le> 24 * 80 + 79 \<and> (24 \<le> cga_move c pos div 80 \<longrightarrow> 24 * 80 \<le> cga_move c pos) \<and> (\<not> 24 \<le> cga_move c pos div 80 \<longrightarrow> cga_move c pos < 24 * 80)"
  by (auto simp: cga_move_def)

lemma prints_cgaputc [simp]: "prints X (cgaputc c)"
  unfolding prints_def
proof (intro allI impI)
  fix s :: "'a cons_scheme"
  assume s: "screen_ok s \<and> holds X s"
  then have "0 \<le> crtpos s" "crtpos s < 24 * 80" by (auto simp: screen_ok_def)
  note b = cga_move_bounds [OF this, of c]
  then show "\<exists>t. cgaputc c s = Ok () t \<and> screen_ok t \<and> holds X t \<and> input_of t = input_of s"
    using s by (auto simp: cgaputc_def kbind_apply screen_ok_def input_of_def holds_cons)
qed

lemma prints_consputc [simp]: "prints X (consputc c)"
proof -
  have "prints X (kseq [if c = BACKSPACE then kseq [uartputc 8, uartputc 32, uartputc 8] (kret ()) else uartputc c, cgaputc c] (kret ()))"
    by simp
  then show ?thesis unfolding consputc_def prints_def by (simp add: screen_ok_def)
qed

lemma prints_cprintf: "ConsLock \<notin> X \<Longrightarrow> prints X (cprintf str args fmt)"
  unfolding prints_def
proof (intro allI impI)
  fix s :: "'a cons_scheme"
  assume X: "ConsLock \<notin> X" and s: "screen_ok s \<and> holds X s"
  have out: "prints Y (cputs (cprintf_str str args fmt) :: ('a cons_scheme, unit) kern)" for Y
    unfolding cputs_def by (rule prints_for) simp
  show "\<exists>t. cprintf str args fmt s = Ok () t \<and> screen_ok t \<and> holds X t \<and> input_of t = input_of s"
  proof (cases "locking s = 0")
    case True
    then show ?thesis using printsD [OF out] s by (fastforce simp: cprintf_def)
  next
    case False
    have a: "holds (insert ConsLock X) (acquired ConsLock s)" "screen_ok (acquired ConsLock s)" "input_of (acquired ConsLock s) = input_of s"
      using holds_acquired [of X s ConsLock] s X
      by (simp_all add: screen_ok_def input_of_def acquired_def upd_lock_def upd_mycpu_def)
    obtain t where t: "cputs (cprintf_str str args fmt) (acquired ConsLock s) = Ok () t" "screen_ok t"
      "holds (insert ConsLock X) t" "input_of t = input_of s" using printsD [OF out a(2,1)] a(3) by auto
    have r: "release ConsLock t = Ok () (released ConsLock t)" "holds X (released ConsLock t)"
      "screen_ok (released ConsLock t)" "input_of (released ConsLock t) = input_of t"
      using release_holds [OF t(3)] holds_released [OF t(3), of ConsLock] X t(2)
      by (simp_all add: screen_ok_def input_of_def released_def upd_lock_def upd_mycpu_def)
    have "acquire ConsLock s = Ok () (acquired ConsLock s)" using acquire_holds s X by blast
    then show ?thesis using False t r by (simp add: cprintf_def)
  qed
qed

lemma prints_cprintf_state: "ConsLock \<notin> X \<Longrightarrow> prints X (\<lambda>s. cprintf (f s) (g s) fmt s)"
  by (subst prints_def, intro allI impI, elim conjE) (rule printsD [OF prints_cprintf])

lemma prints_procdump_proc: "ConsLock \<notin> X \<Longrightarrow> prints X (procdump_proc i)"
  unfolding procdump_proc_def
  by (rule prints_kif, rule prints_seq) (simp add: prints_kif prints_cprintf prints_cprintf_state prints_for_state)

lemma prints_procdump: "ConsLock \<notin> X \<Longrightarrow> prints X procdump"
  unfolding procdump_def by (rule prints_for_state) (rule prints_procdump_proc)

section \<open>The input buffer as two sequences\<close>

interpretation cr: ring_size INPUT_BUF
  by unfold_locales (simp add: INPUT_BUF_def)

text \<open>The buffer holds \<open>cm\<close> for the readers and then the unfinished line \<open>ed\<close>.\<close>

definition input_rep :: "'z cons_scheme \<Rightarrow> uchar list \<Rightarrow> uchar list \<Rightarrow> bool" where
  "input_rep s cm ed \<longleftrightarrow> length (in_buf s) = unat INPUT_BUF \<and> length cm + length ed \<le> unat INPUT_BUF
     \<and> in_w s = in_r s + of_nat (length cm) \<and> in_e s = in_w s + of_nat (length ed)
     \<and> window INPUT_BUF (in_buf s) (in_r s) (length cm + length ed) = cm @ ed"

lemma input_rep_cong: "input_of t = input_of s \<Longrightarrow> input_rep t cm ed = input_rep s cm ed"
  by (simp add: input_rep_def input_of_def)

lemma of_nat_le_ring: "n \<le> unat INPUT_BUF \<Longrightarrow> unat (of_nat n :: uint) = n"
  by (simp add: INPUT_BUF_def unat_of_nat)

lemma input_rep_e: "input_rep s cm ed \<Longrightarrow> in_e s = in_r s + of_nat (length cm + length ed)"
  by (simp add: input_rep_def)

lemma input_rep_tests:
  assumes "input_rep s cm ed"
  shows "in_e s - in_r s < INPUT_BUF \<longleftrightarrow> length cm + length ed < unat INPUT_BUF"
    "in_e s = in_r s + INPUT_BUF \<longleftrightarrow> length cm + length ed = unat INPUT_BUF"
    "in_e s = in_w s \<longleftrightarrow> ed = []" "in_r s = in_w s \<longleftrightarrow> cm = []"
proof -
  have b: "length cm + length ed \<le> unat INPUT_BUF" using assms by (simp add: input_rep_def)
  have u: "unat (of_nat (length cm + length ed) :: uint) = length cm + length ed" "unat (of_nat (length cm) :: uint) = length cm"
    "unat (of_nat (length ed) :: uint) = length ed" using b by (simp_all only: of_nat_le_ring)
  have d: "in_e s - in_r s = of_nat (length cm + length ed)" using input_rep_e [OF assms] by simp
  show "in_e s - in_r s < INPUT_BUF \<longleftrightarrow> length cm + length ed < unat INPUT_BUF" unfolding d word_less_nat_alt u ..
  have "in_e s = in_r s + INPUT_BUF \<longleftrightarrow> (of_nat (length cm + length ed) :: uint) = INPUT_BUF" using input_rep_e [OF assms] by simp
  then show "in_e s = in_r s + INPUT_BUF \<longleftrightarrow> length cm + length ed = unat INPUT_BUF" unfolding word_unat_eq_iff u .
  have "in_e s = in_w s \<longleftrightarrow> (of_nat (length ed) :: uint) = 0" using assms by (simp add: input_rep_def)
  then show "in_e s = in_w s \<longleftrightarrow> ed = []" unfolding word_unat_eq_iff u by simp
  have "in_r s = in_w s \<longleftrightarrow> (of_nat (length cm) :: uint) = 0" using assms by (simp add: input_rep_def)
  then show "in_r s = in_w s \<longleftrightarrow> cm = []" unfolding word_unat_eq_iff u by simp
qed

lemma input_rep_store:
  assumes "input_rep s cm ed" "length cm + length ed < unat INPUT_BUF"
  shows "input_rep (s\<lparr>in_buf := (in_buf s)[unat (in_e s mod INPUT_BUF) := x], in_e := in_e s + 1\<rparr>) cm (ed @ [x])"
proof -
  have "length (in_buf s) = unat INPUT_BUF" using assms by (simp add: input_rep_def)
  from cr.window_store [OF this assms(2), of "in_r s" x] assms show ?thesis
    unfolding input_rep_e [OF assms(1)] by (simp add: input_rep_def add.commute)
qed

lemma input_rep_commit: "input_rep s cm ed \<Longrightarrow> input_rep (s\<lparr>in_w := in_e s\<rparr>) (cm @ ed) []"
  by (simp add: input_rep_def)

lemma input_rep_erase:
  assumes "input_rep s cm ed" "ed \<noteq> []"
  shows "input_rep (s\<lparr>in_e := in_e s - 1\<rparr>) cm (butlast ed)" "in_at s (in_e s - 1) = last ed"
proof -
  obtain qd x where ed: "ed = qd @ [x]" using assms(2) by (metis append_butlast_last_id)
  have w: "window INPUT_BUF (in_buf s) (in_r s) (Suc (length cm + length qd)) = cm @ qd @ [x]"
    using assms(1) ed by (simp add: input_rep_def)
  have e: "in_e s - 1 = in_r s + of_nat (length cm + length qd)" using input_rep_e [OF assms(1)] ed by simp
  from w show "in_at s (in_e s - 1) = last ed" unfolding window_Suc in_at_def e ed by simp
  show "input_rep (s\<lparr>in_e := in_e s - 1\<rparr>) cm (butlast ed)"
    using assms(1) w unfolding window_Suc ed by (simp add: input_rep_def) 
qed

lemma input_rep_take:
  assumes "input_rep s (c # cm) ed"
  shows "input_rep (s\<lparr>in_r := in_r s + 1\<rparr>) cm ed" "in_at s (in_r s) = c"
  using assms by (auto simp: input_rep_def window_Cons in_at_def add.assoc)

section \<open>\<open>consoleintr\<close> is a line editor\<close>

definition edit :: "int \<Rightarrow> uchar list \<times> uchar list \<Rightarrow> uchar list \<times> uchar list" where
  "edit c = (\<lambda>(cm, ed).
     if c = CTRL CHR ''P'' then (cm, ed)
     else if c = CTRL CHR ''U'' then (cm, [])
     else if c = CTRL CHR ''H'' \<or> c = 0x7f then (cm, butlast ed)
     else if c \<noteq> 0 \<and> length cm + length ed < unat INPUT_BUF then
       (let x = word_of_int (if c = 13 then 10 else c) in
        if x = 10 \<or> x = 4 \<or> Suc (length cm + length ed) = unat INPUT_BUF then (cm @ ed @ [x], [])
        else (cm, ed @ [x]))
     else (cm, ed))"

text \<open>The state between the characters of an interrupt: the unfinished line has no newline.\<close>

definition editing :: "lockid set \<Rightarrow> 'z cons_scheme \<Rightarrow> uchar list \<Rightarrow> uchar list \<Rightarrow> bool" where
  "editing X s cm ed \<longleftrightarrow> screen_ok s \<and> holds X s \<and> input_rep s cm ed \<and> 10 \<notin> set ed"

lemma editing_print:
  assumes "editing X s cm ed" "prints X m"
  shows "\<exists>t. m s = Ok () t \<and> editing X t cm ed"
proof -
  obtain t where "m s = Ok () t" "screen_ok t" "holds X t" "input_of t = input_of s"
    using printsD [OF assms(2)] assms(1) unfolding editing_def by blast
  then show ?thesis using assms(1) input_rep_cong [of t s cm ed] unfolding editing_def by blast
qed

lemma holds_input [simp]:
  "holds X (s\<lparr>in_e := e\<rparr>) = holds X s" "holds X (s\<lparr>in_w := w\<rparr>) = holds X s" "holds X (s\<lparr>in_r := r\<rparr>) = holds X s"
  "holds X (s\<lparr>in_buf := b\<rparr>) = holds X s" "holds X (s\<lparr>in_buf := b, in_e := e\<rparr>) = holds X s"
  by (rule holds_ctl; simp add: lock_ctl_def)+

lemma screen_input [simp]:
  "screen_ok (s\<lparr>in_e := e\<rparr>) = screen_ok s" "screen_ok (s\<lparr>in_w := w\<rparr>) = screen_ok s" "screen_ok (s\<lparr>in_r := r\<rparr>) = screen_ok s"
  "screen_ok (s\<lparr>in_buf := b\<rparr>) = screen_ok s" "screen_ok (s\<lparr>in_buf := b, in_e := e\<rparr>) = screen_ok s"
  by (simp_all add: screen_ok_def)

lemma cons_lock_frames [simp]:
  "input_of (acquired l s) = input_of s" "input_of (released l s) = input_of s" "input_of (woken_up ch s) = input_of s"
  "screen_ok (acquired l s) = screen_ok s" "screen_ok (released l s) = screen_ok s" "screen_ok (woken_up ch s) = screen_ok s"
  by (simp_all add: input_of_def screen_ok_def acquired_def released_def woken_up_def upd_lock_def upd_mycpu_def)

lemmas input_rep_locks [simp] = cons_lock_frames(1-3) [THEN input_rep_cong]

lemma editing_erase: "editing X s cm ed \<Longrightarrow> ed \<noteq> [] \<Longrightarrow> editing X (s\<lparr>in_e := in_e s - 1\<rparr>) cm (butlast ed)"
  using input_rep_erase(1) [of s cm ed] in_set_butlastD [of 10 ed] by (auto simp: editing_def)

lemma kill_line_ok: "editing X s cm ed \<Longrightarrow> length ed < n \<Longrightarrow> \<exists>t. kill_line n s = Ok () t \<and> editing X t cm []"
proof (induction n arbitrary: s ed)
  case (Suc n)
  have r: "input_rep s cm ed" "10 \<notin> set ed" using Suc.prems(1) by (auto simp: editing_def)
  show ?case
  proof (cases "ed = []")
    case True
    then show ?thesis using Suc.prems(1) input_rep_tests(3) [OF r(1)] by auto
  next
    case False
    then have "in_at s (in_e s - 1) \<noteq> 10" using input_rep_erase(2) [OF r(1)] r(2) last_in_set [of ed] by metis
    moreover obtain t where t: "consputc BACKSPACE (s\<lparr>in_e := in_e s - 1\<rparr>) = Ok () t" "editing X t cm (butlast ed)"
      using editing_print [OF editing_erase [OF Suc.prems(1) False] prints_consputc] by blast
    moreover have "length (butlast ed) < n" using Suc.prems(2) False by (cases ed) auto
    ultimately show ?thesis using Suc.IH [OF t(2)] False input_rep_tests(3) [OF r(1)] by (simp add: kbind_apply)
  qed
qed simp

lemma editing_store:
  assumes "editing X s cm ed" "length cm + length ed < unat INPUT_BUF"
  shows "screen_ok (s\<lparr>in_buf := (in_buf s)[unat (in_e s mod INPUT_BUF) := x], in_e := in_e s + 1\<rparr>)"
    "holds X (s\<lparr>in_buf := (in_buf s)[unat (in_e s mod INPUT_BUF) := x], in_e := in_e s + 1\<rparr>)"
    "input_rep (s\<lparr>in_buf := (in_buf s)[unat (in_e s mod INPUT_BUF) := x], in_e := in_e s + 1\<rparr>) cm (ed @ [x])"
  using assms input_rep_store [of s cm ed x] by (simp_all add: editing_def)

lemma char_word:
  assumes "0 \<le> c" "c < 256"
  shows "(word_of_int c :: uchar) = 10 \<longleftrightarrow> c = 10" "(word_of_int c :: uchar) = 4 \<longleftrightarrow> c = 4"
proof -
  have "uint (word_of_int c :: uchar) = c" using assms by (simp add: uint_word_of_int)
  then show "(word_of_int c :: uchar) = 10 \<longleftrightarrow> c = 10" "(word_of_int c :: uchar) = 4 \<longleftrightarrow> c = 4"
    by (auto simp: word_uint_eq_iff)
qed

lemma CTRL_values [simp]: "CTRL CHR ''P'' = 16" "CTRL CHR ''U'' = 21" "CTRL CHR ''H'' = 8" "CTRL CHR ''D'' = 4"
  by (simp_all add: CTRL_def)

lemma cons_char_ok:
  assumes "editing X s cm ed" "0 \<le> c" "c < 256" "c \<notin> {16, 21, 8, 0x7f}" "PtableLock \<notin> X"
  shows "\<exists>t. cons_char c s = Ok () t \<and> editing X t (fst (edit c (cm, ed))) (snd (edit c (cm, ed)))"
proof (cases "c \<noteq> 0 \<and> length cm + length ed < unat INPUT_BUF")
  case False
  then show ?thesis using assms input_rep_tests(1) [of s cm ed] by (auto simp: cons_char_def edit_def editing_def)
next
  case True
  define d where "d = (if c = 13 then 10 else c)"
  define x :: uchar where "x = word_of_int d"
  let ?s = "s\<lparr>in_buf := (in_buf s)[unat (in_e s mod INPUT_BUF) := x], in_e := in_e s + 1\<rparr>"
  have x: "x = 10 \<longleftrightarrow> d = 10" "x = 4 \<longleftrightarrow> d = 4" using char_word [of d] assms(2,3) by (simp_all add: d_def x_def)
  note st = editing_store [OF assms(1), of x]
  obtain u where u: "consputc d ?s = Ok () u" "screen_ok u" "holds X u" "input_of u = input_of ?s"
    using printsD [OF prints_consputc] st True by blast
  have ru: "input_rep u cm (ed @ [x])" using input_rep_cong [OF u(4)] st(3) True by simp
  have w: "wakeup Ch_input (u\<lparr>in_w := y\<rparr>) = Ok () (woken_up Ch_input (u\<lparr>in_w := y\<rparr>))" for y
    using u(3) assms(5) by (intro wakeup_holds [of X]) simp_all
  have step: "cons_char c s = (if d = 10 \<or> d = 4 \<or> in_e u = in_r u + INPUT_BUF
      then Ok () (woken_up Ch_input (u\<lparr>in_w := in_e u\<rparr>)) else Ok () u)"
    using True w u(1) input_rep_tests(1) [of s cm ed] assms(1)
    by (simp add: cons_char_def kbind_apply editing_def d_def x_def Let_def split: if_splits)
  show ?thesis
  proof (cases "x = 10 \<or> x = 4 \<or> Suc (length cm + length ed) = unat INPUT_BUF")
    case commit: True
    let ?v = "u\<lparr>in_w := in_e u\<rparr>"
    have "editing X (woken_up Ch_input ?v) (cm @ ed @ [x]) []"
      using input_rep_commit [OF ru] u(2,3) assms(5) by (simp add: editing_def)
    moreover have "d = 10 \<or> d = 4 \<or> in_e u = in_r u + INPUT_BUF"
      using commit x input_rep_tests(2) [OF ru] by simp
    moreover have "edit c (cm, ed) = (cm @ ed @ [x], [])"
      using True commit assms(4) by (auto simp: edit_def x_def d_def Let_def)
    ultimately show ?thesis using step by simp
  next
    case no_commit: False
    have "\<not> (d = 10 \<or> d = 4 \<or> in_e u = in_r u + INPUT_BUF)" using no_commit x input_rep_tests(2) [OF ru] by simp
    moreover have "edit c (cm, ed) = (cm, ed @ [x])"
      using True no_commit assms(4) by (auto simp: edit_def x_def d_def Let_def)
    moreover have "editing X u cm (ed @ [x])" using ru u(2,3) no_commit assms(1) by (simp add: editing_def)
    ultimately show ?thesis using step by simp
  qed
qed

lemma cons_intr_char_ok:
  assumes "editing X s cm ed" "0 \<le> c" "c < 256" "PtableLock \<notin> X"
  shows "\<exists>t d. cons_intr_char c s = Ok d t \<and> editing X t (fst (edit c (cm, ed))) (snd (edit c (cm, ed)))"
proof -
  have r: "input_rep s cm ed" using assms(1) by (simp add: editing_def)
  then have len: "length ed < 129" by (simp add: input_rep_def INPUT_BUF_def)
  consider "c = 16" | "c = 21" | "c = 8 \<or> c = 0x7f" "ed = []" | "c = 8 \<or> c = 0x7f" "ed \<noteq> []" | "c \<notin> {16, 21, 8, 0x7f}" by auto
  then show ?thesis
  proof cases
    case 1
    then show ?thesis using assms(1) by (auto simp: cons_intr_char_def edit_def)
  next
    case 2
    then show ?thesis using kill_line_ok [OF assms(1) len]
      by (auto simp: cons_intr_char_def edit_def kbind_apply simp del: kill_line.simps)
  next
    case 3
    then show ?thesis using assms(1) input_rep_tests(3) [OF r] by (auto simp: cons_intr_char_def edit_def kbind_apply)
  next
    case 4
    obtain t where "consputc BACKSPACE (s\<lparr>in_e := in_e s - 1\<rparr>) = Ok () t" "editing X t cm (butlast ed)"
      using editing_print [OF editing_erase [OF assms(1) 4(2)] prints_consputc] by blast
    then show ?thesis using 4 input_rep_tests(3) [OF r] by (auto simp: cons_intr_char_def edit_def kbind_apply)
  next
    case 5
    then show ?thesis using cons_char_ok [OF assms(1-3) 5 assms(4)] by (auto simp: cons_intr_char_def kbind_apply)
  qed
qed

lemma consoleintr_loop_ok:
  "editing X s cm ed \<Longrightarrow> \<forall>c \<in> set cs. 0 \<le> c \<and> c < 256 \<Longrightarrow> PtableLock \<notin> X \<Longrightarrow>
    \<exists>t d'. consoleintr_loop cs d s = Ok d' t \<and> editing X t (fst (fold edit cs (cm, ed))) (snd (fold edit cs (cm, ed)))"
proof (induction cs arbitrary: s cm ed d)
  case (Cons c cs)
  obtain u e where u: "cons_intr_char c s = Ok e u" "editing X u (fst (edit c (cm, ed))) (snd (edit c (cm, ed)))"
    using cons_intr_char_ok [OF Cons.prems(1), of c] Cons.prems by auto
  show ?case using Cons.IH [OF u(2)] Cons.prems u(1) by simp
qed auto

text \<open>
  C12: The interrupt handler of the console is a line editor. Started with the readable bytes \<open>cm\<close> and the
  unfinished line \<open>ed\<close> in the input buffer, \<open>consoleintr\<close> returns without a panic whatever characters arrive
  and leaves what the editor makes of them: backspace removes the last character of the line, control-U the
  whole line, and a newline, control-D or a full buffer hands the line over to the readers. Neither
  the readable bytes nor their order are ever changed by editing. The counters may wrap around.
\<close>

theorem consoleintr_edits:
  fixes s :: "'z cons_scheme"
  assumes "editing {} s cm ed" "\<forall>c \<in> set cs. 0 \<le> c \<and> c < 256"
  shows "\<exists>t. consoleintr cs s = Ok () t \<and> editing {} t (fst (fold edit cs (cm, ed))) (snd (fold edit cs (cm, ed)))"
proof -
  have h: "holds {} s" using assms(1) by (simp add: editing_def)
  have "editing {ConsLock} (acquired ConsLock s) cm ed"
    using assms(1) holds_acquired [OF h, of ConsLock] by (simp add: editing_def)
  from consoleintr_loop_ok [OF this assms(2)] obtain t d where
    t: "consoleintr_loop cs False (acquired ConsLock s) = Ok d t"
      "editing {ConsLock} t (fst (fold edit cs (cm, ed))) (snd (fold edit cs (cm, ed)))" by blast
  have ht: "holds {ConsLock} t" using t(2) by (simp add: editing_def)
  have r: "editing {} (released ConsLock t) (fst (fold edit cs (cm, ed))) (snd (fold edit cs (cm, ed)))"
    using t(2) holds_released [OF ht, of ConsLock] by (simp add: editing_def)
  show ?thesis
    using editing_print [OF r prints_procdump] r t(1) acquire_holds [OF h, of ConsLock] release_holds [OF ht, of ConsLock]
    by (cases d) (auto simp: consoleintr_def kbind_apply)
qed

lemma boot_cons_editing: "editing {} boot_cons [] []"
  using boot_thread(2) by (simp add: editing_def screen_ok_def input_rep_def thread_def)

theorem consoleintr_edits_witness:
  "\<exists>t. consoleintr [97, 98, 8, 99, 10, 100] boot_cons = Ok () t \<and> editing {} t [97, 99, 10] [100]"
proof -
  have "fold edit [97, 98, 8, 99, 10, 100] ([], []) = ([97, 99, 10], [100])" by (simp add: edit_def INPUT_BUF_def Let_def)
  with consoleintr_edits [OF boot_cons_editing, of "[97, 98, 8, 99, 10, 100]"] show ?thesis by simp
qed

section \<open>\<open>consoleread\<close> hands out lines\<close>

text \<open>
  What a read of at most \<open>n\<close> bytes takes from the readable bytes, if it need not wait: it stops after
  a newline, and before a control-D, which it consumes only if it has read nothing before it.
\<close>

fun line_read :: "bool \<Rightarrow> nat \<Rightarrow> uchar list \<Rightarrow> (uchar list \<times> uchar list) option" where
  "line_read b 0 cm = Some ([], cm)"
| "line_read b (Suc n) [] = None"
| "line_read b (Suc n) (c # cm) =
     (if c = 4 then Some ([], if b then c # cm else cm)
      else if c = 10 then Some ([c], cm)
      else map_option (apfst (Cons c)) (line_read True n cm))"

lemma consoleread_loop_line:
  assumes "editing X s cm ed" "line_read (acc \<noteq> []) n cm = Some (got, left)" "target = length acc + n"
  shows "\<exists>t. consoleread_loop envs target n acc s = Ok (Some (acc @ got, n - length got)) t \<and> editing X t left ed"
  using assms
proof (induction n arbitrary: s cm acc got)
  case (Suc n)
  from Suc.prems(2) obtain c cm' where cm: "cm = c # cm'" by (cases cm) auto
  have r: "input_rep s (c # cm') ed" using Suc.prems(1) cm by (simp add: editing_def)
  have ne: "in_r s \<noteq> in_w s" and top: "in_at s (in_r s) = c"
    using input_rep_tests(4) [OF r] input_rep_take(2) [OF r] by simp_all
  have t: "editing X (s\<lparr>in_r := in_r s + 1\<rparr>) cm' ed" using Suc.prems(1) input_rep_take(1) [OF r] by (simp add: editing_def)
  have eof: "uint c = CTRL CHR ''D'' \<longleftrightarrow> c = 4" by (simp add: word_uint_eq_iff)
  consider "c = 4" "acc = []" | "c = 4" "acc \<noteq> []" | "c = 10" | "c \<noteq> 4" "c \<noteq> 10" by blast
  then show ?case
  proof cases
    case 1
    then show ?thesis using Suc.prems t ne top eof cm by (simp add: kbind_apply)
  next
    case 2
    then show ?thesis using Suc.prems ne top eof cm by (simp add: kbind_apply)
  next
    case 3
    then show ?thesis using Suc.prems t ne top eof cm by (auto simp: kbind_apply)
  next
    case 4
    then obtain g where g: "got = c # g" "line_read True n cm' = Some (g, left)" using Suc.prems(2) cm by auto
    obtain t' where "consoleread_loop envs target n (acc @ [c]) (s\<lparr>in_r := in_r s + 1\<rparr>) = Ok (Some ((acc @ [c]) @ g, n - length g)) t'"
      "editing X t' left ed" using Suc.IH [OF t, of "acc @ [c]" g] g Suc.prems(3) by auto
    then show ?thesis using 4 g ne top eof by (simp add: kbind_apply)
  qed
qed simp



end
