(* ===== verification/Grep.thy ===== *)
theory Grep
  imports Prelude
begin

text \<open>
  The program \<open>grep\<close> (\<open>grep.c\<close>): the matcher, which supports the operators \<open>^\<close>, \<open>.\<close>, \<open>*\<close> and \<open>$\<close>, and
  the loop that cuts the input into lines. A C string is the list of its characters without the
  terminating zero. The input is what the successive calls of \<open>read\<close> find: a list of pieces, of which a
  call takes as much as fits into the buffer.
\<close>

section \<open>The matcher\<close>

function (sequential) matchhere :: "string \<Rightarrow> string \<Rightarrow> bool" and matchstar :: "char \<Rightarrow> string \<Rightarrow> string \<Rightarrow> bool" where
  "matchhere [] text = True"
| "matchhere (r # re) text =
     (if re \<noteq> [] \<and> hd re = CHR ''*'' then matchstar r (tl re) text
      else if r = CHR ''$'' \<and> re = [] then text = []
      else if text \<noteq> [] \<and> (r = CHR ''.'' \<or> r = hd text) then matchhere re (tl text)
      else False)"
| "matchstar c re text =
     (if matchhere re text then True
      else if text \<noteq> [] \<and> (hd text = c \<or> c = CHR ''.'') then matchstar c re (tl text)
      else False)"
  by pat_completeness auto

termination
  by (relation "measure (\<lambda>x. case x of Inl (re, text) \<Rightarrow> 2 * (length re + length text)
      | Inr (c, re, text) \<Rightarrow> Suc (2 * (length re + length text)))")
    (auto simp: neq_Nil_conv)

declare matchstar.simps [simp del]

fun match_any :: "string \<Rightarrow> string \<Rightarrow> bool" where
  "match_any re text =
     (if matchhere re text then True
      else case text of [] \<Rightarrow> False | t # ts \<Rightarrow> match_any re ts)"

declare match_any.simps [simp del]

definition match :: "string \<Rightarrow> string \<Rightarrow> bool" where
  "match re text = (if re \<noteq> [] \<and> hd re = CHR ''^'' then matchhere (tl re) text else match_any re text)"

section \<open>Reading lines\<close>

text \<open>What \<open>read\<close> returns for at most \<open>n\<close> bytes; the empty list is the end of the input.\<close>

fun read_piece :: "nat \<Rightarrow> string list \<Rightarrow> string \<times> string list" where
  "read_piece n [] = ([], [])"
| "read_piece n (p # ps) = (take n p, if drop n p = [] then ps else drop n p # ps)"

text \<open>
  The inner loop: print the matching lines of the buffer, whose rest after the last newline is
  returned. \<open>strchr\<close> stops at a zero byte.
\<close>

function grep_lines :: "string \<Rightarrow> string \<Rightarrow> string \<times> string" where
  "grep_lines pattern p =
     (let line = takeWhile (\<lambda>c. c \<noteq> CHR ''\<newline>'' \<and> c \<noteq> CHR 0x00) p; rest = drop (length line) p in
      if rest \<noteq> [] \<and> hd rest = CHR ''\<newline>'' then
        (case grep_lines pattern (tl rest) of (out, p') \<Rightarrow>
          ((if match pattern line then line @ [CHR ''\<newline>''] else []) @ out, p'))
      else ([], p))"
  by pat_completeness auto

termination
proof (relation "measure (\<lambda>(pattern, p). length p)", goal_cases)
  case (2 pattern p line rest)
  then have "rest \<noteq> []" by blast
  then have "length (tl rest) < length rest" by simp
  also have "\<dots> \<le> length p" using 2 by simp
  finally show ?case by simp
qed simp

declare grep_lines.simps [simp del]

definition GREPBUF :: nat where "GREPBUF = 1024"

text \<open>The outer loop, with the bytes kept in the buffer.\<close>

fun grep_loop :: "nat \<Rightarrow> string \<Rightarrow> string \<Rightarrow> string list \<Rightarrow> string option" where
  "grep_loop 0 pattern kept ps = None"
| "grep_loop (Suc k) pattern kept ps =
     (case read_piece (GREPBUF - length kept - 1) ps of (got, ps') \<Rightarrow>
        if got = [] then Some []
        else
          (case grep_lines pattern (kept @ got) of (out, p) \<Rightarrow>
             map_option ((@) out)
               (grep_loop k pattern (if length p = length (kept @ got) then [] else p) ps')))"

text \<open>Every round takes a byte of the input, so this many rounds are enough.\<close>

definition grep :: "string \<Rightarrow> string list \<Rightarrow> string option" where
  "grep pattern ps = grep_loop (Suc (length (concat ps))) pattern [] ps"

text \<open>
  The program: what it writes, as file descriptor and text, for its arguments; \<open>open_file\<close> gives what the
  reads of a file return, if it can be opened.
\<close>

fun grep_files :: "(string \<Rightarrow> string list option) \<Rightarrow> string \<Rightarrow> string list \<Rightarrow> (nat \<times> string option) list" where
  "grep_files open_file pattern [] = []"
| "grep_files open_file pattern (f # fs) =
     (case open_file f of
        None \<Rightarrow> [(1, Some (''grep: cannot open '' @ f @ ''\<newline>''))]
      | Some ps \<Rightarrow> (1, grep pattern ps) # grep_files open_file pattern fs)"

definition grep_main :: "(string \<Rightarrow> string list option) \<Rightarrow> string list \<Rightarrow> string list \<Rightarrow> (nat \<times> string option) list" where
  "grep_main open_file stdin argv =
     (case argv of
        prog # pattern # files \<Rightarrow>
          if files = [] then [(1, grep pattern stdin)] else grep_files open_file pattern files
      | _ \<Rightarrow> [(2, Some ''usage: grep pattern [file ...]\<newline>'')])"

section \<open>The language of a pattern\<close>

text \<open>A pattern is a sequence of items, possibly ended by the anchor \<open>$\<close>.\<close>

datatype item = One char | Star char

fun parse_re :: "string \<Rightarrow> item list \<times> bool" where
  "parse_re [] = ([], False)"
| "parse_re (r # re) =
     (if re \<noteq> [] \<and> hd re = CHR ''*'' then apfst (Cons (Star r)) (parse_re (tl re))
      else if r = CHR ''$'' \<and> re = [] then ([], True)
      else apfst (Cons (One r)) (parse_re re))"

definition stands_for :: "char \<Rightarrow> char \<Rightarrow> bool" where
  "stands_for r c \<longleftrightarrow> r = CHR ''.'' \<or> r = c"

fun lang :: "item list \<Rightarrow> string set" where
  "lang [] = {[]}"
| "lang (One r # is) = {c # w |c w. stands_for r c \<and> w \<in> lang is}"
| "lang (Star r # is) = {u @ w |u w. (\<forall>c \<in> set u. stands_for r c) \<and> w \<in> lang is}"

text \<open>The pattern matches a prefix of the text, which is all of it when the pattern is anchored.\<close>

definition prefix_match :: "string \<Rightarrow> string \<Rightarrow> bool" where
  "prefix_match re text \<longleftrightarrow> (\<exists>u v. text = u @ v \<and> u \<in> lang (fst (parse_re re)) \<and> (snd (parse_re re) \<longrightarrow> v = []))"

lemma ex_append_Cons:
  "(\<exists>u v. x # xs = u @ v \<and> P u v) \<longleftrightarrow> P [] (x # xs) \<or> (\<exists>u v. xs = u @ v \<and> P (x # u) v)"
proof
  assume "\<exists>u v. x # xs = u @ v \<and> P u v"
  then obtain u v where "x # xs = u @ v" "P u v" by blast
  then show "P [] (x # xs) \<or> (\<exists>u v. xs = u @ v \<and> P (x # u) v)" by (cases u) auto
next
  assume "P [] (x # xs) \<or> (\<exists>u v. xs = u @ v \<and> P (x # u) v)"
  then show "\<exists>u v. x # xs = u @ v \<and> P u v" by (metis append_Cons append_Nil)
qed

lemma ex_append_assoc:
  "(\<exists>u v. t = u @ v \<and> A u \<and> (\<exists>a b. v = a @ b \<and> B a \<and> C b)) \<longleftrightarrow> (\<exists>w b. t = w @ b \<and> (\<exists>u a. w = u @ a \<and> A u \<and> B a) \<and> C b)"
proof
  assume "\<exists>u v. t = u @ v \<and> A u \<and> (\<exists>a b. v = a @ b \<and> B a \<and> C b)"
  then obtain u a b where "t = (u @ a) @ b" "A u" "B a" "C b" by auto
  then show "\<exists>w b. t = w @ b \<and> (\<exists>u a. w = u @ a \<and> A u \<and> B a) \<and> C b" by blast
next
  assume "\<exists>w b. t = w @ b \<and> (\<exists>u a. w = u @ a \<and> A u \<and> B a) \<and> C b"
  then obtain u a b where "t = u @ (a @ b)" "A u" "B a" "C b" by auto
  then show "\<exists>u v. t = u @ v \<and> A u \<and> (\<exists>a b. v = a @ b \<and> B a \<and> C b)" by blast
qed

lemma matchstar_iff: "matchstar c re text \<longleftrightarrow> (\<exists>u v. text = u @ v \<and> (\<forall>x \<in> set u. stands_for c x) \<and> matchhere re v)"
proof (induction "text")
  case Nil
  then show ?case by (simp add: matchstar.simps [of c re "[]"])
next
  case (Cons x xs)
  have "matchstar c re (x # xs) \<longleftrightarrow> matchhere re (x # xs) \<or> stands_for c x \<and> matchstar c re xs"
    by (subst matchstar.simps) (auto simp: stands_for_def)
  then show ?case unfolding Cons.IH ex_append_Cons by auto
qed

lemma matchhere_iff: "matchhere re text \<longleftrightarrow> prefix_match re text"
proof (induction re arbitrary: "text" rule: parse_re.induct)
  case 1
  then show ?case by (simp add: prefix_match_def)
next
  case (2 r re)
  consider (star) "re \<noteq> []" "hd re = CHR ''*''" | (anchor) "r = CHR ''$''" "re = []"
    | (one) "\<not> (re \<noteq> [] \<and> hd re = CHR ''*'')" "\<not> (r = CHR ''$'' \<and> re = [])" by blast
  then show ?case
  proof cases
    case star
    have "matchhere (r # re) text \<longleftrightarrow> matchstar r (tl re) text" using star by simp
    also have "\<dots> \<longleftrightarrow> (\<exists>u v. text = u @ v \<and> (\<forall>x \<in> set u. stands_for r x) \<and> prefix_match (tl re) v)"
      unfolding matchstar_iff 2(1) [OF conjI [OF star]] ..
    also have "\<dots> \<longleftrightarrow> prefix_match (r # re) text"
      using star by (simp add: prefix_match_def ex_append_assoc)
    finally show ?thesis .
  next
    case anchor
    then show ?thesis by (simp add: prefix_match_def)
  next
    case one
    have "matchhere (r # re) text \<longleftrightarrow> (\<exists>x xs. text = x # xs \<and> stands_for r x \<and> matchhere re xs)"
      using one by (cases "text") (auto simp: stands_for_def)
    also have "\<dots> \<longleftrightarrow> (\<exists>x xs. text = x # xs \<and> stands_for r x \<and> prefix_match re xs)"
      using 2(2) one by simp
    also have "\<dots> \<longleftrightarrow> prefix_match (r # re) text"
      using one by (cases "text") (auto simp: prefix_match_def ex_append_Cons)
    finally show ?thesis .
  qed
qed

lemma match_any_iff: "match_any re text \<longleftrightarrow> (\<exists>p q. text = p @ q \<and> matchhere re q)"
proof (induction "text")
  case Nil
  then show ?case by (simp add: match_any.simps [of re "[]"])
next
  case (Cons x xs)
  have "match_any re (x # xs) \<longleftrightarrow> matchhere re (x # xs) \<or> match_any re xs" by (subst match_any.simps) simp
  then show ?case unfolding Cons.IH ex_append_Cons by auto
qed

text \<open>
  C16: The matcher of \<open>grep\<close> decides the language of its pattern. A pattern denotes a set of strings: a
  character stands for itself, the dot for any character, and either with a star for any sequence of
  such characters. \<open>match\<close> succeeds exactly when some substring of the text is in that set, with the
  substring at the start of the text if the pattern begins with \<open>^\<close> and at its end if it ends in \<open>$\<close>.
\<close>

theorem match_correct:
  "match re text \<longleftrightarrow>
     (if re \<noteq> [] \<and> hd re = CHR ''^'' then prefix_match (tl re) text
      else \<exists>p q. text = p @ q \<and> prefix_match re q)"
  by (simp add: match_def matchhere_iff match_any_iff)

section \<open>The loop over the input\<close>

lemma grep_loop_returns: "length (concat ps) < k \<Longrightarrow> \<exists>out. grep_loop k pattern kept ps = Some out"
proof (induction k arbitrary: kept ps)
  case (Suc k)
  obtain got ps' where r: "read_piece (GREPBUF - length kept - 1) ps = (got, ps')" by fastforce
  have "length (concat ps') + length got \<le> length (concat ps)" using r by (cases ps) (auto split: if_splits)
  then have "got \<noteq> [] \<Longrightarrow> length (concat ps') < k" using Suc.prems by (cases got) auto
  then show ?case using Suc.IH r by (fastforce split: prod.splits)
qed simp


text \<open>The lines of a text that are ended by a newline, and what stands after the last newline.\<close>

fun lines_of :: "string \<Rightarrow> string \<Rightarrow> string list" where
  "lines_of cur [] = []"
| "lines_of cur (c # cs) = (if c = CHR ''\<newline>'' then cur # lines_of [] cs else lines_of (cur @ [c]) cs)"

fun unfinished :: "string \<Rightarrow> string \<Rightarrow> string" where
  "unfinished cur [] = cur"
| "unfinished cur (c # cs) = (if c = CHR ''\<newline>'' then unfinished [] cs else unfinished (cur @ [c]) cs)"

definition matching_lines :: "string \<Rightarrow> string list \<Rightarrow> string" where
  "matching_lines pattern ls = concat (map (\<lambda>l. l @ [CHR ''\<newline>'']) (filter (match pattern) ls))"

lemma matching_lines_simps [simp]:
  "matching_lines pattern [] = []"
  "matching_lines pattern (l # ls) = (if match pattern l then l @ [CHR ''\<newline>''] else []) @ matching_lines pattern ls"
  "matching_lines pattern (ls @ ms) = matching_lines pattern ls @ matching_lines pattern ms"
  by (simp_all add: matching_lines_def)

lemma lines_of_append: "lines_of cur (a @ b) = lines_of cur a @ lines_of (unfinished cur a) b"
  by (induction a arbitrary: cur) auto

lemma unfinished_append: "unfinished cur (a @ b) = unfinished (unfinished cur a) b"
  by (induction a arbitrary: cur) auto

lemma lines_of_open [simp]:
  assumes "CHR ''\<newline>'' \<notin> set a"
  shows "lines_of cur a = []" "unfinished cur a = cur @ a"
  using assms by (induction a arbitrary: cur) auto

lemma unfinished_le: "CHR ''\<newline>'' \<in> set a \<Longrightarrow> length (unfinished cur a) < length a"
proof (induction a arbitrary: cur)
  case (Cons c a)
  show ?case
  proof (cases "c = CHR ''\<newline>'' \<and> CHR ''\<newline>'' \<notin> set a")
    case False
    then have "CHR ''\<newline>'' \<in> set a" using Cons.prems by auto
    then show ?thesis using Cons.IH by (simp add: less_SucI)
  qed simp
qed simp

lemma unfinished_suffix: "\<exists>u. cur @ a = u @ unfinished cur a"
proof (induction a arbitrary: cur)
  case (Cons c a)
  show ?case
  proof (cases "c = CHR ''\<newline>''")
    case True
    obtain u where "a = u @ unfinished [] a" using Cons [of "[]"] by auto
    then have "cur @ c # a = (cur @ c # u) @ unfinished [] a" by simp
    then show ?thesis using True by (metis unfinished.simps(2))
  next
    case False
    then show ?thesis using Cons [of "cur @ [c]"] by simp
  qed
qed simp

lemma unfinished_open: "CHR ''\<newline>'' \<notin> set cur \<Longrightarrow> CHR ''\<newline>'' \<notin> set (unfinished cur a)"
  by (induction a arbitrary: cur) auto

lemma grep_lines_open: "CHR ''\<newline>'' \<notin> set p \<Longrightarrow> CHR 0x00 \<notin> set p \<Longrightarrow> grep_lines pattern p = ([], p)"
proof -
  assume "CHR ''\<newline>'' \<notin> set p" "CHR 0x00 \<notin> set p"
  then have "takeWhile (\<lambda>c. c \<noteq> CHR ''\<newline>'' \<and> c \<noteq> CHR 0x00) p = p" by (auto simp: takeWhile_eq_all_conv)
  then show ?thesis unfolding grep_lines.simps [of pattern p] Let_def by (simp only:) simp
qed

lemma grep_lines_cons:
  assumes "CHR ''\<newline>'' \<notin> set line" "CHR 0x00 \<notin> set line"
  shows "grep_lines pattern (line @ CHR ''\<newline>'' # rest) =
     (case grep_lines pattern rest of (out, p') \<Rightarrow> ((if match pattern line then line @ [CHR ''\<newline>''] else []) @ out, p'))"
proof -
  have "takeWhile (\<lambda>c. c \<noteq> CHR ''\<newline>'' \<and> c \<noteq> CHR 0x00) (line @ CHR ''\<newline>'' # rest) = line"
    by (subst takeWhile_append2) (use assms in auto)
  then show ?thesis by (subst grep_lines.simps) (simp add: Let_def)
qed

lemma grep_lines_spec:
  "CHR 0x00 \<notin> set p \<Longrightarrow> grep_lines pattern p = (matching_lines pattern (lines_of [] p), unfinished [] p)"
proof (induction "length p" arbitrary: p rule: less_induct)
  case less
  show ?case
  proof (cases "CHR ''\<newline>'' \<in> set p")
    case True
    then obtain line rest where p: "p = line @ CHR ''\<newline>'' # rest" "CHR ''\<newline>'' \<notin> set line"
      using split_list_first by metis
    have "grep_lines pattern rest = (matching_lines pattern (lines_of [] rest), unfinished [] rest)"
      using less p(1) by simp
    moreover have "lines_of [] p = line # lines_of [] rest" "unfinished [] p = unfinished [] rest"
      unfolding p(1) lines_of_append unfinished_append using p(2) by simp_all
    ultimately show ?thesis using p less.prems by (simp add: grep_lines_cons)
  next
    case False
    then show ?thesis using less.prems by (simp add: grep_lines_open)
  qed
qed

text \<open>Every stretch of the text that fills the buffer has a newline.\<close>

definition lines_fit :: "string \<Rightarrow> bool" where
  "lines_fit s \<longleftrightarrow> (\<forall>u v w. s = u @ v @ w \<and> length v = GREPBUF - 1 \<longrightarrow> CHR ''\<newline>'' \<in> set v)"

lemma lines_fit_suffix: "lines_fit (u @ s) \<Longrightarrow> lines_fit s"
  unfolding lines_fit_def by (metis append.assoc)

lemma lines_fit_short: "lines_fit (v @ w) \<Longrightarrow> CHR ''\<newline>'' \<notin> set v \<Longrightarrow> length v < GREPBUF - 1"
proof (rule ccontr)
  assume a: "lines_fit (v @ w)" "CHR ''\<newline>'' \<notin> set v" "\<not> length v < GREPBUF - 1"
  have "v @ w = [] @ take (GREPBUF - 1) v @ (drop (GREPBUF - 1) v @ w)" by (metis append.assoc append_Nil append_take_drop_id)
  moreover have "length (take (GREPBUF - 1) v) = GREPBUF - 1" using a(3) by simp
  ultimately have "CHR ''\<newline>'' \<in> set (take (GREPBUF - 1) v)" using a(1) unfolding lines_fit_def by blast
  then show False using a(2) by (meson in_set_takeD)
qed

lemma grep_loop_lines:
  assumes "length content < k" "CHR 0x00 \<notin> set (kept @ content)" "CHR ''\<newline>'' \<notin> set kept" "lines_fit (kept @ content)"
    "ps = [content] \<or> content = [] \<and> ps = []"
  shows "grep_loop k pattern kept ps = Some (matching_lines pattern (lines_of kept content))"
  using assms
proof (induction k arbitrary: kept content ps)
  case (Suc k)
  define n where "n = GREPBUF - length kept - 1"
  let ?got = "take n content" and ?rest = "drop n content" and ?ps = "if drop n content = [] then [] else [drop n content]"
  have n: "0 < n" using lines_fit_short [OF Suc.prems(4,3)] unfolding n_def by simp
  have r: "read_piece (GREPBUF - length kept - 1) ps = (?got, ?ps)" using Suc.prems(5) unfolding n_def by auto
  show ?case
  proof (cases "content = []")
    case True
    then show ?thesis using r by simp
  next
    case False
    define b where "b = kept @ ?got"
    have got: "?got \<noteq> []" using False n by simp
    have split: "kept @ content = b @ ?rest" unfolding b_def by simp
    have b0: "CHR 0x00 \<notin> set b" using Suc.prems(2) split by (metis Un_iff set_append)
    have lines: "lines_of kept content = lines_of [] b @ lines_of (unfinished [] b) ?rest"
      using lines_of_append [of "[]" kept content] lines_of_append [of "[]" b ?rest] Suc.prems(3) split by simp
    have step: "grep_loop (Suc k) pattern kept ps = map_option ((@) (matching_lines pattern (lines_of [] b)))
        (grep_loop k pattern (if length (unfinished [] b) = length b then [] else unfinished [] b) ?ps)"
      unfolding grep_loop.simps r using got grep_lines_spec [OF b0] unfolding b_def by simp
    show ?thesis
    proof (cases "CHR ''\<newline>'' \<in> set b")
      case True
      obtain u where u: "b = u @ unfinished [] b" using unfinished_suffix [of "[]" b] by auto
      have suffix: "kept @ content = u @ unfinished [] b @ ?rest" using split u by (metis append.assoc)
      have "grep_loop k pattern (unfinished [] b) ?ps = Some (matching_lines pattern (lines_of (unfinished [] b) ?rest))"
      proof (rule Suc.IH)
        show "length ?rest < k" using Suc.prems(1) n False by (cases content) auto
        show "CHR 0x00 \<notin> set (unfinished [] b @ ?rest)" using Suc.prems(2) suffix by (metis Un_iff set_append)
        show "lines_fit (unfinished [] b @ ?rest)" using Suc.prems(4) suffix lines_fit_suffix by metis
      qed (auto simp: unfinished_open)
      then show ?thesis using step lines unfinished_le [OF True, of "[]"] by simp
    next
      case no_nl: False
      have "length b < GREPBUF - 1" using lines_fit_short [OF _ no_nl] Suc.prems(4) split by metis
      then have "?rest = []" unfolding b_def n_def by simp
      moreover obtain k' where "k = Suc k'" using Suc.prems(1) False by (cases k) auto
      ultimately show ?thesis using step lines no_nl by simp
    qed
  qed
qed simp


lemma lines_fit_small: "length s < GREPBUF - 1 \<Longrightarrow> lines_fit s"
  unfolding lines_fit_def by auto


text \<open>
  C30: A line that arrives in two reads when the buffer holds no complete line, as from the console or a
  pipe, is not put together: the first part is thrown away (\<open>m = 0\<close>) and the pattern is matched against
  the second part alone, which is also all that is printed.
\<close>

theorem grep_loses_split_line:
  assumes "a \<noteq> []" "length a < GREPBUF" "length b < GREPBUF - 1" "CHR ''\<newline>'' \<notin> set (a @ b)" "CHR 0x00 \<notin> set (a @ b)"
  shows "grep pattern [a, b @ [CHR ''\<newline>'']] = Some (if match pattern b then b @ [CHR ''\<newline>''] else [])"
proof -
  have b: "grep_lines pattern (b @ [CHR ''\<newline>'']) = (if match pattern b then b @ [CHR ''\<newline>''] else [], [])"
    using assms by (simp add: grep_lines_cons grep_lines_open)
  have a: "grep_lines pattern a = ([], a)" using assms by (simp add: grep_lines_open)
  obtain k where k: "Suc (length (concat [a, b @ [CHR ''\<newline>'']])) = Suc (Suc (Suc k))" using assms(1) by (cases a) auto
  show ?thesis unfolding grep_def k using assms a b by (simp add: GREPBUF_def)
qed

theorem grep_loses_split_line_witness:
  "match ''foo'' ''foobar'' \<and> grep ''foo'' [''foo'', ''bar'' @ [CHR ''\<newline>'']] = Some []"
proof -
  have "match ''foo'' ''foobar''" "\<not> match ''foo'' ''bar''" by code_simp+
  then show ?thesis using grep_loses_split_line [of "''foo''" "''bar''" "''foo''"] by (simp add: GREPBUF_def)
qed

end
