(* ===== verification/Spec2Isabelle.thy ===== *)
theory Spec2Isabelle
  imports Syscall Logtx Pipefifo Consline Grep
begin

text \<open>
  A verification development for the teaching kernel in \<open>src/\<close> (xv6 for x86 with the course's
  changes to \<open>exit\<close> and \<open>wait\<close>).
\<close>

end
